(* ===== verification/Prelude.thy ===== *)
theory Prelude
  imports Main "HOL-Library.Word"
begin

text \<open>
  Shared notions of the development: the type names of the model, the rewrite collections
  the component proofs use, and generic facts on machine words, on windows of consecutive
  indexes modulo the capacity of a ring, and on lists.
\<close>

unbundle bit_operations_syntax

text \<open>C++ \<open>size_t\<close>, \<open>uint64_t\<close> and \<open>unsigned\<close> on the platforms the code supports.\<close>

type_synonym size_t = "64 word"
type_synonym u64 = "64 word"
type_synonym u32 = "32 word"

text \<open>
  Two collections: \<open>seq_simps\<close> decides comparisons of sequence words, \<open>ring_simps\<close> reads and
  writes the cells of a ring.
\<close>

named_theorems seq_simps
named_theorems ring_simps

section \<open>Machine words\<close>

text \<open>
  A sequence word is an index shifted left by one, so it keeps all but the top bit of the
  index: two indexes give the same sequence word exactly when they agree modulo half the
  range of the index type.
\<close>

definition half_range :: "'l::len itself \<Rightarrow> nat" where
  "half_range _ = 2 ^ (LENGTH('l) - 1)"

lemma half_range_pos [simp]: "0 < half_range TYPE('l::len)"
  by (simp add: half_range_def)

lemma full_range: "(2::nat) ^ LENGTH('l::len) = 2 * half_range TYPE('l)"
  by (metis One_nat_def Suc_pred half_range_def len_gt_0 power_Suc)

lemma of_nat_word_eq:
  "((of_nat a :: 'l::len word) = of_nat b) \<longleftrightarrow> a mod (2 * half_range TYPE('l)) = b mod (2 * half_range TYPE('l))"
  by (simp add: word_of_nat_eq_iff take_bit_eq_mod full_range)

lemma of_nat_twice_eq:
  "((of_nat (2 * a) :: 'l::len word) = of_nat (2 * b)) \<longleftrightarrow> a mod half_range TYPE('l) = b mod half_range TYPE('l)"
  unfolding of_nat_word_eq by (simp add: mult_mod_right[symmetric])

lemma of_nat_Suc_twice_eq:
  "((of_nat (2 * a + 1) :: 'l::len word) = of_nat (2 * b + 1)) \<longleftrightarrow> a mod half_range TYPE('l) = b mod half_range TYPE('l)"
proof -
  have "((of_nat (2 * a + 1) :: 'l word) = of_nat (2 * b + 1)) \<longleftrightarrow> ((of_nat (2 * a) :: 'l word) = of_nat (2 * b))"
    by simp
  then show ?thesis by (simp only: of_nat_twice_eq)
qed

lemma of_nat_even_neq_odd: "(of_nat (2 * a) :: 'l::len word) \<noteq> of_nat (2 * b + 1)"
proof
  assume "(of_nat (2 * a) :: 'l word) = of_nat (2 * b + 1)"
  then have "even (of_nat (2 * a) :: 'l word) = even (of_nat (2 * b + 1) :: 'l word)"
    by (rule arg_cong)
  then show False by simp
qed

lemma shift_of_nat: "push_bit 1 (of_nat x :: 'l::len word) = of_nat (2 * x)"
  by (simp add: push_bit_eq_mult mult.commute)

lemma shift_of_nat_or_1: "push_bit 1 (of_nat x :: 'l::len word) OR 1 = of_nat (2 * x + 1)"
  by (simp add: shift_of_nat or_one_eq)

lemma odd_or_1: "(of_nat (2 * x + 1) :: 'l::len word) OR 1 = of_nat (2 * x + 1)"
  by (simp add: or_one_eq)

lemma even_or_1: "(of_nat (2 * x) :: 'l::len word) OR 1 = of_nat (2 * x + 1)"
  by (simp add: or_one_eq)

text \<open>Widening an index to \<open>size_t\<close> and casting back, as the integer conversions of the code do.\<close>

lemma narrow_of_nat: "LENGTH('l::len) \<le> 64 \<Longrightarrow> (ucast (of_nat m :: size_t) :: 'l word) = of_nat m"
  by (simp add: unsigned_of_nat) (simp add: word_of_nat_eq_iff)

lemma widen_of_nat: "(ucast (of_nat m :: 'l::len word) :: size_t) = of_nat (m mod 2 ^ LENGTH('l))"
  by (simp add: unsigned_of_nat take_bit_eq_mod)

lemma word_of_nat_mod: "(of_nat (m mod 2 ^ LENGTH('l::len)) :: 'l word) = of_nat m"
  by (simp add: word_of_nat_eq_iff take_bit_eq_mod)

lemma narrow_widen_add:
  assumes "LENGTH('l::len) \<le> 64"
  shows "(ucast (ucast (of_nat x :: 'l word) + (of_nat n :: size_t)) :: 'l word) = of_nat (x + n)"
proof -
  have "(ucast (of_nat x :: 'l word) + (of_nat n :: size_t)) = of_nat (x mod 2 ^ LENGTH('l) + n)"
    by (simp add: widen_of_nat)
  then have "(ucast (ucast (of_nat x :: 'l word) + (of_nat n :: size_t)) :: 'l word) = of_nat (x mod 2 ^ LENGTH('l) + n)"
    using assms by (simp only: narrow_of_nat)
  then show ?thesis by (simp add: word_of_nat_mod)
qed

lemma narrow_shift_widen_add:
  assumes "LENGTH('l::len) \<le> 64"
  shows "(ucast (push_bit 1 (ucast (of_nat x :: 'l word) + (of_nat n :: size_t))) :: 'l word) = of_nat (2 * (x + n))"
proof -
  have "push_bit 1 (ucast (of_nat x :: 'l word) + (of_nat n :: size_t)) = of_nat (2 * (x mod 2 ^ LENGTH('l) + n))"
    by (simp add: widen_of_nat push_bit_eq_mult distrib_right mult.commute)
  then have "(ucast (push_bit 1 (ucast (of_nat x :: 'l word) + (of_nat n :: size_t))) :: 'l word)
      = of_nat (2 * (x mod 2 ^ LENGTH('l) + n))"
    using assms by (simp only: narrow_of_nat)
  then show ?thesis by (simp add: word_of_nat_mod)
qed

lemma narrow_add_shift_widen:
  assumes "LENGTH('l::len) \<le> 64"
  shows "(ucast (ucast (of_nat s :: 'l word) + push_bit 1 (of_nat n :: size_t)) :: 'l word) = of_nat (s + 2 * n)"
proof -
  have "push_bit 1 (of_nat n :: size_t) = of_nat (2 * n)"
    by (rule shift_of_nat)
  then show ?thesis by (simp only: narrow_widen_add [OF assms])
qed

section \<open>The power-of-two test\<close>

lemma nat_pow2_and:
  fixes n :: nat
  assumes "0 < n" and "n AND (n - 1) = 0"
  shows "\<exists>k. n = 2 ^ k"
  using assms
proof (induction n rule: less_induct)
  case (less n)
  show ?case
  proof (cases "even n")
    case True
    then obtain a where n: "n = 2 * a" by blast
    with less.prems have a: "0 < a" by simp
    then have "n - 1 = 2 * (a - 1) + 1" using n by simp
    with n have "n AND (n - 1) = 2 * (a AND (a - 1))"
      by (simp add: and_rec [of n] and_rec [of "2 * a"])
    with less.prems have "a AND (a - 1) = 0" by simp
    then obtain k where "a = 2 ^ k" using less.IH [of a] a n by auto
    then have "n = 2 ^ Suc k" using n by simp
    then show ?thesis by blast
  next
    case False
    then obtain a where n: "n = 2 * a + 1" by (metis oddE)
    then have "n AND (n - 1) = 2 * a"
      by (simp add: and_rec [of "Suc (2 * a)"])
    with less.prems have "n = 2 ^ 0" using n by simp
    then show ?thesis by blast
  qed
qed

lemma word_pow2_and:
  fixes n :: "'w::len word"
  assumes "n \<noteq> 0" and "n AND (n - 1) = 0"
  shows "\<exists>k < LENGTH('w). unat n = 2 ^ k"
proof -
  have pos: "0 < unat n" using assms(1) by (simp add: unat_gt_0)
  have "unat (n AND (n - 1)) = unat n AND (unat n - 1)"
    using assms(1) by (simp add: unsigned_and_eq unat_minus_one)
  with assms(2) have "unat n AND (unat n - 1) = 0" by simp
  with nat_pow2_and [OF pos] obtain k where k: "unat n = 2 ^ k" by blast
  then have "(2::nat) ^ k < 2 ^ LENGTH('w)" by (metis unsigned_less)
  then have "k < LENGTH('w)" by simp
  with k show ?thesis by blast
qed

lemma and_pred_pow2:
  assumes "k < LENGTH('w::len)" and "unat (n :: 'w word) = 2 ^ k"
  shows "unat (i AND (n - 1)) = unat i mod unat n" and "n AND (n - 1) = 0"
proof -
  have "n = of_nat (unat n)" by simp
  then have n: "n = 2 ^ k" by (simp add: assms(2))
  then have "i AND (n - 1) = take_bit k i"
    by (simp add: take_bit_eq_mask mask_eq_decr_exp)
  then have "unat (i AND (n - 1)) = take_bit k (unat i)"
    by (simp only: unsigned_take_bit_eq)
  then show "unat (i AND (n - 1)) = unat i mod unat n"
    by (simp add: assms(2) take_bit_eq_mod)
  have "n AND (n - 1) = take_bit k n"
    by (simp add: n take_bit_eq_mask mask_eq_decr_exp)
  also have "take_bit k n = 0"
    unfolding n by (simp add: take_bit_eq_mod)
  finally show "n AND (n - 1) = 0" .
qed

section \<open>Windows of indexes modulo a capacity\<close>

text \<open>
  In a window of \<open>n\<close> consecutive indexes every residue modulo \<open>n\<close> occurs exactly once.
\<close>

lemma window_inj:
  fixes a b h n :: nat
  assumes "a mod n = b mod n" and "h \<le> a" and "a < h + n" and "h \<le> b" and "b < h + n"
  shows "a = b"
proof (rule ccontr)
  assume "a \<noteq> b"
  then consider "a < b" | "b < a" by linarith
  then show False
  proof cases
    case 1
    with assms have "n dvd b - a" by (metis less_imp_le mod_eq_dvd_iff_nat)
    with 1 assms show False by (auto dest: dvd_imp_le)
  next
    case 2
    with assms have "n dvd a - b" by (metis less_imp_le mod_eq_dvd_iff_nat)
    with 2 assms show False by (auto dest: dvd_imp_le)
  qed
qed

lemma window_ex:
  fixes x h n :: nat
  assumes "0 < n"
  obtains i where "h \<le> i" and "i < h + n" and "i mod n = x mod n"
proof -
  let ?i = "h + (x + n * h - h) mod n"
  have le: "h \<le> x + n * h" using assms by (cases n) auto
  have "?i mod n = (h + (x + n * h - h)) mod n"
    by (simp add: mod_add_right_eq)
  also have "h + (x + n * h - h) = x + n * h" using le by simp
  finally have "?i mod n = x mod n" by simp
  moreover have "?i < h + n" using assms by simp
  ultimately show ?thesis using that [of ?i] by simp
qed

lemma mod_eq_close:
  fixes a b m :: nat
  assumes "a mod m = b mod m" and "b \<le> a" and "a < b + m"
  shows "a = b"
  using window_inj [of a m b b] assms by auto

lemma pow2_dvd: "j \<le> k \<Longrightarrow> (2::nat) ^ j dvd 2 ^ k"
  by (simp add: le_imp_power_dvd)

lemma unat_of_nat_mod_pow2:
  assumes "k \<le> LENGTH('l::len)"
  shows "unat (of_nat x :: 'l word) mod 2 ^ k = x mod 2 ^ k"
  using assms by (simp add: unsigned_of_nat take_bit_eq_mod mod_mod_cancel pow2_dvd)

lemma unat_widen_mod_pow2:
  assumes "LENGTH('l::len) \<le> 64" and "k \<le> LENGTH('l)"
  shows "unat (ucast (of_nat x :: 'l word) :: size_t) mod 2 ^ k = x mod 2 ^ k"
proof -
  have "unat (ucast (of_nat x :: 'l word) :: size_t) mod 2 ^ k = (x mod 2 ^ LENGTH('l)) mod 2 ^ k"
    using assms by (simp only: widen_of_nat) (rule unat_of_nat_mod_pow2, simp)
  with assms show ?thesis by (simp add: mod_mod_cancel pow2_dvd)
qed

lemma unat_bound: "unat (x :: 'a::len word) < 2 ^ LENGTH('a)"
  by simp

lemma word_increment:
  assumes "Suc (unat i) \<le> m" and "m < 2 ^ LENGTH('l)"
  shows "unat (i + 1 :: 'l::len word) = Suc (unat i)"
  using assms unat_add_lem [of i 1] by simp

section \<open>Lists of threads\<close>

text \<open>Counting and summing over a list of threads of which one is replaced.\<close>

lemma count_update:
  "i < length xs \<Longrightarrow>
   length (filter f (xs[i := x])) + (if f (xs ! i) then 1 else 0) = length (filter f xs) + (if f x then 1 else 0)"
proof (induction xs arbitrary: i)
  case (Cons y ys)
  then show ?case by (cases i) (auto split: if_splits)
qed simp

lemma count_word_update:
  assumes "i < length xs"
  shows "(of_nat (length (filter f (xs[i := x]))) :: 'l::len word) =
    of_nat (length (filter f xs)) + (if f x then 1 else 0) - (if f (xs ! i) then 1 else 0)"
proof -
  have "(of_nat (length (filter f (xs[i := x])) + (if f (xs ! i) then 1 else 0)) :: 'l word) =
    of_nat (length (filter f xs) + (if f x then 1 else 0))"
    by (simp only: count_update [OF assms])
  then show ?thesis by (auto simp: algebra_simps split: if_splits)
qed

lemma sum_update:
  fixes g :: "'a \<Rightarrow> 'b::ab_group_add"
  shows "i < length xs \<Longrightarrow> sum_list (map g (xs[i := x])) = sum_list (map g xs) + g x - g (xs ! i)"
proof (induction xs arbitrary: i)
  case (Cons y ys)
  then show ?case by (cases i) (auto simp: algebra_simps)
qed simp

lemma ball_update: "i < length xs \<Longrightarrow> (\<forall>x \<in> set xs. f x) \<Longrightarrow> f y \<Longrightarrow> \<forall>x \<in> set (xs[i := y]). f x"
  by (auto dest: subsetD [OF set_update_subset_insert])

lemma sum_update_add:
  fixes g :: "'a \<Rightarrow> 'b::comm_monoid_add"
  shows "i < length xs \<Longrightarrow> sum_list (map g (xs[i := x])) + g (xs ! i) = sum_list (map g xs) + g x"
proof (induction xs arbitrary: i)
  case (Cons y ys)
  then show ?case by (cases i) (auto simp: ac_simps)
qed simp

end
