(* ===== verification/Arrays.thy ===== *)
theory Arrays
  imports Prelude
begin

text \<open>
  The two element containers of \<^verbatim>\<open>mpmc_queue.h\<close>: \<^verbatim>\<open>array_inplace<T, N>\<close> (a compile time
  size, the elements inside the object) and \<^verbatim>\<open>array_runtime<T, 0>\<close> (elements allocated by the
  constructor), and \<^verbatim>\<open>array_t\<close>, the \<^verbatim>\<open>std::conditional\<close> that picks one of them. Every access masks
  the index. The locale \<open>ring_array\<close> is the contract the queue relies on; all three satisfy it.
  An access that would dereference the null pointer of an empty run time array is \<open>None\<close>.
\<close>

section \<open>The contract\<close>

locale ring_array =
  fixes size_of :: "'arr \<Rightarrow> size_t"
    and at :: "'arr \<Rightarrow> size_t \<Rightarrow> 'a option"
    and put :: "'arr \<Rightarrow> size_t \<Rightarrow> 'a \<Rightarrow> 'arr"
    and cells :: "'arr \<Rightarrow> 'a list"
    and ok :: "'arr \<Rightarrow> bool"
  assumes size_pow2: "ok a \<Longrightarrow> \<exists>k < 64. unat (size_of a) = 2 ^ k"
    and length_cells: "ok a \<Longrightarrow> length (cells a) = unat (size_of a)"
    and at_cells: "ok a \<Longrightarrow> at a i = Some (cells a ! (unat i mod unat (size_of a)))"
    and cells_put: "ok a \<Longrightarrow> cells (put a i x) = (cells a)[unat i mod unat (size_of a) := x]"
    and ok_put: "ok a \<Longrightarrow> ok (put a i x)"
    and size_put: "ok a \<Longrightarrow> size_of (put a i x) = size_of a"
begin

lemma size_pos: "ok a \<Longrightarrow> 0 < unat (size_of a)"
  using size_pow2 by fastforce

lemma slot_less: "ok a \<Longrightarrow> unat i mod unat (size_of a) < length (cells a)"
  by (simp add: length_cells size_pos)

lemma at_total: "ok a \<Longrightarrow> \<exists>x. at a i = Some x"
  by (simp add: at_cells)

lemma at_put_same: "ok a \<Longrightarrow> at (put a i x) i = Some x"
  by (simp add: at_cells ok_put size_put cells_put slot_less)

lemma at_put_alias:
  assumes "ok a" and "unat i mod unat (size_of a) = unat j mod unat (size_of a)"
  shows "at (put a i x) j = Some x"
  using assms by (simp add: at_cells ok_put size_put cells_put slot_less)

lemma at_put_other:
  assumes "ok a" and "unat i mod unat (size_of a) \<noteq> unat j mod unat (size_of a)"
  shows "at (put a i x) j = at a j"
  using assms by (simp add: at_cells ok_put size_put cells_put)

lemma put_put_same: "ok a \<Longrightarrow> cells (put (put a i x) i y) = cells (put a i y)"
  by (simp add: cells_put ok_put size_put)

end

section \<open>The compile time array\<close>

record 'a array_inplace =
  inplace_data :: "'a list"

text \<open>The class' static assertion on its template parameter \<open>N\<close>.\<close>

definition inplace_static_assert :: "size_t \<Rightarrow> bool" where
  "inplace_static_assert n \<longleftrightarrow> 0 < n \<and> n AND (n - 1) = 0"

text \<open>The constructor value-initialises \<open>N\<close> elements and ignores its argument.\<close>

definition inplace_new :: "size_t \<Rightarrow> 'a \<Rightarrow> 'a array_inplace" where
  "inplace_new n dflt = \<lparr>inplace_data = replicate (unat n) dflt\<rparr>"

definition inplace_size :: "'a array_inplace \<Rightarrow> size_t" where
  "inplace_size a = of_nat (length (inplace_data a))"

definition inplace_index_mask :: "'a array_inplace \<Rightarrow> size_t" where
  "inplace_index_mask a = inplace_size a - 1"

definition inplace_at :: "'a array_inplace \<Rightarrow> size_t \<Rightarrow> 'a option" where
  "inplace_at a index =
     (let j = unat (index AND (inplace_size a - 1))
      in if j < length (inplace_data a) then Some (inplace_data a ! j) else None)"

definition inplace_put :: "'a array_inplace \<Rightarrow> size_t \<Rightarrow> 'a \<Rightarrow> 'a array_inplace" where
  "inplace_put a index x =
     a\<lparr>inplace_data := (inplace_data a)[unat (index AND (inplace_size a - 1)) := x]\<rparr>"

definition inplace_ok :: "'a array_inplace \<Rightarrow> bool" where
  "inplace_ok a \<longleftrightarrow> length (inplace_data a) < 2 ^ 64 \<and> inplace_static_assert (inplace_size a)"

lemma inplace_length: "inplace_ok a \<Longrightarrow> unat (inplace_size a) = length (inplace_data a)"
  by (simp add: inplace_ok_def inplace_size_def unsigned_of_nat take_bit_eq_mod)

lemma inplace_pow2: "inplace_ok a \<Longrightarrow> \<exists>k < 64. unat (inplace_size a) = 2 ^ k"
  using word_pow2_and [of "inplace_size a"]
  by (auto simp: inplace_ok_def inplace_static_assert_def)

lemma inplace_slot:
  assumes "inplace_ok a"
  shows "unat (i AND (inplace_size a - 1)) = unat i mod length (inplace_data a)"
    and "unat i mod length (inplace_data a) < length (inplace_data a)"
proof -
  from inplace_pow2 [OF assms] obtain k where k: "k < 64" "unat (inplace_size a) = 2 ^ k" by blast
  then show "unat (i AND (inplace_size a - 1)) = unat i mod length (inplace_data a)"
    using and_pred_pow2 (1) [of k "inplace_size a" i] inplace_length [OF assms] by simp
  have "0 < length (inplace_data a)" using k inplace_length [OF assms] by simp
  then show "unat i mod length (inplace_data a) < length (inplace_data a)" by simp
qed

lemma inplace_size_put: "inplace_size (inplace_put a i x) = inplace_size a"
  by (simp add: inplace_size_def inplace_put_def)

interpretation inplace: ring_array inplace_size inplace_at inplace_put inplace_data inplace_ok
proof
  fix a :: "'a array_inplace" and i :: size_t and x :: 'a
  assume ok: "inplace_ok a"
  show "\<exists>k < 64. unat (inplace_size a) = 2 ^ k" using ok by (rule inplace_pow2)
  show "length (inplace_data a) = unat (inplace_size a)" using ok by (simp add: inplace_length)
  show "inplace_at a i = Some (inplace_data a ! (unat i mod unat (inplace_size a)))"
    using ok by (simp add: inplace_at_def inplace_slot inplace_length)
  show "inplace_data (inplace_put a i x) = (inplace_data a)[unat i mod unat (inplace_size a) := x]"
    using ok by (simp add: inplace_put_def inplace_slot inplace_length)
  show "inplace_ok (inplace_put a i x)"
    using ok unfolding inplace_ok_def inplace_size_put by (simp add: inplace_put_def)
  show "inplace_size (inplace_put a i x) = inplace_size a" by (rule inplace_size_put)
qed

section \<open>The run time array\<close>

record 'a array_runtime =
  rt_p :: "'a list option"
  rt_n :: size_t
  rt_index_mask :: size_t

definition runtime_new :: "size_t \<Rightarrow> 'a \<Rightarrow> 'a array_runtime" where
  "runtime_new n dflt =
     \<lparr>rt_p = (if 0 < n then Some (replicate (unat n) dflt) else None), rt_n = n, rt_index_mask = n - 1\<rparr>"

definition runtime_size :: "'a array_runtime \<Rightarrow> size_t" where
  "runtime_size a = rt_n a"

definition runtime_index_mask :: "'a array_runtime \<Rightarrow> size_t" where
  "runtime_index_mask a = rt_index_mask a"

definition runtime_at :: "'a array_runtime \<Rightarrow> size_t \<Rightarrow> 'a option" where
  "runtime_at a index =
     (case rt_p a of
        None \<Rightarrow> None
      | Some xs \<Rightarrow> (let j = unat (index AND rt_index_mask a) in if j < length xs then Some (xs ! j) else None))"

definition runtime_put :: "'a array_runtime \<Rightarrow> size_t \<Rightarrow> 'a \<Rightarrow> 'a array_runtime" where
  "runtime_put a index x =
     (case rt_p a of
        None \<Rightarrow> a
      | Some xs \<Rightarrow> a\<lparr>rt_p := Some (xs[unat (index AND rt_index_mask a) := x])\<rparr>)"

definition runtime_data :: "'a array_runtime \<Rightarrow> 'a list" where
  "runtime_data a = (case rt_p a of None \<Rightarrow> [] | Some xs \<Rightarrow> xs)"

definition runtime_ok :: "'a array_runtime \<Rightarrow> bool" where
  "runtime_ok a \<longleftrightarrow>
     rt_p a \<noteq> None \<and> length (runtime_data a) = unat (rt_n a) \<and>
     0 < rt_n a \<and> rt_n a AND (rt_n a - 1) = 0 \<and> rt_index_mask a = rt_n a - 1"

lemma runtime_ok_Some:
  assumes "runtime_ok a"
  obtains xs k where "rt_p a = Some xs" and "length xs = unat (rt_n a)" and "rt_index_mask a = rt_n a - 1"
    and "k < 64" and "unat (rt_n a) = 2 ^ k"
proof -
  from assms obtain xs where xs: "rt_p a = Some xs" "length xs = unat (rt_n a)" "rt_index_mask a = rt_n a - 1"
    by (auto simp: runtime_ok_def runtime_data_def)
  from assms have "\<exists>k < LENGTH(64). unat (rt_n a) = 2 ^ k"
    by (intro word_pow2_and) (auto simp: runtime_ok_def)
  then obtain k where "k < 64" "unat (rt_n a) = 2 ^ k" by auto
  with xs show ?thesis by (rule that)
qed

lemma runtime_slot: "runtime_ok a \<Longrightarrow> unat (i AND rt_index_mask a) = unat i mod unat (rt_n a)"
  by (erule runtime_ok_Some) (simp add: and_pred_pow2)

lemma runtime_slot_less: "runtime_ok a \<Longrightarrow> unat i mod unat (rt_n a) < unat (rt_n a)"
  by (erule runtime_ok_Some) simp

interpretation runtime: ring_array runtime_size runtime_at runtime_put runtime_data runtime_ok
proof
  fix a :: "'a array_runtime" and i :: size_t and x :: 'a
  assume ok: "runtime_ok a"
  then obtain xs k where a: "rt_p a = Some xs" "length xs = unat (rt_n a)" "rt_index_mask a = rt_n a - 1"
    and k: "k < 64" "unat (rt_n a) = 2 ^ k"
    by (rule runtime_ok_Some)
  show "\<exists>k < 64. unat (runtime_size a) = 2 ^ k" using k by (auto simp: runtime_size_def)
  show "length (runtime_data a) = unat (runtime_size a)"
    using a by (simp add: runtime_data_def runtime_size_def)
  show "runtime_at a i = Some (runtime_data a ! (unat i mod unat (runtime_size a)))"
    using a runtime_slot [OF ok] runtime_slot_less [OF ok]
    by (simp add: runtime_at_def runtime_data_def runtime_size_def Let_def)
  show "runtime_data (runtime_put a i x) = (runtime_data a)[unat i mod unat (runtime_size a) := x]"
    using a runtime_slot [OF ok] by (simp add: runtime_put_def runtime_data_def runtime_size_def)
  show "runtime_ok (runtime_put a i x)"
    using ok a by (simp add: runtime_put_def runtime_ok_def runtime_data_def)
  show "runtime_size (runtime_put a i x) = runtime_size a"
    using a by (simp add: runtime_put_def runtime_size_def)
qed

lemma runtime_new_ok:
  assumes "0 < n" and "n AND (n - 1) = 0"
  shows "runtime_ok (runtime_new n d)"
  using assms by (simp add: runtime_ok_def runtime_new_def runtime_data_def)

lemma inplace_new_ok:
  assumes "inplace_static_assert n"
  shows "inplace_ok (inplace_new n d)"
proof -
  have "unat n < 2 ^ LENGTH(64)" by (rule unsigned_less)
  with assms show ?thesis by (simp add: inplace_ok_def inplace_new_def inplace_size_def)
qed

text \<open>The null pointer of an empty run time array: every access is undefined.\<close>

lemma runtime_new_0: "runtime_at (runtime_new 0 d) i = None"
  by (simp add: runtime_at_def runtime_new_def)

section \<open>The queue's array type\<close>

datatype 'a array_t = Inplace "'a array_inplace" | Runtime "'a array_runtime"

text \<open>\<open>N == 0\<close> selects the run time array; the argument is the constructor's \<open>n\<close>.\<close>

definition arr_new :: "size_t \<Rightarrow> size_t \<Rightarrow> 'a \<Rightarrow> 'a array_t" where
  "arr_new N n dflt = (if N = 0 then Runtime (runtime_new n dflt) else Inplace (inplace_new N dflt))"

primrec arr_size :: "'a array_t \<Rightarrow> size_t" where
  "arr_size (Inplace a) = inplace_size a"
| "arr_size (Runtime a) = runtime_size a"

primrec arr_index_mask :: "'a array_t \<Rightarrow> size_t" where
  "arr_index_mask (Inplace a) = inplace_index_mask a"
| "arr_index_mask (Runtime a) = runtime_index_mask a"

primrec arr_at :: "'a array_t \<Rightarrow> size_t \<Rightarrow> 'a option" where
  "arr_at (Inplace a) i = inplace_at a i"
| "arr_at (Runtime a) i = runtime_at a i"

primrec arr_put :: "'a array_t \<Rightarrow> size_t \<Rightarrow> 'a \<Rightarrow> 'a array_t" where
  "arr_put (Inplace a) i x = Inplace (inplace_put a i x)"
| "arr_put (Runtime a) i x = Runtime (runtime_put a i x)"

primrec arr_cells :: "'a array_t \<Rightarrow> 'a list" where
  "arr_cells (Inplace a) = inplace_data a"
| "arr_cells (Runtime a) = runtime_data a"

primrec arr_ok :: "'a array_t \<Rightarrow> bool" where
  "arr_ok (Inplace a) = inplace_ok a"
| "arr_ok (Runtime a) = runtime_ok a"

interpretation arr: ring_array arr_size arr_at arr_put arr_cells arr_ok
proof
  fix a :: "'a array_t" and i :: size_t and x :: 'a
  assume "arr_ok a"
  then show "\<exists>k < 64. unat (arr_size a) = 2 ^ k"
    by (cases a) (auto intro: inplace.size_pow2 runtime.size_pow2)
  show "length (arr_cells a) = unat (arr_size a)"
    using \<open>arr_ok a\<close> by (cases a) (auto simp: inplace.length_cells runtime.length_cells)
  show "arr_at a i = Some (arr_cells a ! (unat i mod unat (arr_size a)))"
    using \<open>arr_ok a\<close> by (cases a) (auto simp: inplace.at_cells runtime.at_cells)
  show "arr_cells (arr_put a i x) = (arr_cells a)[unat i mod unat (arr_size a) := x]"
    using \<open>arr_ok a\<close> by (cases a) (auto simp: inplace.cells_put runtime.cells_put)
  show "arr_ok (arr_put a i x)"
    using \<open>arr_ok a\<close> by (cases a) (auto intro: inplace.ok_put runtime.ok_put)
  show "arr_size (arr_put a i x) = arr_size a"
    using \<open>arr_ok a\<close> by (cases a) (auto simp: inplace.size_put runtime.size_put)
qed

lemma arr_put_total: "arr_size (arr_put a i x) = arr_size a"
  by (cases a) (auto simp: inplace_size_put runtime_size_def runtime_put_def split: option.split)

text \<open>An index below the size addresses its own cell, as the constructor's loop relies on.\<close>

lemma arr_new_ok:
  assumes "N = 0 \<Longrightarrow> 0 < n \<and> n AND (n - 1) = 0" and "N \<noteq> 0 \<Longrightarrow> inplace_static_assert N"
  shows "arr_ok (arr_new N n d)"
  using assms by (simp add: arr_new_def runtime_new_ok inplace_new_ok)

lemma arr_new_size: "arr_size (arr_new N n d) = (if N = 0 then n else N)"
  by (simp add: arr_new_def runtime_size_def runtime_new_def inplace_size_def inplace_new_def)

end
