(* ===== verification/Entries.thy ===== *)
theory Entries
  imports Arrays
begin

text \<open>
  The ring entry of \<^verbatim>\<open>mpmc_queue.h\<close> (class \<^verbatim>\<open>entry\<close>): user data and sequence word, read and
  swapped as one atomic value; the comparisons of a sequence word with an index that \<^verbatim>\<open>push\<close>,
  \<^verbatim>\<open>pop\<close>, \<^verbatim>\<open>peek\<close> and \<^verbatim>\<open>pop_if\<close> branch on; and the loop combinator for their \<^verbatim>\<open>while (true)\<close>.
  An \<open>entry\<close> value stands for the whole \<^verbatim>\<open>entry_as_value\<close>: two entries are equal exactly when
  their bits are, because every constructor clears the value first.
\<close>

section \<open>The entry\<close>

record ('v, 'w) entry_data =
  e_data :: 'v
  e_seq :: 'w

type_synonym ('v, 'l) entry = "('v, 'l word) entry_data"

type_synonym ('v, 'l) entries = "('v, 'l) entry array_t"

definition entry_clear :: "('v::zero, 'l::len) entry" where
  "entry_clear = \<lparr>e_data = 0, e_seq = 0\<rparr>"

definition entry_of_seq :: "'l word \<Rightarrow> ('v::zero, 'l::len) entry" where
  "entry_of_seq s = entry_clear\<lparr>e_seq := s\<rparr>"

definition entry_of :: "'l word \<Rightarrow> 'v \<Rightarrow> ('v::zero, 'l::len) entry" where
  "entry_of s d = (entry_clear\<lparr>e_data := d\<rparr>)\<lparr>e_seq := s\<rparr>"

definition set_seq :: "'l word \<Rightarrow> ('v, 'l) entry \<Rightarrow> ('v::zero, 'l::len) entry" where
  "set_seq s e = entry_clear\<lparr>e_seq := s\<rparr>"

definition set_entry :: "'l word \<Rightarrow> 'v \<Rightarrow> ('v, 'l) entry \<Rightarrow> ('v::zero, 'l::len) entry" where
  "set_entry s d e = (entry_clear\<lparr>e_seq := s\<rparr>)\<lparr>e_data := d\<rparr>"

definition get_seq :: "('v, 'l::len) entry \<Rightarrow> 'l word" where
  "get_seq e = e_seq e"

definition get_data :: "('v, 'l::len) entry \<Rightarrow> 'v" where
  "get_data e = e_data e"

definition is_empty :: "('v, 'l::len) entry \<Rightarrow> bool" where
  "is_empty e \<longleftrightarrow> e_seq e AND 1 = 0"

definition is_full :: "('v, 'l::len) entry \<Rightarrow> bool" where
  "is_full e \<longleftrightarrow> \<not> is_empty e"

text \<open>Strong compare and exchange: whether it swapped, and the value left in memory.\<close>

definition compare_exchange :: "'a \<Rightarrow> 'a \<Rightarrow> 'a \<Rightarrow> bool \<times> 'a" where
  "compare_exchange cur expected new_value = (if cur = expected then (True, new_value) else (False, cur))"

section \<open>Sequence words of an index\<close>

definition seq_empty :: "'l word \<Rightarrow> 'l::len word" where
  "seq_empty index = push_bit 1 index"

definition seq_full :: "'l word \<Rightarrow> 'l::len word" where
  "seq_full index = push_bit 1 index OR 1"

text \<open>
  \<^verbatim>\<open>static_cast<index_type>((index + _array.size()) << 1)\<close>: the sum and the shift are done in
  \<^verbatim>\<open>size_t\<close>, then truncated.
\<close>

definition seq_next_empty :: "size_t \<Rightarrow> 'l word \<Rightarrow> 'l::len word" where
  "seq_next_empty sz index = ucast (push_bit 1 ((ucast index :: size_t) + sz))"

definition seq_next_full :: "size_t \<Rightarrow> 'l word \<Rightarrow> 'l::len word" where
  "seq_next_full sz index = ucast (push_bit 1 ((ucast index :: size_t) + sz) OR 1)"

definition seq_plus_size :: "size_t \<Rightarrow> 'l word \<Rightarrow> 'l::len word" where
  "seq_plus_size sz s = ucast ((ucast s :: size_t) + push_bit 1 sz)"

definition index_plus_size :: "size_t \<Rightarrow> 'l word \<Rightarrow> 'l::len word" where
  "index_plus_size sz index = ucast ((ucast index :: size_t) + sz)"

section \<open>What an operation does with the entry it sees\<close>

text \<open>
  The branches of the operations' loops: act on the entry, move the index on behalf of another
  thread, report failure (queue full or empty), or look again.
\<close>

datatype verdict = Take | Help | Refuse | Again

definition push_verdict :: "size_t \<Rightarrow> 'l word \<Rightarrow> 'l::len word \<Rightarrow> verdict" where
  "push_verdict sz wr_index sq =
     (if sq = seq_empty wr_index then Take
      else if sq = seq_full wr_index \<or> sq = seq_next_empty sz wr_index then Help
      else if seq_plus_size sz sq = seq_full wr_index then Refuse
      else Again)"

definition pop_verdict :: "size_t \<Rightarrow> 'l word \<Rightarrow> 'l::len word \<Rightarrow> verdict" where
  "pop_verdict sz rd_index sq =
     (if sq = seq_full rd_index then Take
      else if sq OR 1 = seq_next_full sz rd_index then Help
      else if sq = seq_empty rd_index then Refuse
      else Again)"

text \<open>\<^verbatim>\<open>peek\<close> and \<^verbatim>\<open>pop_if\<close> test in another order and compare indexes instead of sequence words.\<close>

definition peek_verdict :: "size_t \<Rightarrow> 'l word \<Rightarrow> 'l::len word \<Rightarrow> verdict" where
  "peek_verdict sz rd_index sq =
     (if sq = seq_empty rd_index then Refuse
      else if sq = seq_full rd_index then Take
      else if drop_bit 1 sq = index_plus_size sz rd_index then Help
      else Again)"

section \<open>Entries of a position\<close>

text \<open>The two states of the entry that serves position \<open>x\<close> of the endless sequence of pushes.\<close>

definition empty_at :: "nat \<Rightarrow> ('v::zero, 'l::len) entry" where
  "empty_at x = entry_of_seq (of_nat (2 * x))"

definition full_at :: "nat \<Rightarrow> 'v \<Rightarrow> ('v::zero, 'l::len) entry" where
  "full_at x d = entry_of (of_nat (2 * x + 1)) d"

lemma get_seq_at:
  "get_seq (empty_at x :: ('v::zero, 'l::len) entry) = of_nat (2 * x)"
  "get_seq (full_at x d :: ('v::zero, 'l::len) entry) = of_nat (2 * x + 1)"
  by (simp_all add: get_seq_def empty_at_def full_at_def entry_of_seq_def entry_of_def)

lemma get_data_at [simp]:
  "get_data (full_at x d :: ('v::zero, 'l::len) entry) = d"
  by (simp add: get_data_def full_at_def entry_of_def)

lemma entry_of_seq_at: "entry_of_seq (seq_empty (of_nat x)) = empty_at x"
  by (simp only: empty_at_def seq_empty_def shift_of_nat)

lemma entry_of_at: "entry_of (seq_full (of_nat x)) d = full_at x d"
  by (simp only: full_at_def seq_full_def shift_of_nat_or_1)

lemma set_seq_at: "set_seq (seq_empty (of_nat x)) e = empty_at x"
  by (simp only: set_seq_def empty_at_def entry_of_seq_def seq_empty_def shift_of_nat)

lemma entry_of_seq_next_at:
  assumes "LENGTH('l::len) \<le> 64"
  shows "entry_of_seq (seq_next_empty (of_nat n) (of_nat x :: 'l word)) = empty_at (x + n)"
  by (simp only: seq_next_empty_def narrow_shift_widen_add [OF assms] empty_at_def)

lemma full_at_eq:
  "(full_at x d = (full_at y c :: ('v::zero, 'l::len) entry)) \<longleftrightarrow>
     x mod half_range TYPE('l) = y mod half_range TYPE('l) \<and> d = c"
proof -
  have "(full_at x d = (full_at y c :: ('v, 'l) entry)) \<longleftrightarrow>
      (of_nat (2 * x + 1) :: 'l word) = of_nat (2 * y + 1) \<and> d = c"
    by (auto simp: full_at_def entry_of_def entry_clear_def)
  then show ?thesis by (simp only: of_nat_Suc_twice_eq)
qed

lemma empty_at_eq:
  "(empty_at x = (empty_at y :: ('v::zero, 'l::len) entry)) \<longleftrightarrow>
     x mod half_range TYPE('l) = y mod half_range TYPE('l)"
proof -
  have "(empty_at x = (empty_at y :: ('v, 'l) entry)) \<longleftrightarrow> (of_nat (2 * x) :: 'l word) = of_nat (2 * y)"
    by (auto simp: empty_at_def entry_of_seq_def entry_clear_def)
  then show ?thesis by (simp only: of_nat_twice_eq)
qed

lemma full_neq_empty: "full_at x d \<noteq> (empty_at y :: ('v::zero, 'l::len) entry)"
  by (metis get_seq_at of_nat_even_neq_odd)

lemma is_full_at: "is_full (full_at x d)" and is_empty_at: "is_empty (empty_at x)"
  by (simp_all add: is_full_def is_empty_def full_at_def empty_at_def entry_of_def entry_of_seq_def
      and_one_eq mod_2_eq_odd)

section \<open>The verdicts on the entry of a position\<close>

text \<open>
  The sequence words of the verdicts, for an index word of position \<open>x\<close>. Everything below is
  stated for index types of at most 64 bits, as the class' static assertions require.
\<close>

lemma seq_words:
  assumes "LENGTH('l::len) \<le> 64"
  shows "seq_empty (of_nat x :: 'l word) = of_nat (2 * x)"
    and "seq_full (of_nat x :: 'l word) = of_nat (2 * x + 1)"
    and "seq_next_empty (of_nat n) (of_nat x :: 'l word) = of_nat (2 * (x + n))"
    and "seq_plus_size (of_nat n) (of_nat s :: 'l word) = of_nat (s + 2 * n)"
    and "index_plus_size (of_nat n) (of_nat x :: 'l word) = of_nat (x + n)"
  using assms
  by (simp_all only: seq_empty_def seq_full_def seq_next_empty_def seq_plus_size_def index_plus_size_def
      shift_of_nat even_or_1 narrow_shift_widen_add narrow_add_shift_widen narrow_widen_add)

lemma seq_next_full_at:
  assumes "LENGTH('l::len) \<le> 64"
  shows "seq_next_full (of_nat n) (of_nat x :: 'l word) = of_nat (2 * (x + n) + 1)"
proof -
  have "push_bit 1 (ucast (of_nat x :: 'l word) + (of_nat n :: size_t)) OR 1 = of_nat (2 * (x mod 2 ^ LENGTH('l) + n) + 1)"
    unfolding widen_of_nat of_nat_add [symmetric] by (rule shift_of_nat_or_1)
  then have "seq_next_full (of_nat n) (of_nat x :: 'l word) = of_nat (2 * (x mod 2 ^ LENGTH('l) + n) + 1)"
    unfolding seq_next_full_def using assms by (simp only: narrow_of_nat)
  then show ?thesis by (simp add: word_of_nat_mod)
qed

lemma push_verdict_at:
  fixes x y n :: nat
  assumes "LENGTH('l::len) \<le> 64"
  defines "m \<equiv> half_range TYPE('l)"
  shows "push_verdict (of_nat n) (of_nat x :: 'l word) (of_nat (2 * y)) =
      (if y mod m = x mod m then Take else if y mod m = (x + n) mod m then Help else Again)" (is ?E)
    and "push_verdict (of_nat n) (of_nat x :: 'l word) (of_nat (2 * y + 1)) =
      (if y mod m = x mod m then Help else if (y + n) mod m = x mod m then Refuse else Again)" (is ?F)
proof -
  have odd_n: "seq_plus_size (of_nat n) (of_nat (2 * y + 1) :: 'l word) = of_nat (2 * (y + n) + 1)"
    unfolding seq_words(4) [OF assms(1)] by (simp add: algebra_simps)
  have even_n: "seq_plus_size (of_nat n) (of_nat (2 * y) :: 'l word) = of_nat (2 * (y + n))"
    unfolding seq_words(4) [OF assms(1)] by (simp add: algebra_simps)
  show ?E unfolding push_verdict_def even_n seq_words(1,2,3) [OF assms(1)] of_nat_twice_eq m_def
    by (simp only: of_nat_even_neq_odd of_nat_twice_eq simp_thms if_False)
  show ?F unfolding push_verdict_def odd_n seq_words(1,2,3) [OF assms(1)] of_nat_Suc_twice_eq m_def
    by (simp only: of_nat_even_neq_odd [symmetric] of_nat_Suc_twice_eq simp_thms if_False)
qed

lemma pop_verdict_at:
  fixes x y n :: nat
  assumes "LENGTH('l::len) \<le> 64"
  defines "m \<equiv> half_range TYPE('l)"
  shows "pop_verdict (of_nat n) (of_nat x :: 'l word) (of_nat (2 * y + 1)) =
      (if y mod m = x mod m then Take else if y mod m = (x + n) mod m then Help else Again)" (is ?F)
    and "pop_verdict (of_nat n) (of_nat x :: 'l word) (of_nat (2 * y)) =
      (if y mod m = (x + n) mod m then Help else if y mod m = x mod m then Refuse else Again)" (is ?E)
  unfolding pop_verdict_def seq_words(1,2) [OF assms(1)] seq_next_full_at [OF assms(1)] odd_or_1 even_or_1 m_def
  by (simp_all only: of_nat_even_neq_odd of_nat_even_neq_odd [symmetric] of_nat_Suc_twice_eq of_nat_twice_eq
      simp_thms if_False)

lemma drop_seq:
  "drop_bit 1 (of_nat (2 * y) :: 'l::len word) = of_nat (y mod half_range TYPE('l))"
  "drop_bit 1 (of_nat (2 * y + 1) :: 'l::len word) = of_nat (y mod half_range TYPE('l))"
proof -
  have u: "unat (of_nat a :: 'l word) = a mod (2 * half_range TYPE('l))" for a
    by (simp add: unsigned_of_nat take_bit_eq_mod full_range)
  have "drop_bit 1 (of_nat a :: 'l word) = of_nat (a mod (2 * half_range TYPE('l)) div 2)" for a
  proof -
    have "drop_bit 1 (of_nat a :: 'l word) = of_nat (unat (drop_bit 1 (of_nat a :: 'l word)))" by simp
    also have "unat (drop_bit 1 (of_nat a :: 'l word)) = a mod (2 * half_range TYPE('l)) div 2"
      by (simp only: unsigned_drop_bit_eq u) (simp add: drop_bit_eq_div take_bit_eq_mod u full_range)
    finally show ?thesis .
  qed
  moreover have "2 * y mod (2 * half_range TYPE('l)) div 2 = y mod half_range TYPE('l)"
    and "(2 * y + 1) mod (2 * half_range TYPE('l)) div 2 = y mod half_range TYPE('l)"
    by (simp_all add: mod_mult2_eq)
  ultimately show "drop_bit 1 (of_nat (2 * y) :: 'l::len word) = of_nat (y mod half_range TYPE('l))"
    and "drop_bit 1 (of_nat (2 * y + 1) :: 'l::len word) = of_nat (y mod half_range TYPE('l))"
    by metis+
qed

lemma drop_seq_eq_index:
  assumes "LENGTH('l::len) \<le> 64"
  shows "(of_nat (y mod half_range TYPE('l)) :: 'l word) = index_plus_size (of_nat n) (of_nat x) \<longleftrightarrow>
    y mod half_range TYPE('l) = (x + n) mod (2 * half_range TYPE('l))"
proof -
  have "y mod half_range TYPE('l) < 2 * half_range TYPE('l)"
    by (rule less_le_trans [OF mod_less_divisor [OF half_range_pos]]) simp
  then show ?thesis unfolding seq_words(5) [OF assms] of_nat_word_eq by simp
qed

text \<open>
  The three tests, on the sequence word of an empty and of a full entry. \<open>peek\<close> and \<open>pop_if\<close>
  compare the index part of the sequence word, which lacks the top bit, with a whole index.
\<close>

lemma push_verdict_cell [seq_simps]:
  fixes x y n :: nat
  assumes "LENGTH('l::len) \<le> 64"
  defines "m \<equiv> half_range TYPE('l)"
  shows "push_verdict (of_nat n) (of_nat x :: 'l word) (get_seq (empty_at y :: ('v::zero, 'l) entry)) =
      (if y mod m = x mod m then Take else if y mod m = (x + n) mod m then Help else Again)"
    and "push_verdict (of_nat n) (of_nat x :: 'l word) (get_seq (full_at y d :: ('v::zero, 'l) entry)) =
      (if y mod m = x mod m then Help else if (y + n) mod m = x mod m then Refuse else Again)"
  unfolding get_seq_at m_def using push_verdict_at [OF assms(1)] by blast+

lemma pop_verdict_cell [seq_simps]:
  fixes x y n :: nat
  assumes "LENGTH('l::len) \<le> 64"
  defines "m \<equiv> half_range TYPE('l)"
  shows "pop_verdict (of_nat n) (of_nat x :: 'l word) (get_seq (full_at y d :: ('v::zero, 'l) entry)) =
      (if y mod m = x mod m then Take else if y mod m = (x + n) mod m then Help else Again)"
    and "pop_verdict (of_nat n) (of_nat x :: 'l word) (get_seq (empty_at y :: ('v::zero, 'l) entry)) =
      (if y mod m = (x + n) mod m then Help else if y mod m = x mod m then Refuse else Again)"
  unfolding get_seq_at m_def using pop_verdict_at [OF assms(1)] by blast+

lemma peek_verdict_cell [seq_simps]:
  fixes x y n :: nat
  assumes "LENGTH('l::len) \<le> 64"
  defines "m \<equiv> half_range TYPE('l)"
  shows "peek_verdict (of_nat n) (of_nat x :: 'l word) (get_seq (empty_at y :: ('v::zero, 'l) entry)) =
      (if y mod m = x mod m then Refuse else if y mod m = (x + n) mod (2 * m) then Help else Again)"
    and "peek_verdict (of_nat n) (of_nat x :: 'l word) (get_seq (full_at y d :: ('v::zero, 'l) entry)) =
      (if y mod m = x mod m then Take else if y mod m = (x + n) mod (2 * m) then Help else Again)"
  unfolding peek_verdict_def get_seq_at seq_words(1,2) [OF assms(1)] drop_seq drop_seq_eq_index [OF assms(1)] m_def
  by (simp_all only: of_nat_even_neq_odd of_nat_even_neq_odd [symmetric] of_nat_Suc_twice_eq of_nat_twice_eq
      simp_thms if_False)

end
