(* ===== verification/Loops.thy ===== *)
theory Loops
  imports Prelude
begin

text \<open>
  The \<^verbatim>\<open>while (true)\<close> loops of the queue's operations. One trip through a loop body either
  returns a result or goes round again with a new state; \<open>spin\<close> repeats it. The value \<open>None\<close> of
  \<open>spin\<close> means that the call does not return: it loops forever, or a trip faults (a null
  dereference). The queue an operation leaves behind is part of its result.
\<close>

datatype ('r, 's) turn = Return 'r | Loop 's

partial_function (option) spin :: "('s \<Rightarrow> ('r, 's) turn option) \<Rightarrow> 's \<Rightarrow> 'r option" where
  "spin body s =
     (case body s of
        None \<Rightarrow> None
      | Some t \<Rightarrow> (case t of Return r \<Rightarrow> Some r | Loop s' \<Rightarrow> spin body s'))"

declare spin.simps [code]

lemma spin_Return: "body s = Some (Return r) \<Longrightarrow> spin body s = Some r"
  by (subst spin.simps) simp

lemma spin_Loop: "body s = Some (Loop s') \<Longrightarrow> spin body s = spin body s'"
  by (subst spin.simps) simp

lemma spin_None: "body s = None \<Longrightarrow> spin body s = None"
  by (subst spin.simps) simp

text \<open>
  Partial correctness: an invariant kept by every trip that goes round, and a property of what is
  returned under it.
\<close>

lemma spin_partial:
  assumes ret: "spin body s = Some r" and "P s"
    and loop: "\<And>s s'. P s \<Longrightarrow> body s = Some (Loop s') \<Longrightarrow> P s'"
    and return: "\<And>s r. P s \<Longrightarrow> body s = Some (Return r) \<Longrightarrow> Q r"
  shows "Q r"
proof -
  have "body = body \<longrightarrow> P s \<longrightarrow> Q r"
  proof (rule spin.raw_induct [where P = "\<lambda>b s r. b = body \<longrightarrow> P s \<longrightarrow> Q r", OF _ ret])
    fix f b s r
    assume IH: "\<And>b s r. f b s = Some r \<Longrightarrow> b = body \<longrightarrow> P s \<longrightarrow> Q r"
      and eq: "(case b s of None \<Rightarrow> None
        | Some t \<Rightarrow> (case t of Return r \<Rightarrow> Some r | Loop s' \<Rightarrow> f b s')) = Some r"
    then show "b = body \<longrightarrow> P s \<longrightarrow> Q r"
      using loop return by (fastforce split: option.splits turn.splits)
  qed
  with \<open>P s\<close> show ?thesis by blast
qed

text \<open>A loop whose body keeps going round under an invariant never returns.\<close>

lemma spin_diverges:
  assumes "P s" and step: "\<And>s. P s \<Longrightarrow> \<exists>s'. body s = Some (Loop s') \<and> P s'"
  shows "spin body s = None"
proof (rule ccontr)
  assume "spin body s \<noteq> None"
  then obtain r where r: "spin body s = Some r" by blast
  have "False"
    by (rule spin_partial [where P = P and Q = "\<lambda>_. False", OF r \<open>P s\<close>]) (use step in fastforce)+
  then show False .
qed

text \<open>
  Total correctness: if a measure decreases with every trip that goes round, the loop returns, and
  what holds at every return holds of its result.
\<close>

lemma spin_total:
  assumes "P s"
    and step: "\<And>s. P s \<Longrightarrow>
      (\<exists>r. body s = Some (Return r) \<and> Q r) \<or>
      (\<exists>s'. body s = Some (Loop s') \<and> P s' \<and> m s' < (m s :: nat))"
  shows "\<exists>r. spin body s = Some r \<and> Q r"
  using assms(1)
proof (induction "m s" arbitrary: s rule: less_induct)
  case less
  from step [OF less.prems] show ?case
  proof
    assume "\<exists>r. body s = Some (Return r) \<and> Q r"
    then show ?thesis by (auto intro: spin_Return)
  next
    assume "\<exists>s'. body s = Some (Loop s') \<and> P s' \<and> m s' < m s"
    then obtain s' where s': "body s = Some (Loop s')" "P s'" "m s' < m s" by blast
    with less.hyps have "\<exists>r. spin body s' = Some r \<and> Q r" by blast
    with s' show ?thesis by (simp add: spin_Loop)
  qed
qed

text \<open>Two loops whose bodies stay related return related results, or neither returns.\<close>

lemma spin_sim_Some:
  assumes ret: "spin b s = Some r" and "R s t"
    and body: "\<And>s t. R s t \<Longrightarrow> rel_option (rel_turn Q R) (b s) (c t)"
  shows "\<exists>r'. spin c t = Some r' \<and> Q r r'"
proof -
  have "b = b \<longrightarrow> (\<forall>t. R s t \<longrightarrow> (\<exists>r'. spin c t = Some r' \<and> Q r r'))"
  proof (rule spin.raw_induct [where
        P = "\<lambda>b' s r. b' = b \<longrightarrow> (\<forall>t. R s t \<longrightarrow> (\<exists>r'. spin c t = Some r' \<and> Q r r'))", OF _ ret], intro impI allI)
    fix f b' s r t
    assume IH: "\<And>b' s r. f b' s = Some r \<Longrightarrow>
        b' = b \<longrightarrow> (\<forall>t. R s t \<longrightarrow> (\<exists>r'. spin c t = Some r' \<and> Q r r'))"
      and eq: "(case b' s of None \<Rightarrow> None
        | Some t \<Rightarrow> (case t of Return r \<Rightarrow> Some r | Loop s' \<Rightarrow> f b' s')) = Some r"
      and b': "b' = b" and "R s t"
    from eq obtain u where u: "b s = Some u" using b' by (cases "b s") auto
    with body [OF \<open>R s t\<close>] obtain u' where u': "c t = Some u'" "rel_turn Q R u u'"
      by (auto simp: option_rel_Some1)
    show "\<exists>r'. spin c t = Some r' \<and> Q r r'"
    proof (cases u)
      case (Return x)
      with u' obtain x' where "u' = Return x'" "Q x x'" by (cases u') auto
      with u' u eq b' Return show ?thesis by (simp add: spin_Return)
    next
      case (Loop s')
      with u' obtain t' where "u' = Loop t'" "R s' t'" by (cases u') auto
      with u' u eq b' Loop IH show ?thesis by (simp add: spin_Loop)
    qed
  qed
  with \<open>R s t\<close> show ?thesis by blast
qed

lemma spin_sim:
  assumes "R s t" and body: "\<And>s t. R s t \<Longrightarrow> rel_option (rel_turn Q R) (b s) (c t)"
  shows "rel_option Q (spin b s) (spin c t)"
proof (cases "spin b s")
  case (Some r)
  from spin_sim_Some [of b s r R t Q c, OF Some assms] show ?thesis using Some by auto
next
  case None
  have "spin c t = None"
  proof (rule ccontr)
    assume "spin c t \<noteq> None"
    then obtain r' where r': "spin c t = Some r'" by blast
    have "rel_option (rel_turn (conversep Q) (conversep R)) (c t) (b s)" if "conversep R t s" for t s
      using body [of s t] that by (simp add: turn.rel_conversep option.rel_conversep)
    from spin_sim_Some [of c t r' "conversep R" s "conversep Q" b, OF r' _ this] assms(1) None
    show False by simp
  qed
  with None show ?thesis by simp
qed

text \<open>A call of \<open>k\<close> trips that go round before it returns.\<close>

lemma spin_once: "body s = Some (Loop s') \<Longrightarrow> body s' = Some (Return r) \<Longrightarrow> spin body s = Some r"
  by (simp add: spin_Loop spin_Return)

end
