(* ===== verification/Mpmc.thy ===== *)
theory Mpmc
  imports Entries Loops
begin

text \<open>
  The class \<^verbatim>\<open>mpmc_queue\<close> of \<^verbatim>\<open>mpmc_queue.h\<close> as a sequential program: its state, its
  constructor and destructor, and every public operation, one definition per member function.
  Each call is one thread running alone; the interleaved execution of the same steps is in the
  theory \<open>Machine\<close>. The template parameters are arguments or type variables: \<open>'v\<close> is
  \<^verbatim>\<open>DataT\<close> (its zero is the all-zero bit pattern), \<open>'l word\<close> is \<^verbatim>\<open>IndexT\<close>, \<open>N\<close> is the
  compile time size, and \<open>lp\<close>, \<open>lo\<close> are \<^verbatim>\<open>lazy_push\<close> and \<^verbatim>\<open>lazy_pop\<close>. An operation returns
  \<open>None\<close> when the call does not return.
\<close>

section \<open>State\<close>

record ('v, 'w) queue_state =
  write_index :: 'w
  read_index :: 'w
  ring :: "('v, 'w) entry_data array_t"

type_synonym ('v, 'l) queue = "('v, 'l word) queue_state"

definition capacity :: "('v, 'l::len) queue \<Rightarrow> size_t" where
  "capacity q = arr_size (ring q)"

definition entry_at :: "('v, 'l::len) queue \<Rightarrow> 'l word \<Rightarrow> ('v, 'l) entry option" where
  "entry_at q index = arr_at (ring q) (ucast index)"

text \<open>The atomic compare and exchange of an entry and of the two indexes.\<close>

definition cas_entry ::
  "('v, 'l::len) queue \<Rightarrow> 'l word \<Rightarrow> ('v, 'l) entry \<Rightarrow> ('v, 'l) entry \<Rightarrow> (bool \<times> ('v, 'l) queue) option" where
  "cas_entry q index expected new_value =
     (case entry_at q index of
        None \<Rightarrow> None
      | Some cur \<Rightarrow>
          (let (swapped, new) = compare_exchange cur expected new_value
           in Some (swapped, if swapped then q\<lparr>ring := arr_put (ring q) (ucast index) new\<rparr> else q)))"

definition cas_write_index :: "'l word \<Rightarrow> 'l word \<Rightarrow> ('v, 'l::len) queue \<Rightarrow> ('v, 'l) queue" where
  "cas_write_index expected desired q =
     q\<lparr>write_index := snd (compare_exchange (write_index q) expected desired)\<rparr>"

definition cas_read_index :: "'l word \<Rightarrow> 'l word \<Rightarrow> ('v, 'l::len) queue \<Rightarrow> ('v, 'l) queue" where
  "cas_read_index expected desired q =
     q\<lparr>read_index := snd (compare_exchange (read_index q) expected desired)\<rparr>"

section \<open>Push\<close>

text \<open>One trip through the loop of \<^verbatim>\<open>push(d, i)\<close>: the result is the return value, \<open>i\<close> and the queue.\<close>

definition push_index_body ::
  "bool \<Rightarrow> 'v \<Rightarrow> 'l word \<Rightarrow> ('v::zero, 'l::len) queue \<Rightarrow> (bool \<times> 'l word \<times> ('v, 'l) queue, ('v, 'l) queue) turn option" where
  "push_index_body lp d i q =
     (let wr_index = write_index q
      in case entry_at q wr_index of
           None \<Rightarrow> None
         | Some ent \<Rightarrow>
            (case push_verdict (capacity q) wr_index (get_seq ent) of
               Take \<Rightarrow>
                 (case cas_entry q wr_index (entry_of_seq (seq_empty wr_index)) (entry_of (seq_full wr_index) d) of
                    None \<Rightarrow> None
                  | Some (swapped, q') \<Rightarrow>
                      if swapped
                      then Some (Return (True, wr_index,
                             if \<not> lp then cas_write_index wr_index (wr_index + 1) q' else q'))
                      else Some (Loop q'))
             | Help \<Rightarrow> Some (Loop (cas_write_index wr_index (wr_index + 1) q))
             | Refuse \<Rightarrow> Some (Return (False, i, q))
             | Again \<Rightarrow> Some (Loop q)))"

definition push_index ::
  "bool \<Rightarrow> 'v \<Rightarrow> 'l word \<Rightarrow> ('v::zero, 'l::len) queue \<Rightarrow> (bool \<times> 'l word \<times> ('v, 'l) queue) option" where
  "push_index lp d i q = spin (push_index_body lp d i) q"

text \<open>\<^verbatim>\<open>push(d)\<close> repeats the same loop without the index.\<close>

definition push_body ::
  "bool \<Rightarrow> 'v \<Rightarrow> ('v::zero, 'l::len) queue \<Rightarrow> (bool \<times> ('v, 'l) queue, ('v, 'l) queue) turn option" where
  "push_body lp d q =
     (let wr_index = write_index q
      in case entry_at q wr_index of
           None \<Rightarrow> None
         | Some ent \<Rightarrow>
            (case push_verdict (capacity q) wr_index (get_seq ent) of
               Take \<Rightarrow>
                 (case cas_entry q wr_index (entry_of_seq (seq_empty wr_index)) (entry_of (seq_full wr_index) d) of
                    None \<Rightarrow> None
                  | Some (swapped, q') \<Rightarrow>
                      if swapped
                      then Some (Return (True,
                             if \<not> lp then cas_write_index wr_index (wr_index + 1) q' else q'))
                      else Some (Loop q'))
             | Help \<Rightarrow> Some (Loop (cas_write_index wr_index (wr_index + 1) q))
             | Refuse \<Rightarrow> Some (Return (False, q))
             | Again \<Rightarrow> Some (Loop q)))"

definition push :: "bool \<Rightarrow> 'v \<Rightarrow> ('v::zero, 'l::len) queue \<Rightarrow> (bool \<times> ('v, 'l) queue) option" where
  "push lp d q = spin (push_body lp d) q"

definition enqueue :: "bool \<Rightarrow> 'v \<Rightarrow> ('v::zero, 'l::len) queue \<Rightarrow> (bool \<times> ('v, 'l) queue) option" where
  "enqueue lp d q = push lp d q"

definition enqueue_index ::
  "bool \<Rightarrow> 'v \<Rightarrow> 'l word \<Rightarrow> ('v::zero, 'l::len) queue \<Rightarrow> (bool \<times> 'l word \<times> ('v, 'l) queue) option" where
  "enqueue_index lp d i q = push_index lp d i q"

section \<open>Pop\<close>

text \<open>
  \<^verbatim>\<open>pop(d)\<close> loads the read index before the loop and again at the end of each trip, so the index
  is part of the loop state. The out parameter \<open>d\<close> keeps its value unless the call returns true.
\<close>

definition pop_body ::
  "bool \<Rightarrow> 'v \<Rightarrow> 'l word \<times> ('v::zero, 'l::len) queue
     \<Rightarrow> (bool \<times> 'v \<times> ('v, 'l) queue, 'l word \<times> ('v, 'l) queue) turn option" where
  "pop_body lo d s =
     (let rd_index = fst s; q = snd s
      in case entry_at q rd_index of
           None \<Rightarrow> None
         | Some e \<Rightarrow>
            (case pop_verdict (capacity q) rd_index (get_seq e) of
               Take \<Rightarrow>
                 (case cas_entry q rd_index e (entry_of_seq (seq_next_empty (capacity q) rd_index)) of
                    None \<Rightarrow> None
                  | Some (swapped, q') \<Rightarrow>
                      if swapped
                      then Some (Return (True, get_data e,
                             if \<not> lo then cas_read_index rd_index (rd_index + 1) q' else q'))
                      else Some (Loop (read_index q', q')))
             | Help \<Rightarrow> (let q' = cas_read_index rd_index (rd_index + 1) q in Some (Loop (read_index q', q')))
             | Refuse \<Rightarrow> Some (Return (False, d, q))
             | Again \<Rightarrow> Some (Loop (read_index q, q))))"

definition pop :: "bool \<Rightarrow> 'v \<Rightarrow> ('v::zero, 'l::len) queue \<Rightarrow> (bool \<times> 'v \<times> ('v, 'l) queue) option" where
  "pop lo d q = spin (pop_body lo d) (read_index q, q)"

definition pop_index_body ::
  "bool \<Rightarrow> 'v \<Rightarrow> 'l word \<Rightarrow> ('v::zero, 'l::len) queue
     \<Rightarrow> (bool \<times> 'v \<times> 'l word \<times> ('v, 'l) queue, ('v, 'l) queue) turn option" where
  "pop_index_body lo d i q =
     (let rd_index = read_index q
      in case entry_at q rd_index of
           None \<Rightarrow> None
         | Some e \<Rightarrow>
            (case pop_verdict (capacity q) rd_index (get_seq e) of
               Take \<Rightarrow>
                 (case cas_entry q rd_index e (entry_of_seq (seq_next_empty (capacity q) rd_index)) of
                    None \<Rightarrow> None
                  | Some (swapped, q') \<Rightarrow>
                      if swapped
                      then Some (Return (True, get_data e, rd_index,
                             if \<not> lo then cas_read_index rd_index (rd_index + 1) q' else q'))
                      else Some (Loop q'))
             | Help \<Rightarrow> Some (Loop (cas_read_index rd_index (rd_index + 1) q))
             | Refuse \<Rightarrow> Some (Return (False, d, i, q))
             | Again \<Rightarrow> Some (Loop q)))"

definition pop_index ::
  "bool \<Rightarrow> 'v \<Rightarrow> 'l word \<Rightarrow> ('v::zero, 'l::len) queue \<Rightarrow> (bool \<times> 'v \<times> 'l word \<times> ('v, 'l) queue) option" where
  "pop_index lo d i q = spin (pop_index_body lo d i) q"

definition dequeue :: "bool \<Rightarrow> 'v \<Rightarrow> ('v::zero, 'l::len) queue \<Rightarrow> (bool \<times> 'v \<times> ('v, 'l) queue) option" where
  "dequeue lo d q = pop lo d q"

definition dequeue_index ::
  "bool \<Rightarrow> 'v \<Rightarrow> 'l word \<Rightarrow> ('v::zero, 'l::len) queue \<Rightarrow> (bool \<times> 'v \<times> 'l word \<times> ('v, 'l) queue) option" where
  "dequeue_index lo d i q = pop_index lo d i q"

section \<open>Keeping the last \<open>N\<close> elements\<close>

text \<open>The popped value \<open>lost\<close> starts uninitialised in the code; any value \<open>junk\<close> stands for it.\<close>

definition push_keep_n_body ::
  "bool \<Rightarrow> bool \<Rightarrow> 'v \<Rightarrow> 'v \<Rightarrow> ('v::zero, 'l::len) queue \<Rightarrow> (bool \<times> ('v, 'l) queue, ('v, 'l) queue) turn option" where
  "push_keep_n_body lp lo junk d q =
     (case push lp d q of
        None \<Rightarrow> None
      | Some (pushed, q') \<Rightarrow>
          if pushed then Some (Return (True, q'))
          else (case pop lo junk q' of None \<Rightarrow> None | Some (_, _, q'') \<Rightarrow> Some (Loop q'')))"

definition push_keep_n ::
  "bool \<Rightarrow> bool \<Rightarrow> 'v \<Rightarrow> 'v \<Rightarrow> ('v::zero, 'l::len) queue \<Rightarrow> (bool \<times> ('v, 'l) queue) option" where
  "push_keep_n lp lo junk d q = spin (push_keep_n_body lp lo junk d) q"

definition push_keep_n_index_body ::
  "bool \<Rightarrow> bool \<Rightarrow> 'v \<Rightarrow> 'v \<Rightarrow> 'l word \<times> ('v::zero, 'l::len) queue
     \<Rightarrow> (bool \<times> 'l word \<times> ('v, 'l) queue, 'l word \<times> ('v, 'l) queue) turn option" where
  "push_keep_n_index_body lp lo junk d s =
     (case push_index lp d (fst s) (snd s) of
        None \<Rightarrow> None
      | Some (pushed, i', q') \<Rightarrow>
          if pushed then Some (Return (True, i', q'))
          else (case pop lo junk q' of None \<Rightarrow> None | Some (_, _, q'') \<Rightarrow> Some (Loop (i', q''))))"

definition push_keep_n_index ::
  "bool \<Rightarrow> bool \<Rightarrow> 'v \<Rightarrow> 'v \<Rightarrow> 'l word \<Rightarrow> ('v::zero, 'l::len) queue \<Rightarrow> (bool \<times> 'l word \<times> ('v, 'l) queue) option" where
  "push_keep_n_index lp lo junk d i q = spin (push_keep_n_index_body lp lo junk d) (i, q)"

section \<open>Exchange, peek, conditional pop, consume\<close>

definition exchange ::
  "'l word \<Rightarrow> 'v \<Rightarrow> 'v \<Rightarrow> ('v::zero, 'l::len) queue \<Rightarrow> (bool \<times> ('v, 'l) queue) option" where
  "exchange i old_value new_value q =
     cas_entry q i (entry_of (seq_full i) old_value) (entry_of (seq_full i) new_value)"

definition peek_body ::
  "'v \<Rightarrow> ('v::zero, 'l::len) queue \<Rightarrow> (bool \<times> 'v \<times> ('v, 'l) queue, ('v, 'l) queue) turn option" where
  "peek_body d q =
     (let rd_index = read_index q
      in case entry_at q rd_index of
           None \<Rightarrow> None
         | Some e \<Rightarrow>
            (case peek_verdict (capacity q) rd_index (get_seq e) of
               Refuse \<Rightarrow> Some (Return (False, d, q))
             | Take \<Rightarrow> Some (Return (True, get_data e, q))
             | Help \<Rightarrow> Some (Loop (cas_read_index rd_index (rd_index + 1) q))
             | Again \<Rightarrow> Some (Loop q)))"

definition peek :: "'v \<Rightarrow> ('v::zero, 'l::len) queue \<Rightarrow> (bool \<times> 'v \<times> ('v, 'l) queue) option" where
  "peek d q = spin (peek_body d) q"

definition peek_index_body ::
  "'v \<Rightarrow> 'l word \<Rightarrow> ('v::zero, 'l::len) queue
     \<Rightarrow> (bool \<times> 'v \<times> 'l word \<times> ('v, 'l) queue, ('v, 'l) queue) turn option" where
  "peek_index_body d i q =
     (let rd_index = read_index q
      in case entry_at q rd_index of
           None \<Rightarrow> None
         | Some e \<Rightarrow>
            (case peek_verdict (capacity q) rd_index (get_seq e) of
               Refuse \<Rightarrow> Some (Return (False, d, i, q))
             | Take \<Rightarrow> Some (Return (True, get_data e, get_seq e, q))
             | Help \<Rightarrow> Some (Loop (cas_read_index rd_index (rd_index + 1) q))
             | Again \<Rightarrow> Some (Loop q)))"

definition peek_index ::
  "'v \<Rightarrow> 'l word \<Rightarrow> ('v::zero, 'l::len) queue \<Rightarrow> (bool \<times> 'v \<times> 'l word \<times> ('v, 'l) queue) option" where
  "peek_index d i q = spin (peek_index_body d i) q"

text \<open>The condition of \<^verbatim>\<open>pop_if\<close> is called by reference: it may keep a state \<open>s\<close> of its own.\<close>

definition pop_if_body ::
  "bool \<Rightarrow> ('v \<Rightarrow> 'l word \<Rightarrow> 's \<Rightarrow> bool \<times> 's) \<Rightarrow> 'v \<Rightarrow> 's \<times> ('v::zero, 'l::len) queue
     \<Rightarrow> (bool \<times> 'v \<times> 's \<times> ('v, 'l) queue, 's \<times> ('v, 'l) queue) turn option" where
  "pop_if_body lo f d s =
     (let q = snd s; rd_index = read_index q
      in case entry_at q rd_index of
           None \<Rightarrow> None
         | Some e \<Rightarrow>
            (case peek_verdict (capacity q) rd_index (get_seq e) of
               Refuse \<Rightarrow> Some (Return (False, d, fst s, q))
             | Take \<Rightarrow>
                 (let (wanted, fs) = f (get_data e) (get_seq e) (fst s)
                  in if \<not> wanted then Some (Return (False, d, fs, q))
                     else (case cas_entry q rd_index e (entry_of_seq (seq_next_empty (capacity q) rd_index)) of
                             None \<Rightarrow> None
                           | Some (swapped, q') \<Rightarrow>
                               if swapped
                               then Some (Return (True, get_data e, fs,
                                      if \<not> lo then cas_read_index rd_index (rd_index + 1) q' else q'))
                               else Some (Loop (fs, q'))))
             | Help \<Rightarrow> Some (Loop (fst s, cas_read_index rd_index (rd_index + 1) q))
             | Again \<Rightarrow> Some (Loop s)))"

definition pop_if ::
  "bool \<Rightarrow> ('v \<Rightarrow> 'l word \<Rightarrow> 's \<Rightarrow> bool \<times> 's) \<Rightarrow> 'v \<Rightarrow> 's \<Rightarrow> ('v::zero, 'l::len) queue
     \<Rightarrow> (bool \<times> 'v \<times> 's \<times> ('v, 'l) queue) option" where
  "pop_if lo f d fs q = spin (pop_if_body lo f d) (fs, q)"

text \<open>
  \<^verbatim>\<open>consume\<close> carries the count \<open>r\<close>, the state of the functor and the variables \<open>v\<close>, \<open>i\<close> that
  \<^verbatim>\<open>pop(v, i)\<close> writes.
\<close>

definition consume_body ::
  "bool \<Rightarrow> ('v \<Rightarrow> 'l word \<Rightarrow> 's \<Rightarrow> bool \<times> 's) \<Rightarrow> u64 \<times> 'v \<times> 'l word \<times> 's \<times> ('v::zero, 'l::len) queue
     \<Rightarrow> (u64 \<times> 's \<times> ('v, 'l) queue, u64 \<times> 'v \<times> 'l word \<times> 's \<times> ('v, 'l) queue) turn option" where
  "consume_body lo f st =
     (let (r, v, i, s, q) = st
      in case pop_index lo v i q of
           None \<Rightarrow> None
         | Some (popped, v', i', q') \<Rightarrow>
             if \<not> popped then Some (Return (r, s, q'))
             else (let (stop, s') = f v' i' s
                   in if stop then Some (Return (r + 1, s', q'))
                      else Some (Loop (r + 1, v', i', s', q'))))"

definition consume ::
  "bool \<Rightarrow> ('v \<Rightarrow> 'l word \<Rightarrow> 's \<Rightarrow> bool \<times> 's) \<Rightarrow> 'v \<Rightarrow> 'l word \<Rightarrow> 's \<Rightarrow> ('v::zero, 'l::len) queue
     \<Rightarrow> (u64 \<times> 's \<times> ('v, 'l) queue) option" where
  "consume lo f v i s q = spin (consume_body lo f) (0, v, i, s, q)"

section \<open>Observers\<close>

definition empty :: "('v, 'l::len) queue \<Rightarrow> bool option" where
  "empty q =
     (let rd_index = read_index q
      in map_option (\<lambda>e. get_seq e = seq_empty rd_index) (entry_at q rd_index))"

text \<open>The two branches of \<^verbatim>\<open>size()\<close>; the sums and differences are done in \<^verbatim>\<open>size_t\<close>.\<close>

definition size_of :: "('v, 'l::len) queue \<Rightarrow> size_t option" where
  "size_of q =
     (case empty q of
        None \<Rightarrow> None
      | Some is_mt \<Rightarrow>
          Some (if is_mt then 0
                else if write_index q \<ge> read_index q then ucast (write_index q - read_index q)
                else ucast (write_index q) + capacity q - ucast (read_index q)))"

section \<open>Construction and destruction\<close>

definition bits_in_index :: "'l::len itself \<Rightarrow> u32" where
  "bits_in_index _ = of_nat LENGTH('l)"

function bits_for_value_loop :: "u32 \<Rightarrow> u32 \<Rightarrow> u32" where
  "bits_for_value_loop b n = (if n \<noteq> 0 then bits_for_value_loop (b + 1) (drop_bit 1 n) else b)"
  by pat_completeness auto
termination
proof (relation "measure (\<lambda>(b, n). unat n)")
  fix b n :: u32
  assume "n \<noteq> 0"
  then have "unat (drop_bit 1 n) < unat n"
    by (simp add: drop_bit_eq_div unat_div unat_gt_0 div_less_dividend)
  then show "((b + 1, drop_bit 1 n), (b, n)) \<in> measure (\<lambda>(b, n). unat n)" by simp
qed simp

declare bits_for_value_loop.simps [simp del]

definition bits_for_value :: "u32 \<Rightarrow> u32" where
  "bits_for_value n = bits_for_value_loop 0 n"

text \<open>
  The class' static assertions on \<^verbatim>\<open>N\<close> and \<^verbatim>\<open>IndexT\<close> (other index widths are for experiments, the code
  says), and the conversion of \<^verbatim>\<open>N\<close> to the \<^verbatim>\<open>unsigned\<close> template parameter of \<^verbatim>\<open>array_inplace\<close>, which
  must not narrow.
\<close>

definition static_asserts :: "'l::len itself \<Rightarrow> size_t \<Rightarrow> bool" where
  "static_asserts ty N \<longleftrightarrow>
     LENGTH('l) \<in> {32, 64} \<and>
     (N = 0 \<or> bits_in_index ty > bits_for_value (ucast N)) \<and>
     N < 2 ^ 32 \<and> (N \<noteq> 0 \<longrightarrow> inplace_static_assert N)"

datatype ctor_error = Invalid_argument

text \<open>The loop that stores the first sequence words; its counter has the index type.\<close>

definition init_body ::
  "'l word \<times> ('v::zero, 'l::len) entries \<Rightarrow> (('v, 'l) entries, 'l word \<times> ('v, 'l) entries) turn option" where
  "init_body s =
     (let i = fst s; arr = snd s
      in if (ucast i :: size_t) < arr_size arr
         then (case arr_at arr (ucast i) of
                 None \<Rightarrow> None
               | Some e \<Rightarrow> Some (Loop (i + 1, arr_put arr (ucast i) (set_seq (push_bit 1 i) e))))
         else Some (Return arr))"

definition mpmc_queue ::
  "size_t \<Rightarrow> u64 \<Rightarrow> (ctor_error + ('v::zero, 'l::len) queue) option" where
  "mpmc_queue N n =
     (let arr = arr_new N n entry_clear
      in if (if N > 0 then n \<noteq> N
             else (n AND (n - 1) \<noteq> 0 \<or> bits_in_index TYPE('l) \<le> bits_for_value (ucast n)))
         then Some (Inl Invalid_argument)
         else map_option (\<lambda>arr'. Inr \<lparr>write_index = 0, read_index = 0, ring = arr'\<rparr>) (spin init_body (0, arr)))"

text \<open>The destructor pops until the queue is empty.\<close>

definition destroy_body ::
  "bool \<Rightarrow> 'v \<times> ('v::zero, 'l::len) queue \<Rightarrow> (('v, 'l) queue, 'v \<times> ('v, 'l) queue) turn option" where
  "destroy_body lo s =
     (case pop lo (fst s) (snd s) of
        None \<Rightarrow> None
      | Some (popped, v, q) \<Rightarrow> Some (if popped then Loop (v, q) else Return q))"

definition destroy :: "bool \<Rightarrow> 'v \<Rightarrow> ('v::zero, 'l::len) queue \<Rightarrow> ('v, 'l) queue option" where
  "destroy lo junk q = spin (destroy_body lo) (junk, q)"

end
