(* ===== verification/Ring.thy ===== *)
theory Ring
  imports Mpmc
begin

text \<open>
  The representation of a queue. Positions are the natural numbers: the \<open>x\<close>-th successful push
  of the queue's life fills position \<open>x\<close>. A queue that holds the list \<open>xs\<close> with its head at
  position \<open>h\<close> keeps position \<open>x\<close> of the window \<open>h \<le> x < h + n\<close> in cell \<open>x mod n\<close>; the machine
  words of the code (indexes and sequence words) are images of positions, wrapped around. The
  \<open>view\<close> lemmas say what an operation that holds the possibly outdated index of a position may
  conclude from the entry it reads there.
\<close>

section \<open>The representation predicate\<close>

definition cell :: "nat \<Rightarrow> 'v list \<Rightarrow> nat \<Rightarrow> ('v::zero, 'l::len) entry" where
  "cell h xs x = (if x < h + length xs then full_at x (xs ! (x - h)) else empty_at x)"

text \<open>The capacity is a power of two, at most a quarter of the range of the index type.\<close>

definition ring_shape :: "('v::zero, 'l::len) queue \<Rightarrow> nat \<Rightarrow> bool" where
  "ring_shape q n \<longleftrightarrow>
     arr_ok (ring q) \<and> unat (capacity q) = n \<and> 2 * n \<le> half_range TYPE('l) \<and> LENGTH('l) \<le> 64"

definition contents :: "('v::zero, 'l::len) queue \<Rightarrow> nat \<Rightarrow> nat \<Rightarrow> 'v list \<Rightarrow> bool" where
  "contents q n h xs \<longleftrightarrow>
     length xs \<le> n \<and> (\<forall>x. h \<le> x \<and> x < h + n \<longrightarrow> arr_cells (ring q) ! (x mod n) = cell h xs x)"

text \<open>
  The write index is the tail position or the one before it, the read index the head position or
  the one before it: an operation has taken effect when its entry is swapped, and the index follows.
\<close>

definition indexes :: "('v::zero, 'l::len) queue \<Rightarrow> nat \<Rightarrow> nat \<Rightarrow> nat \<Rightarrow> nat \<Rightarrow> bool" where
  "indexes q w r t h \<longleftrightarrow>
     write_index q = of_nat w \<and> w \<le> t \<and> t \<le> w + 1 \<and> read_index q = of_nat r \<and> r \<le> h \<and> h \<le> r + 1"

definition rep :: "('v::zero, 'l::len) queue \<Rightarrow> nat \<Rightarrow> nat \<Rightarrow> nat \<Rightarrow> nat \<Rightarrow> 'v list \<Rightarrow> bool" where
  "rep q n w r h xs \<longleftrightarrow> ring_shape q n \<and> contents q n h xs \<and> indexes q w r (h + length xs) h"

lemma shape_pow2:
  assumes "ring_shape (q :: ('v::zero, 'l::len) queue) n"
  obtains k where "n = 2 ^ k" and "k < LENGTH('l)"
proof -
  from assms obtain k where k: "n = 2 ^ k"
    using arr.size_pow2 [of "ring q"] by (auto simp: ring_shape_def capacity_def)
  have "n < 2 ^ LENGTH('l)"
    using assms half_range_pos [where 'l = 'l] unfolding full_range ring_shape_def by linarith
  then have "k < LENGTH('l)" using k by simp
  with k show ?thesis by (rule that)
qed

lemma shape_bounds:
  assumes "ring_shape (q :: ('v::zero, 'l::len) queue) n"
  shows "0 < n" and "2 * n \<le> half_range TYPE('l)" and "n < half_range TYPE('l)" and "LENGTH('l) \<le> 64"
    and "capacity q = of_nat n" and "length (arr_cells (ring q)) = n" and "n dvd half_range TYPE('l)"
proof -
  from assms obtain k where k: "n = 2 ^ k" "k < LENGTH('l)" by (rule shape_pow2)
  then show pos: "0 < n" by simp
  show two: "2 * n \<le> half_range TYPE('l)" and "LENGTH('l) \<le> 64"
    using assms by (simp_all add: ring_shape_def)
  then show "n < half_range TYPE('l)" using pos by linarith
  show "capacity q = of_nat n"
    using assms by (auto simp: ring_shape_def)
  show "length (arr_cells (ring q)) = n"
    using assms arr.length_cells [of "ring q"] by (simp add: ring_shape_def capacity_def)
  show "n dvd half_range TYPE('l)"
    unfolding half_range_def k(1) using k(2) by (intro pow2_dvd) simp
qed

lemma slot_of_position:
  assumes "ring_shape (q :: ('v::zero, 'l::len) queue) n"
  shows "unat (ucast (of_nat x :: 'l word) :: size_t) mod n = x mod n"
proof -
  from assms obtain k where "n = 2 ^ k" "k < LENGTH('l)" by (rule shape_pow2)
  with assms show ?thesis by (simp add: unat_widen_mod_pow2 ring_shape_def)
qed

lemma entry_at_position [ring_simps]:
  assumes "ring_shape (q :: ('v::zero, 'l::len) queue) n"
  shows "entry_at q (of_nat x) = Some (arr_cells (ring q) ! (x mod n))"
proof -
  have "unat (arr_size (ring q)) = n" "arr_ok (ring q)"
    using assms by (simp_all add: ring_shape_def capacity_def)
  then show ?thesis
    by (simp add: entry_at_def arr.at_cells slot_of_position [OF assms])
qed

text \<open>The queue after a successful compare and exchange at position \<open>x\<close>.\<close>

definition put_cell :: "('v, 'l::len) queue \<Rightarrow> nat \<Rightarrow> ('v, 'l) entry \<Rightarrow> ('v, 'l) queue" where
  "put_cell q x e = q\<lparr>ring := arr_put (ring q) (ucast (of_nat x :: 'l word)) e\<rparr>"

lemma put_cell_fields [simp]:
  "write_index (put_cell q x e) = write_index q" "read_index (put_cell q x e) = read_index q"
  by (simp_all add: put_cell_def)

lemma put_cell_shape [ring_simps]: "ring_shape q n \<Longrightarrow> ring_shape (put_cell q x e) n"
  by (simp add: ring_shape_def put_cell_def arr.ok_put capacity_def arr_put_total)

lemma put_cell_cells [ring_simps]:
  assumes "ring_shape q n"
  shows "arr_cells (ring (put_cell q x e)) = (arr_cells (ring q))[x mod n := e]"
proof -
  have "unat (arr_size (ring q)) = n" "arr_ok (ring q)"
    using assms by (simp_all add: ring_shape_def capacity_def)
  then show ?thesis
    by (simp add: put_cell_def arr.cells_put slot_of_position [OF assms])
qed

lemma cas_entry_position [ring_simps]:
  assumes "ring_shape q n"
  shows "cas_entry q (of_nat x) e e' =
     Some (if arr_cells (ring q) ! (x mod n) = e then (True, put_cell q x e') else (False, q))"
  by (simp add: cas_entry_def entry_at_position [OF assms] compare_exchange_def put_cell_def)

section \<open>What changes the contents\<close>

lemma contents_cell: "contents q n h xs \<Longrightarrow> h \<le> x \<Longrightarrow> x < h + n \<Longrightarrow> arr_cells (ring q) ! (x mod n) = cell h xs x"
  by (simp add: contents_def)

text \<open>
  Writing the cell of position \<open>p\<close> as the cell of position \<open>z\<close> (the same cell, one round later,
  when an element is removed): the other positions of the new window keep what they held.
\<close>

lemma contents_put:
  fixes q :: "('v::zero, 'l::len) queue"
  assumes shape: "ring_shape q n" and old: "contents q n h xs"
    and len: "length ys \<le> n" and z: "h' \<le> z" "z < h' + n" "p mod n = z mod n"
    and at_z: "cell h' ys z = e"
    and other: "\<And>x. h' \<le> x \<Longrightarrow> x < h' + n \<Longrightarrow> x \<noteq> z \<Longrightarrow>
      h \<le> x \<and> x < h + n \<and> (cell h' ys x :: ('v, 'l) entry) = cell h xs x"
  shows "contents (put_cell q p e) n h' ys"
proof -
  have n: "0 < n" "length (arr_cells (ring q)) = n" using shape_bounds [OF shape] by simp_all
  have "arr_cells (ring (put_cell q p e)) ! (x mod n) = cell h' ys x" if x: "h' \<le> x" "x < h' + n" for x
  proof (cases "x = z")
    case True
    then show ?thesis using at_z n z(3) by (simp add: put_cell_cells [OF shape])
  next
    case False
    then have "p mod n \<noteq> x mod n" using window_inj [of z n x h'] x z by auto
    moreover have "arr_cells (ring q) ! (x mod n) = cell h' ys x"
      using contents_cell [OF old, of x] other [OF x False] by simp
    ultimately show ?thesis by (simp add: put_cell_cells [OF shape])
  qed
  with len show ?thesis by (simp add: contents_def)
qed

lemma contents_push:
  assumes "ring_shape q n" and "contents q n h xs" and "length xs < n"
  shows "contents (put_cell q (h + length xs) (full_at (h + length xs) d)) n h (xs @ [d])"
  by (rule contents_put [OF assms(1,2), where z = "h + length xs"])
    (use assms(3) in \<open>auto simp: cell_def nth_append\<close>)

lemma contents_pop:
  assumes "ring_shape q n" and "contents q n h (d # ys)"
  shows "contents (put_cell q h (empty_at (h + n))) n (h + 1) ys"
proof -
  have "length ys < n" "0 < n" using assms shape_bounds [OF assms(1)] by (simp_all add: contents_def)
  then show ?thesis
    by (intro contents_put [OF assms, where z = "h + n"]) (auto simp: cell_def nth_Cons')
qed

lemma contents_exchange:
  assumes "ring_shape q n" and "contents q n h xs" and "h \<le> x" and "x < h + length xs"
    and "p mod n = x mod n"
  shows "contents (put_cell q p (full_at x d)) n h (xs[x - h := d])"
proof -
  have "length xs \<le> n" using assms(2) by (simp add: contents_def)
  with assms(3-5) show ?thesis
    by (intro contents_put [OF assms(1,2), where z = x]) (auto simp: cell_def nth_list_update)
qed

section \<open>What an entry tells about its position\<close>

text \<open>
  The entry at the cell of position \<open>x\<close> belongs to the position \<open>y\<close> of the window that shares the
  cell. The views assume that the index is not too old: fewer than half the index range of
  positions has been filled since, so that sequence words that look equal are equal.
\<close>

lemma cell_seen:
  assumes "ring_shape q n" and "contents q n h xs"
  obtains y where "h \<le> y" and "y < h + n" and "y mod n = x mod n" and "entry_at q (of_nat x) = Some (cell h xs y)"
proof -
  have "0 < n" by (rule shape_bounds [OF assms(1)])
  then obtain y where y: "h \<le> y" "y < h + n" "y mod n = x mod n" by (rule window_ex)
  then have "arr_cells (ring q) ! (x mod n) = cell h xs y"
    using contents_cell [OF assms(2), of y] by simp
  with y show ?thesis using that entry_at_position [OF assms(1), of x] by simp
qed

text \<open>The entry that a pusher at \<open>x\<close> finds holds the element at \<open>y\<close>, or none.\<close>

lemma push_view_full:
  fixes q :: "('v::zero, 'l::len) queue"
  assumes shape: "ring_shape q n" and cont: "contents q n h xs"
    and x: "x \<le> h + length xs" "h + length xs + n \<le> x + half_range TYPE('l)"
    and y: "h \<le> y" "y < h + n" "y mod n = x mod n" and full: "y < h + length xs"
  shows "case push_verdict (capacity q) (of_nat x) (get_seq (cell h xs y :: ('v, 'l) entry)) of
      Take \<Rightarrow> x = h + length xs \<and> length xs < n \<and> cell h xs y = (empty_at x :: ('v, 'l) entry)
    | Help \<Rightarrow> x < h + length xs
    | Refuse \<Rightarrow> length xs = n
    | Again \<Rightarrow> x + 1 < h + length xs"
proof -
  define t where "t = h + length xs"
  define m where "m = half_range TYPE('l)"
  have len: "length xs \<le> n" using cont by (simp add: contents_def)
  have n: "0 < n" "n < m" "LENGTH('l) \<le> 64" "capacity q = of_nat n"
    using shape_bounds [OF shape] by (simp_all add: m_def)
  have win: "x = y" if "a \<le> x" "x < a + n" "a \<le> y" "y < a + n" for a
    using window_inj [of x n y a] that y(3) by simp
  have True: "y < t" using full by (simp add: t_def)
  have a: "x < t" if "y mod m = x mod m"
  proof (rule ccontr)
    assume "\<not> x < t"
    with x(1) have "x = t" by (simp add: t_def)
    with mod_eq_close [of x m y] True len n(2) y(1) that show False by (simp add: t_def)
  qed
  have b: "length xs = n" if "(y + n) mod m = x mod m"
    using mod_eq_close [OF that] True x y len by (simp add: t_def m_def)
  have c: "y mod m = x mod m \<or> (y + n) mod m = x mod m" if "t \<le> x + 1"
  proof (cases "x = t")
    case xt: True
    then have "y \<noteq> x" using True by simp
    with win [of h] y xt len have "length xs = n" by (fastforce simp: t_def)
    with xt have x': "x = h + n" by (simp add: t_def)
    then have "y = h" using window_inj [of y n h h] y n(1) by simp
    with x' show ?thesis by simp
  next
    case False
    with that x(1) have "x + 1 = t" by (simp add: t_def)
    with win [of h] True y len have "y = x" by (simp add: t_def)
    then show ?thesis by simp
  qed
  have "(cell h xs y :: ('v, 'l) entry) = full_at y (xs ! (y - h))"
    using True by (simp add: cell_def t_def)
  moreover have "x + 1 < t" if "y mod m \<noteq> x mod m" "(y + n) mod m \<noteq> x mod m"
    using c that by linarith
  ultimately show ?thesis using a b
    unfolding n(4) t_def [symmetric] by (auto simp: push_verdict_cell(2) [OF n(3)] m_def [symmetric] not_less)
qed

lemma push_view_empty:
  fixes q :: "('v::zero, 'l::len) queue"
  assumes shape: "ring_shape q n" and cont: "contents q n h xs"
    and x: "x \<le> h + length xs" "h + length xs + n \<le> x + half_range TYPE('l)"
    and y: "h \<le> y" "y < h + n" "y mod n = x mod n" and empty: "\<not> y < h + length xs"
  shows "case push_verdict (capacity q) (of_nat x) (get_seq (cell h xs y :: ('v, 'l) entry)) of
      Take \<Rightarrow> x = h + length xs \<and> length xs < n \<and> cell h xs y = (empty_at x :: ('v, 'l) entry)
    | Help \<Rightarrow> x < h + length xs
    | Refuse \<Rightarrow> length xs = n
    | Again \<Rightarrow> x + 1 < h + length xs"
proof -
  define t where "t = h + length xs"
  define m where "m = half_range TYPE('l)"
  have len: "length xs \<le> n" using cont by (simp add: contents_def)
  have n: "0 < n" "n < m" "LENGTH('l) \<le> 64" "capacity q = of_nat n"
    using shape_bounds [OF shape] by (simp_all add: m_def)
  have win: "x = y" if "a \<le> x" "x < a + n" "a \<le> y" "y < a + n" for a
    using window_inj [of x n y a] that y(3) by simp
  have xn: "x + n = y" if "a \<le> x + n" "x + n < a + n" "a \<le> y" "y < a + n" for a
    using window_inj [of "x + n" n y a] that y(3) by simp
  have False: "\<not> y < t" using empty by (simp add: t_def)
  have a: "y = x \<and> x = t" if "y mod m = x mod m"
    using mod_eq_close [OF that] False x y by (simp add: t_def m_def)
  have b: "y = x" if "x = t"
    using win [of t] False y that by (simp add: t_def)
  have c: "y = x \<or> y = x + n" if "t \<le> x + 1"
    using b xn [of t] False x(1) y that n(1) by (cases "x = t") (auto simp: t_def)
  have d: "length xs < n" if "y = t" using y that by (simp add: t_def)
  have "(cell h xs y :: ('v, 'l) entry) = empty_at y"
    using False by (simp add: cell_def t_def)
  moreover have "x + 1 < t" if "y mod m \<noteq> x mod m" "y mod m \<noteq> (x + n) mod m"
    using c that by (metis not_less)
  moreover have "x < t" if "y mod m \<noteq> x mod m"
    using b that x(1) by (metis le_neq_implies_less t_def)
  ultimately show ?thesis using a d
    unfolding n(4) t_def [symmetric] by (auto simp: push_verdict_cell(1) [OF n(3)] m_def [symmetric])
qed

lemma push_view:
  fixes q :: "('v::zero, 'l::len) queue"
  assumes shape: "ring_shape q n" and cont: "contents q n h xs"
    and x: "x \<le> h + length xs" "h + length xs + n \<le> x + half_range TYPE('l)"
    and y: "h \<le> y" "y < h + n" "y mod n = x mod n"
  shows "case push_verdict (capacity q) (of_nat x) (get_seq (cell h xs y :: ('v, 'l) entry)) of
      Take \<Rightarrow> x = h + length xs \<and> length xs < n \<and> cell h xs y = (empty_at x :: ('v, 'l) entry)
    | Help \<Rightarrow> x < h + length xs
    | Refuse \<Rightarrow> length xs = n
    | Again \<Rightarrow> x + 1 < h + length xs"
  using push_view_full [OF assms] push_view_empty [OF assms] by (cases "y < h + length xs") simp_all

text \<open>The same for an index at or before the head; \<open>y\<close> is the position whose entry is seen.\<close>

lemma pop_position:
  fixes q :: "('v::zero, 'l::len) queue"
  assumes shape: "ring_shape q n"
    and x: "x \<le> h" "h + n \<le> x + half_range TYPE('l)"
    and y: "h \<le> y" "y < h + n" "y mod n = x mod n"
  defines "m \<equiv> half_range TYPE('l)"
  shows "y mod m = x mod m \<Longrightarrow> y = h \<and> x = h"
    and "y mod m = (x + n) mod m \<Longrightarrow> x < h"
    and "y mod m \<noteq> x mod m \<Longrightarrow> y mod m \<noteq> (x + n) mod m \<Longrightarrow> x + 1 < h"
    and "h \<le> x + 1 \<Longrightarrow> y = x \<or> y = x + n"
proof -
  have n: "0 < n" "n < m" using shape_bounds [OF shape] by (simp_all add: m_def)
  show same: "y = h \<and> x = h" if "y mod m = x mod m"
    using mod_eq_close [OF that] x y by (simp add: m_def)
  have head: "y = x" if "x = h"
    using window_inj [of y n x h] that y n(1) by simp
  show near: "y = x \<or> y = x + n" if "h \<le> x + 1"
  proof (cases "x = h")
    case True
    then show ?thesis using head by simp
  next
    case False
    then have "x + 1 = h" using that x(1) by simp
    then show ?thesis using window_inj [of y n "x + n" h] y n(1) by simp
  qed
  show "x < h" if "y mod m = (x + n) mod m"
  proof (rule ccontr)
    assume "\<not> x < h"
    then have "x = h" using x(1) by simp
    with head that have "(x + n) mod m = x mod m" by simp
    then have "x + n = x" by (rule mod_eq_close) (use n in auto)
    with n(1) show False by simp
  qed
  show "x + 1 < h" if "y mod m \<noteq> x mod m" "y mod m \<noteq> (x + n) mod m"
    using near that by (metis not_less)
qed

lemma pop_view:
  fixes q :: "('v::zero, 'l::len) queue"
  assumes shape: "ring_shape q n"
    and x: "x \<le> h" "h + n \<le> x + half_range TYPE('l)"
    and y: "h \<le> y" "y < h + n" "y mod n = x mod n"
  shows "case pop_verdict (capacity q) (of_nat x) (get_seq (cell h xs y :: ('v, 'l) entry)) of
      Take \<Rightarrow> x = h \<and> xs \<noteq> [] \<and> cell h xs y = (full_at h (hd xs) :: ('v, 'l) entry)
    | Help \<Rightarrow> x < h
    | Refuse \<Rightarrow> x = h \<and> xs = []
    | Again \<Rightarrow> x + 1 < h"
proof -
  have n: "LENGTH('l) \<le> 64" "capacity q = of_nat n" using shape_bounds [OF shape] by simp_all
  note pos = pop_position [OF shape x y]
  show ?thesis
  proof (cases "y < h + length xs")
    case True
    then have "(cell h xs y :: ('v, 'l) entry) = full_at y (xs ! (y - h))"
      by (simp add: cell_def)
    moreover have "xs \<noteq> []" using True y(1) by auto
    ultimately show ?thesis
      unfolding n(2) using pos(1,2,3) by (auto simp: pop_verdict_cell(1) [OF n(1)] hd_conv_nth)
  next
    case False
    then have "(cell h xs y :: ('v, 'l) entry) = empty_at y"
      by (simp add: cell_def)
    moreover have "y = h \<Longrightarrow> xs = []" using False by simp
    ultimately show ?thesis
      unfolding n(2) using pos(1,2,3) by (auto simp: pop_verdict_cell(2) [OF n(1)])
  qed
qed

text \<open>
  \<open>peek\<close> and \<open>pop_if\<close> recognise an outdated index only where the position after one round lies in
  the lower half of the index range: above it they look again.
\<close>

lemma peek_view:
  fixes q :: "('v::zero, 'l::len) queue"
  assumes shape: "ring_shape q n"
    and x: "x \<le> h" "h + n \<le> x + half_range TYPE('l)"
    and y: "h \<le> y" "y < h + n" "y mod n = x mod n"
  shows "case peek_verdict (capacity q) (of_nat x) (get_seq (cell h xs y :: ('v, 'l) entry)) of
      Take \<Rightarrow> x = h \<and> xs \<noteq> [] \<and> cell h xs y = (full_at h (hd xs) :: ('v, 'l) entry)
    | Help \<Rightarrow> x < h
    | Refuse \<Rightarrow> x = h \<and> xs = []
    | Again \<Rightarrow> x + 1 < h \<or> x + 1 = h \<and> half_range TYPE('l) \<le> (x + n) mod (2 * half_range TYPE('l))"
proof -
  let ?m = "half_range TYPE('l)"
  have n: "LENGTH('l) \<le> 64" "capacity q = of_nat n" using shape_bounds [OF shape] by simp_all
  note pos = pop_position [OF shape x y]
  have hlp: "x < h" if "y mod ?m = (x + n) mod (2 * ?m)"
  proof -
    have "(x + n) mod (2 * ?m) mod ?m = (x + n) mod ?m" by (simp add: mod_mod_cancel)
    with that have "y mod ?m = (x + n) mod ?m" by (metis mod_mod_trivial)
    then show ?thesis by (rule pos(2))
  qed
  have again: "x + 1 < h \<or> x + 1 = h \<and> ?m \<le> (x + n) mod (2 * ?m)"
    if "y mod ?m \<noteq> x mod ?m" "y mod ?m \<noteq> (x + n) mod (2 * ?m)"
  proof (cases "h \<le> x + 1")
    case True
    with pos(4) that(1) have y': "y = x + n" by blast
    have "(x + n) mod (2 * ?m) mod ?m = (x + n) mod ?m" by (simp add: mod_mod_cancel)
    with that(2) y' have "?m \<le> (x + n) mod (2 * ?m)" by (metis mod_less not_less)
    moreover have "x \<noteq> h"
    proof
      assume "x = h"
      with y y' have "n < n" by simp
      then show False by simp
    qed
    ultimately show ?thesis using True x(1) by auto
  qed simp
  show ?thesis
  proof (cases "y < h + length xs")
    case True
    then have "(cell h xs y :: ('v, 'l) entry) = full_at y (xs ! (y - h))"
      by (simp add: cell_def)
    moreover have "xs \<noteq> []" using True y(1) by auto
    ultimately show ?thesis
      unfolding n(2) using pos(1) hlp again by (auto simp: peek_verdict_cell(2) [OF n(1)] hd_conv_nth)
  next
    case False
    then have "(cell h xs y :: ('v, 'l) entry) = empty_at y"
      by (simp add: cell_def)
    moreover have "y = h \<Longrightarrow> xs = []" using False by simp
    ultimately show ?thesis
      unfolding n(2) using pos(1) hlp again by (auto simp: peek_verdict_cell(1) [OF n(1)])
  qed
qed

section \<open>Successful compare and exchange operations\<close>

text \<open>A swap succeeds only on behalf of the current tail or head, whatever happened since the load.\<close>

lemma push_cas_view:
  fixes q :: "('v::zero, 'l::len) queue"
  assumes shape: "ring_shape q n" and cont: "contents q n h xs"
    and x: "x \<le> h + length xs" "h + length xs + n \<le> x + half_range TYPE('l)"
    and eq: "arr_cells (ring q) ! (x mod n) = empty_at x"
  shows "x = h + length xs \<and> length xs < n"
proof -
  obtain y where y: "h \<le> y" "y < h + n" "y mod n = x mod n" "entry_at q (of_nat x) = Some (cell h xs y)"
    by (rule cell_seen [OF shape cont])
  with eq have c: "(cell h xs y :: ('v, 'l) entry) = empty_at x"
    by (simp add: entry_at_position [OF shape])
  then have "\<not> y < h + length xs" by (auto simp: cell_def full_neq_empty)
  moreover from this c have "y mod half_range TYPE('l) = x mod half_range TYPE('l)"
    by (simp add: cell_def empty_at_eq)
  ultimately show ?thesis using mod_eq_close [of y "half_range TYPE('l)" x] x y(1,2) by simp
qed

lemma pop_cas_view:
  fixes q :: "('v::zero, 'l::len) queue"
  assumes shape: "ring_shape q n" and cont: "contents q n h xs"
    and x: "x \<le> h" "h + n \<le> x + half_range TYPE('l)"
    and eq: "arr_cells (ring q) ! (x mod n) = full_at x d"
  shows "x = h \<and> xs \<noteq> [] \<and> hd xs = d"
proof -
  obtain y where y: "h \<le> y" "y < h + n" "y mod n = x mod n" "entry_at q (of_nat x) = Some (cell h xs y)"
    by (rule cell_seen [OF shape cont])
  with eq have c: "(cell h xs y :: ('v, 'l) entry) = full_at x d"
    by (simp add: entry_at_position [OF shape])
  then have full: "y < h + length xs" by (auto simp: cell_def full_neq_empty [symmetric] split: if_splits)
  with c have "y mod half_range TYPE('l) = x mod half_range TYPE('l)" "xs ! (y - h) = d"
    by (simp_all add: cell_def full_at_eq)
  with mod_eq_close [of y "half_range TYPE('l)" x] x y(1,2) full show ?thesis
    by (auto simp: hd_conv_nth)
qed

lemma exchange_cas_view:
  fixes q :: "('v::zero, 'l::len) queue"
  assumes shape: "ring_shape q n" and cont: "contents q n h xs"
  shows "arr_cells (ring q) ! (x mod n) = full_at x d \<longleftrightarrow>
    (\<exists>p < length xs. (h + p) mod half_range TYPE('l) = x mod half_range TYPE('l) \<and> xs ! p = d)"
proof -
  obtain y where y: "h \<le> y" "y < h + n" "y mod n = x mod n" "entry_at q (of_nat x) = Some (cell h xs y)"
    by (rule cell_seen [OF shape cont])
  then have c: "arr_cells (ring q) ! (x mod n) = cell h xs y"
    by (simp add: entry_at_position [OF shape])
  have len: "length xs \<le> n" using cont by (simp add: contents_def)
  have pos: "h + p = y" if "p < length xs" "(h + p) mod half_range TYPE('l) = x mod half_range TYPE('l)" for p
  proof -
    have "(h + p) mod n = x mod n"
      using that(2) shape_bounds(7) [OF shape] by (metis mod_mod_cancel)
    then show ?thesis using window_inj [of "h + p" n y h] y that(1) len by simp
  qed
  show ?thesis
  proof
    assume "arr_cells (ring q) ! (x mod n) = full_at x d"
    with c have "(cell h xs y :: ('v, 'l) entry) = full_at x d" by simp
    then have "y < h + length xs" and "y mod half_range TYPE('l) = x mod half_range TYPE('l)" and "xs ! (y - h) = d"
      by (auto simp: cell_def full_at_eq full_neq_empty [symmetric] split: if_splits)
    with y(1) show "\<exists>p < length xs. (h + p) mod half_range TYPE('l) = x mod half_range TYPE('l) \<and> xs ! p = d"
      by (intro exI [of _ "y - h"]) auto
  next
    assume "\<exists>p < length xs. (h + p) mod half_range TYPE('l) = x mod half_range TYPE('l) \<and> xs ! p = d"
    then obtain p where p: "p < length xs" "(h + p) mod half_range TYPE('l) = x mod half_range TYPE('l)" "xs ! p = d"
      by blast
    with pos have "y = h + p" by simp
    with p c show "arr_cells (ring q) ! (x mod n) = full_at x d"
      by (simp add: cell_def full_at_eq)
  qed
qed

text \<open>Moving an index: the compare and exchange succeeds exactly when the index has not moved since.\<close>

lemma cas_write_index_position:
  fixes q :: "('v, 'l::len) queue"
  assumes "write_index q = of_nat w" and "x \<le> w" and "w < x + 2 * half_range TYPE('l)"
  shows "cas_write_index (of_nat x) (of_nat x + 1) q = q\<lparr>write_index := of_nat (if w = x then w + 1 else w)\<rparr>"
proof -
  have "(of_nat w :: 'l word) = of_nat x \<longleftrightarrow> w = x"
    unfolding of_nat_word_eq using mod_eq_close assms(2,3) by blast
  then show ?thesis by (simp add: cas_write_index_def compare_exchange_def assms(1))
qed

lemma cas_read_index_position:
  fixes q :: "('v, 'l::len) queue"
  assumes "read_index q = of_nat r" and "x \<le> r" and "r < x + 2 * half_range TYPE('l)"
  shows "cas_read_index (of_nat x) (of_nat x + 1) q = q\<lparr>read_index := of_nat (if r = x then r + 1 else r)\<rparr>"
proof -
  have "(of_nat r :: 'l word) = of_nat x \<longleftrightarrow> r = x"
    unfolding of_nat_word_eq using mod_eq_close assms(2,3) by blast
  then show ?thesis by (simp add: cas_read_index_def compare_exchange_def assms(1))
qed

end
