(* ===== verification/Fifo.thy ===== *)
theory Fifo
  imports Loops
begin

text \<open>
  The interfaces of a bounded queue: what a client of \<^verbatim>\<open>push\<close> and \<^verbatim>\<open>pop\<close> may rely on (locale
  \<open>fifo\<close>), the overloads that report the position of the element (locale \<open>indexed_fifo\<close>), and the
  client loops of the library proved once against them: draining, keeping the last elements,
  consuming, filling and emptying. The representation \<open>repr q h xs\<close> reads: the queue \<open>q\<close> holds
  \<open>xs\<close>, and \<open>h\<close> elements have been removed from it so far.
\<close>

section \<open>The contract of push and pop\<close>

locale fifo =
  fixes push :: "'v \<Rightarrow> 'q \<Rightarrow> (bool \<times> 'q) option"
    and pop :: "'v \<Rightarrow> 'q \<Rightarrow> (bool \<times> 'v \<times> 'q) option"
    and repr :: "'q \<Rightarrow> nat \<Rightarrow> 'v list \<Rightarrow> bool"
    and cap :: nat
  assumes repr_bound: "repr q h xs \<Longrightarrow> length xs \<le> cap \<and> 0 < cap"
    and push_room: "repr q h xs \<Longrightarrow> length xs < cap \<Longrightarrow> \<exists>q'. push d q = Some (True, q') \<and> repr q' h (xs @ [d])"
    and push_full: "repr q h xs \<Longrightarrow> length xs = cap \<Longrightarrow> \<exists>q'. push d q = Some (False, q') \<and> repr q' h xs"
    and pop_some: "repr q h (x # xs) \<Longrightarrow> \<exists>q'. pop d q = Some (True, x, q') \<and> repr q' (h + 1) xs"
    and pop_none: "repr q h [] \<Longrightarrow> \<exists>q'. pop d q = Some (False, d, q') \<and> repr q' h []"
begin

lemma push_cases:
  assumes "repr q h xs"
  obtains (room) q' where "length xs < cap" and "push d q = Some (True, q')" and "repr q' h (xs @ [d])"
    | (full) q' where "length xs = cap" and "push d q = Some (False, q')" and "repr q' h xs"
proof (cases "length xs < cap")
  case True
  with push_room [OF assms True, of d] show ?thesis using that(1) by blast
next
  case False
  with repr_bound [OF assms] have "length xs = cap" by simp
  with push_full [OF assms this, of d] show ?thesis using that(2) by blast
qed

lemma pop_cases:
  assumes "repr q h xs"
  obtains (some) x ys q' where "xs = x # ys" and "pop d q = Some (True, x, q')" and "repr q' (h + 1) ys"
    | (none) q' where "xs = []" and "pop d q = Some (False, d, q')" and "repr q' h []"
proof (cases xs)
  case Nil
  with pop_none [of q h d] assms show ?thesis using that(2) by blast
next
  case (Cons x ys)
  with pop_some [of q h x ys d] assms show ?thesis using that(1) by blast
qed

text \<open>Popping until the queue reports that it is empty.\<close>

lemma drain:
  assumes body: "\<And>v q. body (v, q) =
      (case pop v q of None \<Rightarrow> None | Some (popped, v', q') \<Rightarrow> Some (if popped then Loop (v', q') else Return q'))"
    and "repr q h xs"
  shows "\<exists>q'. spin body (v, q) = Some q' \<and> repr q' (h + length xs) []"
  using assms(2)
proof (induction xs arbitrary: q h v)
  case Nil
  then obtain q' where "pop v q = Some (False, v, q')" "repr q' h []"
    using pop_none by blast
  then show ?case by (simp add: spin_Return body)
next
  case (Cons x xs)
  then obtain q' where q': "pop v q = Some (True, x, q')" "repr q' (h + 1) xs"
    using pop_some by blast
  then have "spin body (v, q) = spin body (x, q')" by (simp add: spin_Loop body)
  with Cons.IH [OF q'(2), of x] show ?case by simp
qed

text \<open>Pushing, and making room by dropping the head when the queue is full.\<close>

lemma keep_last:
  assumes body: "\<And>q. body q =
      (case push d q of None \<Rightarrow> None
       | Some (pushed, q') \<Rightarrow> if pushed then Some (Return (True, q'))
           else (case pop junk q' of None \<Rightarrow> None | Some (_, _, q'') \<Rightarrow> Some (Loop q'')))"
    and repr: "repr q h xs"
  shows "\<exists>q'. spin body q = Some (True, q') \<and>
    (if length xs < cap then repr q' h (xs @ [d]) else repr q' (h + 1) (tl xs @ [d]))"
  using repr
proof (cases rule: push_cases [where d = d])
  case (room q')
  then show ?thesis by (simp add: spin_Return body)
next
  case (full q')
  then have "xs \<noteq> []" using repr_bound [OF repr] by auto
  then obtain x ys where xs: "xs = x # ys" by (cases xs) auto
  with full(3) obtain q2 where q2: "pop junk q' = Some (True, x, q2)" "repr q2 (h + 1) ys"
    using pop_some by blast
  have len: "length ys < cap" using full(1) xs by simp
  obtain q3 where q3: "push d q2 = Some (True, q3)" "repr q3 (h + 1) (ys @ [d])"
    using push_room [OF q2(2) len] by blast
  have "spin body q = spin body q2" using full(2) q2(1) by (simp add: spin_Loop body)
  also have "\<dots> = Some (True, q3)" using q3(1) by (simp add: spin_Return body)
  finally show ?thesis using q3(2) full(1) xs by simp
qed

end

section \<open>Filling and emptying\<close>

text \<open>Pushing the elements of a list in turn, and popping \<open>k\<close> times; the results of all calls.\<close>

fun push_all :: "('v \<Rightarrow> 'q \<Rightarrow> (bool \<times> 'q) option) \<Rightarrow> 'v list \<Rightarrow> 'q \<Rightarrow> (bool list \<times> 'q) option" where
  "push_all push [] q = Some ([], q)"
| "push_all push (d # ds) q =
     Option.bind (push d q) (\<lambda>(b, q'). map_option (\<lambda>(bs, q''). (b # bs, q'')) (push_all push ds q'))"

fun pop_all :: "('v \<Rightarrow> 'q \<Rightarrow> (bool \<times> 'v \<times> 'q) option) \<Rightarrow> 'v \<Rightarrow> nat \<Rightarrow> 'q \<Rightarrow> ((bool \<times> 'v) list \<times> 'q) option" where
  "pop_all pop v 0 q = Some ([], q)"
| "pop_all pop v (Suc k) q =
     Option.bind (pop v q) (\<lambda>(b, v', q'). map_option (\<lambda>(bs, q''). ((b, v') # bs, q'')) (pop_all pop v' k q'))"

text \<open>Pushing the elements of a list in turn with an operation that always succeeds.\<close>

fun keep_all :: "('v \<Rightarrow> 'q \<Rightarrow> (bool \<times> 'q) option) \<Rightarrow> 'v list \<Rightarrow> 'q \<Rightarrow> 'q option" where
  "keep_all keep [] q = Some q"
| "keep_all keep (d # ds) q = Option.bind (keep d q) (\<lambda>(b, q'). keep_all keep ds q')"

context fifo
begin

lemma push_all_room:
  assumes "repr q h xs" and "length xs + length ds \<le> cap"
  shows "\<exists>q'. push_all push ds q = Some (replicate (length ds) True, q') \<and> repr q' h (xs @ ds)"
  using assms
proof (induction ds arbitrary: q xs)
  case Nil
  then show ?case by simp
next
  case (Cons d ds)
  then obtain q' where q': "push d q = Some (True, q')" "repr q' h (xs @ [d])"
    using push_room [of q h xs d] by auto
  with Cons.IH [of q' "xs @ [d]"] Cons.prems(2) show ?case by auto
qed

lemma push_all_full:
  assumes "repr q h xs" and "length xs = cap"
  shows "\<exists>q'. push_all push ds q = Some (replicate (length ds) False, q') \<and> repr q' h xs"
  using assms
proof (induction ds arbitrary: q)
  case Nil
  then show ?case by simp
next
  case (Cons d ds)
  then obtain q' where q': "push d q = Some (False, q')" "repr q' h xs"
    using push_full [of q h xs d] by auto
  with Cons.IH [of q'] Cons.prems(2) show ?case by auto
qed

lemma push_all_append:
  assumes "push_all push ds q = Some (bs, q')" and "push_all push es q' = Some (cs, q'')"
  shows "push_all push (ds @ es) q = Some (bs @ cs, q'')"
  using assms
proof (induction ds arbitrary: q bs)
  case (Cons d ds)
  then obtain b q1 bs' where "push d q = Some (b, q1)" "push_all push ds q1 = Some (bs', q')" "bs = b # bs'"
    by (auto simp: bind_eq_Some_conv)
  with Cons.IH [of q1 bs'] Cons.prems(2) show ?case by simp
qed simp

text \<open>Of any number of pushes, exactly those that fit succeed, and the first of them stay.\<close>

lemma push_all_any:
  assumes "repr q h xs"
  shows "\<exists>q'. push_all push ds q =
      Some (replicate (min (length ds) (cap - length xs)) True @ replicate (length ds - (cap - length xs)) False, q') \<and>
    repr q' h (xs @ take (cap - length xs) ds)"
proof -
  let ?k = "cap - length xs"
  have bound: "length xs \<le> cap" using repr_bound [OF assms] by simp
  have "length xs + length (take ?k ds) \<le> cap" using bound by auto
  from push_all_room [OF assms this] obtain q1
    where q1: "push_all push (take ?k ds) q = Some (replicate (length (take ?k ds)) True, q1)"
      "repr q1 h (xs @ take ?k ds)" by blast
  have "\<exists>q'. push_all push (drop ?k ds) q1 = Some (replicate (length (drop ?k ds)) False, q') \<and> repr q' h (xs @ take ?k ds)"
  proof (cases "length ds \<le> ?k")
    case True
    then show ?thesis using q1(2) by simp
  next
    case False
    then have "length (xs @ take ?k ds) = cap" using bound by simp
    then show ?thesis by (rule push_all_full [OF q1(2)])
  qed
  then obtain q2 where q2: "push_all push (drop ?k ds) q1 = Some (replicate (length (drop ?k ds)) False, q2)"
    "repr q2 h (xs @ take ?k ds)" by blast
  from push_all_append [OF q1(1) q2(1)] q2(2) show ?thesis by (simp add: min.commute)
qed

lemma pop_all_some:
  assumes "repr q h (xs @ ys)"
  shows "\<exists>q'. pop_all pop v (length xs) q = Some (map (Pair True) xs, q') \<and> repr q' (h + length xs) ys"
  using assms
proof (induction xs arbitrary: q h v)
  case Nil
  then show ?case by simp
next
  case (Cons x xs)
  then obtain q' where q': "pop v q = Some (True, x, q')" "repr q' (h + 1) (xs @ ys)"
    using pop_some [of q h x "xs @ ys" v] by auto
  with Cons.IH [of q' "h + 1" x] show ?case by auto
qed

lemma fill_and_empty:
  assumes "repr q h []" and "length ds \<le> cap"
  shows "\<exists>q' q''. push_all push ds q = Some (replicate (length ds) True, q') \<and>
    pop_all pop v (length ds) q' = Some (map (Pair True) ds, q'') \<and> repr q'' (h + length ds) []"
proof -
  obtain q' where q': "push_all push ds q = Some (replicate (length ds) True, q')" "repr q' h (ds @ [])"
    using push_all_room [OF assms(1), of ds] assms(2) by auto
  from pop_all_some [OF q'(2), of v] q'(1) show ?thesis by blast
qed

end

section \<open>The overloads that report positions\<close>

locale indexed_fifo = fifo push pop repr cap
  for push :: "'v \<Rightarrow> 'q \<Rightarrow> (bool \<times> 'q) option" and pop :: "'v \<Rightarrow> 'q \<Rightarrow> (bool \<times> 'v \<times> 'q) option"
    and repr :: "'q \<Rightarrow> nat \<Rightarrow> 'v list \<Rightarrow> bool" and cap :: nat +
  fixes push_index :: "'v \<Rightarrow> 'i \<Rightarrow> 'q \<Rightarrow> (bool \<times> 'i \<times> 'q) option"
    and pop_index :: "'v \<Rightarrow> 'i \<Rightarrow> 'q \<Rightarrow> (bool \<times> 'v \<times> 'i \<times> 'q) option"
    and ix :: "nat \<Rightarrow> 'i"
  assumes push_index_room: "repr q h xs \<Longrightarrow> length xs < cap \<Longrightarrow>
      \<exists>q'. push_index d i q = Some (True, ix (h + length xs), q') \<and> repr q' h (xs @ [d])"
    and push_index_full: "repr q h xs \<Longrightarrow> length xs = cap \<Longrightarrow>
      \<exists>q'. push_index d i q = Some (False, i, q') \<and> repr q' h xs"
    and pop_index_some: "repr q h (x # xs) \<Longrightarrow>
      \<exists>q'. pop_index d i q = Some (True, x, ix h, q') \<and> repr q' (h + 1) xs"
    and pop_index_none: "repr q h [] \<Longrightarrow>
      \<exists>q'. pop_index d i q = Some (False, d, i, q') \<and> repr q' h []"

text \<open>
  What \<^verbatim>\<open>consume\<close> promises, on the list of elements: it hands them over in order with their
  positions and stops after the first one the functor accepts.
\<close>

fun consume_list ::
  "('v \<Rightarrow> 'i \<Rightarrow> 's \<Rightarrow> bool \<times> 's) \<Rightarrow> (nat \<Rightarrow> 'i) \<Rightarrow> nat \<Rightarrow> 's \<Rightarrow> 'v list \<Rightarrow> nat \<times> 's" where
  "consume_list f ix h s [] = (0, s)"
| "consume_list f ix h s (x # xs) =
     (let (stop, s') = f x (ix h) s
      in if stop then (1, s') else (let (k, s'') = consume_list f ix (h + 1) s' xs in (k + 1, s'')))"

lemma consume_list_bound: "fst (consume_list f ix h s xs) \<le> length xs"
proof (induction xs arbitrary: h s)
  case (Cons x xs)
  obtain stop s' where "f x (ix h) s = (stop, s')" by fastforce
  then show ?case using Cons.IH [of "h + 1" s'] by (simp add: split_beta)
qed simp

context indexed_fifo
begin

lemma keep_last_index:
  assumes body: "\<And>i q. body (i, q) =
      (case push_index d i q of None \<Rightarrow> None
       | Some (pushed, i', q') \<Rightarrow> if pushed then Some (Return (True, i', q'))
           else (case pop junk q' of None \<Rightarrow> None | Some (_, _, q'') \<Rightarrow> Some (Loop (i', q''))))"
    and repr: "repr q h xs"
  shows "\<exists>q'. spin body (i, q) = Some (True, ix (if length xs < cap then h + length xs else h + cap), q') \<and>
    (if length xs < cap then repr q' h (xs @ [d]) else repr q' (h + 1) (tl xs @ [d]))"
proof (cases "length xs < cap")
  case True
  with push_index_room [OF repr True, of d i] show ?thesis by (auto simp: spin_Return body)
next
  case False
  with repr_bound [OF repr] have len: "length xs = cap" "0 < cap" by simp_all
  then obtain x ys where xs: "xs = x # ys" by (cases xs) auto
  obtain q1 where q1: "push_index d i q = Some (False, i, q1)" "repr q1 h (x # ys)"
    using push_index_full [OF repr len(1), of d i] xs by auto
  obtain q2 where q2: "pop junk q1 = Some (True, x, q2)" "repr q2 (h + 1) ys"
    using pop_some [OF q1(2), of junk] by auto
  have "length ys < cap" using len xs by simp
  from push_index_room [OF q2(2) this, of d i] obtain q3
    where q3: "push_index d i q2 = Some (True, ix (h + 1 + length ys), q3)" "repr q3 (h + 1) (ys @ [d])"
    by auto
  have "spin body (i, q) = spin body (i, q2)" using q1(1) q2(1) by (simp add: spin_Loop body)
  also have "\<dots> = Some (True, ix (h + 1 + length ys), q3)" using q3(1) by (simp add: spin_Return body)
  finally show ?thesis using q3(2) len xs by auto
qed

lemma consume_loop:
  fixes r :: "'c::semiring_1"
  assumes body: "\<And>r v i s q. body (r, v, i, s, q) =
      (case pop_index v i q of None \<Rightarrow> None
       | Some (popped, v', i', q') \<Rightarrow>
           if \<not> popped then Some (Return (r, s, q'))
           else (let (stop, s') = f v' i' s
                 in if stop then Some (Return (r + 1, s', q')) else Some (Loop (r + 1, v', i', s', q'))))"
    and repr: "repr q h xs"
  shows "\<exists>q'. spin body (r, v, i, s, q) =
      Some (r + of_nat (fst (consume_list f ix h s xs)), snd (consume_list f ix h s xs), q') \<and>
    repr q' (h + fst (consume_list f ix h s xs)) (drop (fst (consume_list f ix h s xs)) xs)"
  using repr
proof (induction xs arbitrary: q h r v i s)
  case Nil
  from pop_index_none [OF this, of v i] show ?case by (auto simp: spin_Return body)
next
  case (Cons x xs)
  obtain q' where q': "pop_index v i q = Some (True, x, ix h, q')" "repr q' (h + 1) xs"
    using pop_index_some [OF Cons.prems, of v i] by blast
  obtain stop s' where f: "f x (ix h) s = (stop, s')" by fastforce
  show ?case
  proof (cases stop)
    case True
    then show ?thesis using q' f by (simp add: spin_Return body)
  next
    case False
    then have "spin body (r, v, i, s, q) = spin body (r + 1, x, ix h, s', q')"
      using q' f by (simp add: spin_Loop body)
    with Cons.IH [OF q'(2), of "r + 1" x "ix h" s'] f False show ?thesis
      by (auto simp: split_beta add.assoc)
  qed
qed

end

end
