(* ===== verification/MpmcCorrect.thy ===== *)
theory MpmcCorrect
  imports Ring Fifo
begin

text \<open>
  Correctness of the sequential operations of \<^verbatim>\<open>mpmc_queue\<close>: what each member function does to
  the represented queue, on every branch, and that it returns. Each operation's loop is first
  analysed for one trip (the \<open>trip\<close> lemmas), then composed.
\<close>

section \<open>How the representation changes\<close>

lemma shape_update [simp]:
  "ring_shape (q\<lparr>write_index := i\<rparr>) n = ring_shape q n"
  "ring_shape (q\<lparr>read_index := i\<rparr>) n = ring_shape q n"
  by (simp_all add: ring_shape_def capacity_def)

lemma contents_update [simp]:
  "contents (q\<lparr>write_index := i\<rparr>) n h xs = contents q n h xs"
  "contents (q\<lparr>read_index := i\<rparr>) n h xs = contents q n h xs"
  by (simp_all add: contents_def)

lemma rep_length: "rep q n w r h xs \<Longrightarrow> length xs \<le> n"
  by (simp add: rep_def contents_def)

lemma rep_shape: "rep q n w r h xs \<Longrightarrow> ring_shape q n"
  by (simp add: rep_def)

lemma rep_contents: "rep q n w r h xs \<Longrightarrow> contents q n h xs"
  by (simp add: rep_def)

lemma rep_indexes:
  assumes "rep q n w r h xs"
  shows "write_index q = of_nat w" and "w \<le> h + length xs" and "h + length xs \<le> w + 1"
    and "read_index q = of_nat r" and "r \<le> h" and "h \<le> r + 1"
  using assms by (simp_all add: rep_def indexes_def)

text \<open>The current indexes are recent enough for the views.\<close>

lemma rep_recent:
  assumes "rep (q :: ('v::zero, 'l::len) queue) n w r h xs"
  shows "h + length xs + n \<le> w + half_range TYPE('l)" and "h + n \<le> r + half_range TYPE('l)"
  using rep_indexes [OF assms] shape_bounds [OF rep_shape [OF assms]] by linarith+

lemma rep_push:
  assumes "rep q n w r h xs" and "w = h + length xs" and "length xs < n"
  shows "rep (put_cell q w (full_at w d)) n w r h (xs @ [d])"
  using contents_push [of q n h xs d] rep_indexes [OF assms(1)] assms
  by (simp add: rep_def indexes_def put_cell_shape)

lemma rep_pop:
  assumes "rep q n w r h (d # ys)" and "r = h"
  shows "rep (put_cell q h (empty_at (h + n))) n w r (h + 1) ys"
  using contents_pop [of q n h d ys] rep_indexes [OF assms(1)] assms
  by (simp add: rep_def indexes_def put_cell_shape)

lemma rep_set_write:
  assumes "rep q n w r h xs" and "w < h + length xs"
  shows "rep (q\<lparr>write_index := of_nat (w + 1)\<rparr>) n (w + 1) r h xs"
  using rep_indexes [OF assms(1)] assms by (simp add: rep_def indexes_def)

lemma rep_set_read:
  assumes "rep q n w r h xs" and "r < h"
  shows "rep (q\<lparr>read_index := of_nat (r + 1)\<rparr>) n w (r + 1) h xs"
  using rep_indexes [OF assms(1)] assms by (simp add: rep_def indexes_def)

lemma rep_cas_write:
  assumes "rep q n w r h xs" and "w < h + length xs"
  shows "rep (cas_write_index (of_nat w) (of_nat w + 1) q) n (w + 1) r h xs"
  using rep_set_write [OF assms] cas_write_index_position [of q w w] rep_indexes(1) [OF assms(1)] by simp

lemma rep_cas_read:
  assumes "rep q n w r h xs" and "r < h"
  shows "rep (cas_read_index (of_nat r) (of_nat r + 1) q) n w (r + 1) h xs"
  using rep_set_read [OF assms] cas_read_index_position [of q r r] rep_indexes(4) [OF assms(1)] by simp

section \<open>Push\<close>

text \<open>What one trip through the push loop sees and does.\<close>

lemma push_sees:
  fixes q :: "('v::zero, 'l::len) queue"
  assumes rep: "rep q n w r h xs"
  obtains e where "entry_at q (write_index q) = Some e" and "arr_cells (ring q) ! (w mod n) = e"
    and "case push_verdict (capacity q) (of_nat w) (get_seq e) of
           Take \<Rightarrow> w = h + length xs \<and> length xs < n \<and> e = empty_at w
         | Help \<Rightarrow> w < h + length xs | Refuse \<Rightarrow> length xs = n | Again \<Rightarrow> False"
proof -
  note ix = rep_indexes [OF rep]
  obtain y where y: "h \<le> y" "y < h + n" "y mod n = w mod n" "entry_at q (of_nat w) = Some (cell h xs y)"
    by (rule cell_seen [OF rep_shape [OF rep] rep_contents [OF rep]])
  then have "arr_cells (ring q) ! (w mod n) = cell h xs y"
    by (simp add: entry_at_position [OF rep_shape [OF rep]])
  moreover note push_view [OF rep_shape [OF rep] rep_contents [OF rep] ix(2) rep_recent(1) [OF rep] y(1-3)]
  ultimately show ?thesis
    using that [of "cell h xs y"] y(4) ix by (fastforce split: verdict.splits)
qed

lemma push_index_trip:
  fixes q :: "('v::zero, 'l::len) queue"
  assumes rep: "rep q n w r h xs"
  shows "(\<exists>q'. push_index_body lp d i q = Some (Return (True, of_nat (h + length xs), q')) \<and> length xs < n \<and>
            rep q' n (if lp then h + length xs else h + length xs + 1) r h (xs @ [d])) \<or>
         push_index_body lp d i q = Some (Return (False, i, q)) \<and> length xs = n \<or>
         (\<exists>q'. push_index_body lp d i q = Some (Loop q') \<and> w < h + length xs \<and> rep q' n (w + 1) r h xs)"
proof -
  note shape = rep_shape [OF rep]
  note ix = rep_indexes [OF rep]
  obtain e where e: "entry_at q (write_index q) = Some e" "arr_cells (ring q) ! (w mod n) = e"
    and v: "case push_verdict (capacity q) (of_nat w) (get_seq e) of
           Take \<Rightarrow> w = h + length xs \<and> length xs < n \<and> e = empty_at w
         | Help \<Rightarrow> w < h + length xs | Refuse \<Rightarrow> length xs = n | Again \<Rightarrow> False"
    by (rule push_sees [OF rep])
  show ?thesis
  proof (cases "push_verdict (capacity q) (of_nat w) (get_seq e)")
    case Take
    with v have w: "w = h + length xs" "length xs < n" "e = empty_at w" by simp_all
    define q1 where "q1 = put_cell q w (full_at w d)"
    have q1: "rep q1 n w r h (xs @ [d])" unfolding q1_def by (rule rep_push [OF rep w(1,2)])
    then have "rep (if \<not> lp then cas_write_index (of_nat w) (of_nat w + 1) q1 else q1) n
        (if lp then h + length xs else h + length xs + 1) r h (xs @ [d])"
      using rep_cas_write [OF q1] w(1) by simp
    moreover have "push_index_body lp d i q = Some (Return (True, of_nat w,
        if \<not> lp then cas_write_index (of_nat w) (of_nat w + 1) q1 else q1))"
      using Take e w(3) ix(1)
      by (simp add: push_index_body_def Let_def entry_of_seq_at entry_of_at cas_entry_position [OF shape] q1_def)
    ultimately show ?thesis using w(1,2) by blast
  next
    case Help
    with v have "w < h + length xs" by simp
    moreover have "push_index_body lp d i q = Some (Loop (cas_write_index (of_nat w) (of_nat w + 1) q))"
      using Help e(1) ix(1) by (simp add: push_index_body_def Let_def)
    ultimately show ?thesis using rep_cas_write [OF rep] by blast
  next
    case Refuse
    then show ?thesis using v e(1) ix(1) by (simp add: push_index_body_def Let_def)
  next
    case Again
    then show ?thesis using v by simp
  qed
qed

text \<open>The two overloads run the same loop.\<close>

lemma push_body_index:
  "push_body lp d q = map_option (map_turn (\<lambda>(b, _, q'). (b, q')) id) (push_index_body lp d i q)"
  by (simp add: push_body_def push_index_body_def Let_def split: option.split verdict.split)

lemma push_push_index:
  "push lp d q = map_option (\<lambda>(b, _, q'). (b, q')) (push_index lp d i q)"
proof -
  have "rel_option (\<lambda>x y. y = (\<lambda>(b, _, q'). (b, q')) x) (spin (push_index_body lp d i) q) (spin (push_body lp d) q)"
  proof (rule spin_sim [where R = "(=)"])
    fix s t :: "('a, 'b) queue"
    assume "s = t"
    then show "rel_option (rel_turn (\<lambda>x y. y = (\<lambda>(b, _, q'). (b, q')) x) (=)) (push_index_body lp d i s) (push_body lp d t)"
      unfolding push_body_index [of lp d t i]
      by (cases "push_index_body lp d i t") (auto simp: turn.rel_map intro: turn.rel_refl_strong)
  qed simp
  then show ?thesis
    by (cases "push_index lp d i q") (auto simp: push_def push_index_def option_rel_Some1)
qed

lemma push_index_correct:
  fixes q :: "('v::zero, 'l::len) queue"
  assumes rep: "rep q n w r h xs"
  shows "length xs < n \<Longrightarrow> \<exists>q'. push_index lp d i q = Some (True, of_nat (h + length xs), q') \<and>
           rep q' n (if lp then h + length xs else h + length xs + 1) r h (xs @ [d])" (is "_ \<Longrightarrow> ?room")
    and "length xs = n \<Longrightarrow> \<exists>w' q'. push_index lp d i q = Some (False, i, q') \<and> w \<le> w' \<and> rep q' n w' r h xs"
      (is "_ \<Longrightarrow> ?full")
proof -
  have "length xs < n \<and> ?room \<or> length xs = n \<and> ?full"
    using push_index_trip [OF rep, of lp d i]
  proof (elim disjE)
    assume "\<exists>q'. push_index_body lp d i q = Some (Loop q') \<and> w < h + length xs \<and> rep q' n (w + 1) r h xs"
    then obtain q' where q': "push_index_body lp d i q = Some (Loop q')" "rep q' n (w + 1) r h xs"
      and w: "w + 1 = h + length xs"
      using rep_indexes(3) [OF rep] by force
    from push_index_trip [OF q'(2), of lp d i] w show ?thesis
      unfolding push_index_def spin_Loop [of "push_index_body lp d i", OF q'(1)]
      using rep_length [OF rep] q'(2) by (auto simp: spin_Return)
  qed (use rep in \<open>auto simp: push_index_def spin_Return\<close>)
  then show "length xs < n \<Longrightarrow> ?room" and "length xs = n \<Longrightarrow> ?full" by simp_all
qed

lemma push_correct:
  fixes q :: "('v::zero, 'l::len) queue"
  assumes rep: "rep q n w r h xs"
  shows "length xs < n \<Longrightarrow> \<exists>q'. push lp d q = Some (True, q') \<and>
           rep q' n (if lp then h + length xs else h + length xs + 1) r h (xs @ [d])"
    and "length xs = n \<Longrightarrow> \<exists>w' q'. push lp d q = Some (False, q') \<and> w \<le> w' \<and> rep q' n w' r h xs"
proof -
  note pp = push_push_index [of lp d q 0]
  show "\<exists>q'. push lp d q = Some (True, q') \<and>
      rep q' n (if lp then h + length xs else h + length xs + 1) r h (xs @ [d])" if "length xs < n"
    using push_index_correct(1) [OF rep that, of lp d 0] pp by force
  show "\<exists>w' q'. push lp d q = Some (False, q') \<and> w \<le> w' \<and> rep q' n w' r h xs" if "length xs = n"
    using push_index_correct(2) [OF rep that, of lp d 0] pp by force
qed

section \<open>Pop\<close>

lemma pop_sees:
  fixes q :: "('v::zero, 'l::len) queue"
  assumes rep: "rep q n w r h xs"
  obtains e where "entry_at q (of_nat r) = Some e" and "arr_cells (ring q) ! (r mod n) = e"
    and "case pop_verdict (capacity q) (of_nat r) (get_seq e) of
           Take \<Rightarrow> r = h \<and> xs \<noteq> [] \<and> e = full_at h (hd xs)
         | Help \<Rightarrow> r < h | Refuse \<Rightarrow> r = h \<and> xs = [] | Again \<Rightarrow> False"
    and "case peek_verdict (capacity q) (of_nat r) (get_seq e) of
           Take \<Rightarrow> r = h \<and> xs \<noteq> [] \<and> e = full_at h (hd xs)
         | Help \<Rightarrow> r < h | Refuse \<Rightarrow> r = h \<and> xs = []
         | Again \<Rightarrow> r < h \<and> half_range TYPE('l) \<le> (r + n) mod (2 * half_range TYPE('l))"
proof -
  note ix = rep_indexes [OF rep]
  obtain y where y: "h \<le> y" "y < h + n" "y mod n = r mod n" "entry_at q (of_nat r) = Some (cell h xs y)"
    by (rule cell_seen [OF rep_shape [OF rep] rep_contents [OF rep]])
  then have "arr_cells (ring q) ! (r mod n) = cell h xs y"
    by (simp add: entry_at_position [OF rep_shape [OF rep]])
  moreover note pop_view [OF rep_shape [OF rep] ix(5) rep_recent(2) [OF rep] y(1-3), of xs]
    and peek_view [OF rep_shape [OF rep] ix(5) rep_recent(2) [OF rep] y(1-3), of xs]
  ultimately show ?thesis
    using that [of "cell h xs y"] y(4) ix(6) by (fastforce split: verdict.splits)
qed

lemma pop_take:
  fixes q :: "('v::zero, 'l::len) queue"
  assumes rep: "rep q n w r h xs" and "r = h" and "xs \<noteq> []"
    and e: "arr_cells (ring q) ! (r mod n) = full_at h (hd xs)"
  defines "q1 \<equiv> put_cell q h (empty_at (h + n))"
  shows "cas_entry q (of_nat r) (full_at h (hd xs)) (entry_of_seq (seq_next_empty (capacity q) (of_nat r))) = Some (True, q1)"
    and "read_index q1 = of_nat r"
    and "rep (if \<not> lo then cas_read_index (of_nat r) (of_nat r + 1) q1 else q1) n w (if lo then h else h + 1) (h + 1) (tl xs)"
proof -
  note shape = rep_shape [OF rep]
  obtain x ys where xs: "xs = x # ys" using assms(3) by (cases xs) auto
  show "cas_entry q (of_nat r) (full_at h (hd xs)) (entry_of_seq (seq_next_empty (capacity q) (of_nat r))) = Some (True, q1)"
    unfolding shape_bounds(5) [OF shape] entry_of_seq_next_at [OF shape_bounds(4) [OF shape]]
    using e \<open>r = h\<close> by (simp add: cas_entry_position [OF shape] q1_def)
  show "read_index q1 = of_nat r" using rep_indexes(4) [OF rep] by (simp add: q1_def)
  have q1: "rep q1 n w r (h + 1) (tl xs)"
    using rep_pop [of q n w r h x ys] rep \<open>r = h\<close> by (simp add: q1_def xs)
  then show "rep (if \<not> lo then cas_read_index (of_nat r) (of_nat r + 1) q1 else q1) n w (if lo then h else h + 1) (h + 1) (tl xs)"
    using rep_cas_read [OF q1] \<open>r = h\<close> by simp
qed

lemma pop_index_trip:
  fixes q :: "('v::zero, 'l::len) queue"
  assumes rep: "rep q n w r h xs"
  shows "(\<exists>q'. pop_index_body lo d i q = Some (Return (True, hd xs, of_nat h, q')) \<and> xs \<noteq> [] \<and>
            rep q' n w (if lo then h else h + 1) (h + 1) (tl xs)) \<or>
         pop_index_body lo d i q = Some (Return (False, d, i, q)) \<and> xs = [] \<and> r = h \<or>
         (\<exists>q'. pop_index_body lo d i q = Some (Loop q') \<and> r < h \<and> rep q' n w (r + 1) h xs)"
proof -
  note ix = rep_indexes [OF rep]
  obtain e where e: "entry_at q (of_nat r) = Some e" "arr_cells (ring q) ! (r mod n) = e"
    and v: "case pop_verdict (capacity q) (of_nat r) (get_seq e) of
           Take \<Rightarrow> r = h \<and> xs \<noteq> [] \<and> e = full_at h (hd xs)
         | Help \<Rightarrow> r < h | Refuse \<Rightarrow> r = h \<and> xs = [] | Again \<Rightarrow> False"
    by (rule pop_sees [OF rep])
  show ?thesis
  proof (cases "pop_verdict (capacity q) (of_nat r) (get_seq e)")
    case Take
    with v have w: "r = h" "xs \<noteq> []" "e = full_at h (hd xs)" by simp_all
    note t = pop_take [OF rep w(1,2) e(2) [unfolded w(3)]]
    have "pop_index_body lo d i q = Some (Return (True, hd xs, of_nat r,
        if \<not> lo then cas_read_index (of_nat r) (of_nat r + 1) (put_cell q h (empty_at (h + n)))
        else put_cell q h (empty_at (h + n))))"
      using Take e(1) ix(4) w(3) t(1) by (simp add: pop_index_body_def Let_def get_data_at)
    then show ?thesis using t(3) [of lo] w(1,2) by blast
  next
    case Help
    with v have "r < h" by simp
    moreover have "pop_index_body lo d i q = Some (Loop (cas_read_index (of_nat r) (of_nat r + 1) q))"
      using Help e(1) ix(4) by (simp add: pop_index_body_def Let_def)
    ultimately show ?thesis using rep_cas_read [OF rep] by blast
  next
    case Refuse
    then show ?thesis using v e(1) ix(4) by (simp add: pop_index_body_def Let_def)
  next
    case Again
    then show ?thesis using v by simp
  qed
qed

lemma pop_index_correct:
  fixes q :: "('v::zero, 'l::len) queue"
  assumes rep: "rep q n w r h xs"
  shows "xs \<noteq> [] \<Longrightarrow> \<exists>q'. pop_index lo d i q = Some (True, hd xs, of_nat h, q') \<and>
           rep q' n w (if lo then h else h + 1) (h + 1) (tl xs)" (is "_ \<Longrightarrow> ?some")
    and "xs = [] \<Longrightarrow> \<exists>q'. pop_index lo d i q = Some (False, d, i, q') \<and> rep q' n w h h []" (is "_ \<Longrightarrow> ?none")
proof -
  have "xs \<noteq> [] \<and> ?some \<or> xs = [] \<and> ?none"
    using pop_index_trip [OF rep, of lo d i]
  proof (elim disjE)
    assume "\<exists>q'. pop_index_body lo d i q = Some (Loop q') \<and> r < h \<and> rep q' n w (r + 1) h xs"
    then obtain q' where q': "pop_index_body lo d i q = Some (Loop q')" "rep q' n w (r + 1) h xs"
      and r: "r + 1 = h"
      using rep_indexes(6) [OF rep] by force
    from pop_index_trip [OF q'(2), of lo d i] r q'(2) show ?thesis
      unfolding pop_index_def spin_Loop [of "pop_index_body lo d i", OF q'(1)] by (auto simp: spin_Return)
  qed (use rep in \<open>auto simp: pop_index_def spin_Return\<close>)
  then show "xs \<noteq> [] \<Longrightarrow> ?some" and "xs = [] \<Longrightarrow> ?none" by auto
qed

text \<open>
  \<open>pop(d)\<close> keeps the read index in a local variable; running alone, it always holds the current
  read index at the top of the loop, so both overloads do the same.
\<close>

lemma pop_body_index:
  "pop_body lo d (read_index q, q) =
     map_option (map_turn (\<lambda>(b, v, _, q'). (b, v, q')) (\<lambda>q'. (read_index q', q'))) (pop_index_body lo d i q)"
  by (simp add: pop_body_def pop_index_body_def Let_def split: option.split verdict.split)

lemma pop_pop_index:
  "pop lo d q = map_option (\<lambda>(b, v, _, q'). (b, v, q')) (pop_index lo d i q)"
proof -
  let ?g = "\<lambda>(b, v, _, q'). (b, v, q')"
  have "rel_option (\<lambda>x y. y = ?g x) (spin (pop_index_body lo d i) q) (spin (pop_body lo d) (read_index q, q))"
  proof (rule spin_sim [where R = "\<lambda>s t. t = (read_index s, s)"])
    fix s :: "('a, 'b) queue" and t
    assume t: "t = (read_index s, s)"
    show "rel_option (rel_turn (\<lambda>x y. y = ?g x) (\<lambda>s t. t = (read_index s, s))) (pop_index_body lo d i s) (pop_body lo d t)"
      unfolding t pop_body_index [of lo d s i]
      by (cases "pop_index_body lo d i s") (auto simp: turn.rel_map intro: turn.rel_refl_strong)
  qed simp
  then show ?thesis
    by (cases "pop_index lo d i q") (auto simp: pop_def pop_index_def option_rel_Some1)
qed

lemma pop_correct:
  fixes q :: "('v::zero, 'l::len) queue"
  assumes rep: "rep q n w r h xs"
  shows "xs \<noteq> [] \<Longrightarrow> \<exists>q'. pop lo d q = Some (True, hd xs, q') \<and>
           rep q' n w (if lo then h else h + 1) (h + 1) (tl xs)"
    and "xs = [] \<Longrightarrow> \<exists>q'. pop lo d q = Some (False, d, q') \<and> rep q' n w h h []"
proof -
  note pp = pop_pop_index [of lo d q 0]
  show "\<exists>q'. pop lo d q = Some (True, hd xs, q') \<and> rep q' n w (if lo then h else h + 1) (h + 1) (tl xs)"
    if "xs \<noteq> []"
    using pop_index_correct(1) [OF rep that, of lo d 0] pp by force
  show "\<exists>q'. pop lo d q = Some (False, d, q') \<and> rep q' n w h h []" if "xs = []"
    using pop_index_correct(2) [OF rep that, of lo d 0] pp by force
qed

section \<open>The queue as a bounded FIFO\<close>

text \<open>
  \<open>holds q n h xs\<close>: the queue of capacity \<open>n\<close> holds \<open>xs\<close> after \<open>h\<close> removals, wherever its
  indexes lag. The four template variants of the class satisfy the interfaces of \<open>Fifo\<close>.
\<close>

definition holds :: "('v::zero, 'l::len) queue \<Rightarrow> nat \<Rightarrow> nat \<Rightarrow> 'v list \<Rightarrow> bool" where
  "holds q n h xs \<longleftrightarrow> (\<exists>w r. rep q n w r h xs)"

lemma rep_holds: "rep q n w r h xs \<Longrightarrow> holds q n h xs"
  by (auto simp: holds_def)

lemma holds_bound: "holds q n h xs \<Longrightarrow> length xs \<le> n \<and> 0 < n"
  by (auto simp: holds_def dest: rep_length shape_bounds(1) [OF rep_shape])

interpretation mpmc: indexed_fifo "push lp" "pop lo" "\<lambda>q. holds q n" n "push_index lp" "pop_index lo" of_nat
  for lp lo :: bool and n :: nat
proof
  fix q :: "('v::zero, 'l::len) queue" and h xs and d x :: 'v and i :: "'l word"
  show "length xs \<le> n \<and> 0 < n" if "holds q n h xs" using that by (rule holds_bound)
  show "\<exists>q'. push lp d q = Some (True, q') \<and> holds q' n h (xs @ [d])" if "holds q n h xs" "length xs < n"
    using that push_correct(1) [of q n _ _ h xs lp d] unfolding holds_def by blast
  show "\<exists>q'. push lp d q = Some (False, q') \<and> holds q' n h xs" if "holds q n h xs" "length xs = n"
    using that push_correct(2) [of q n _ _ h xs lp d] unfolding holds_def by blast
  show "\<exists>q'. pop lo d q = Some (True, x, q') \<and> holds q' n (h + 1) xs" if "holds q n h (x # xs)"
    using that pop_correct(1) [of q n _ _ h "x # xs" lo d] unfolding holds_def by simp blast
  show "\<exists>q'. pop lo d q = Some (False, d, q') \<and> holds q' n h []" if "holds q n h []"
    using that pop_correct(2) [of q n _ _ h "[]" lo d] unfolding holds_def by blast
  show "\<exists>q'. push_index lp d i q = Some (True, of_nat (h + length xs), q') \<and> holds q' n h (xs @ [d])"
    if "holds q n h xs" "length xs < n"
    using that push_index_correct(1) [of q n _ _ h xs lp d i] unfolding holds_def by blast
  show "\<exists>q'. push_index lp d i q = Some (False, i, q') \<and> holds q' n h xs" if "holds q n h xs" "length xs = n"
    using that push_index_correct(2) [of q n _ _ h xs lp d i] unfolding holds_def by blast
  show "\<exists>q'. pop_index lo d i q = Some (True, x, of_nat h, q') \<and> holds q' n (h + 1) xs" if "holds q n h (x # xs)"
    using that pop_index_correct(1) [of q n _ _ h "x # xs" lo d i] unfolding holds_def by simp blast
  show "\<exists>q'. pop_index lo d i q = Some (False, d, i, q') \<and> holds q' n h []" if "holds q n h []"
    using that pop_index_correct(2) [of q n _ _ h "[]" lo d i] unfolding holds_def by blast
qed

section \<open>The operations built on push and pop\<close>

lemma push_keep_n_holds:
  assumes "holds q n h xs"
  shows "\<exists>q'. push_keep_n lp lo junk d q = Some (True, q') \<and>
    (if length xs < n then holds q' n h (xs @ [d]) else holds q' n (h + 1) (tl xs @ [d]))"
  unfolding push_keep_n_def
  by (rule mpmc.keep_last [where lp = lp and lo = lo and junk = junk, OF _ assms]) (rule push_keep_n_body_def)

text \<open>After any number of such pushes the queue holds the last \<open>n\<close> elements.\<close>

lemma keep_all_holds:
  assumes "holds q n h xs"
  shows "\<exists>q'. keep_all (push_keep_n lp lo junk) ds q = Some q' \<and>
    holds q' n (h + (length xs + length ds - n)) (drop (length xs + length ds - n) (xs @ ds))"
  using assms
proof (induction ds arbitrary: q h xs)
  case Nil
  then show ?case using holds_bound by fastforce
next
  case (Cons d ds)
  have len: "length xs \<le> n" "0 < n" using holds_bound [OF Cons.prems] by simp_all
  from push_keep_n_holds [OF Cons.prems, of lp lo junk d] obtain q1 where
    q1: "push_keep_n lp lo junk d q = Some (True, q1)"
    and h1: "if length xs < n then holds q1 n h (xs @ [d]) else holds q1 n (h + 1) (tl xs @ [d])"
    by blast
  show ?case
  proof (cases "length xs < n")
    case True
    with h1 have "holds q1 n h (xs @ [d])" by simp
    from Cons.IH [OF this] q1 show ?thesis by auto
  next
    case False
    with len have full: "length xs = n" by simp
    then obtain x ys where xs: "xs = x # ys" using len(2) by (cases xs) auto
    from False h1 have "holds q1 n (h + 1) (ys @ [d])" using xs by simp
    from Cons.IH [OF this] q1 full xs show ?thesis by auto
  qed
qed

lemma push_keep_n_index_holds:
  fixes q :: "('v::zero, 'l::len) queue"
  assumes "holds q n h xs"
  shows "\<exists>q'. push_keep_n_index lp lo junk d i q =
      Some (True, of_nat (if length xs < n then h + length xs else h + n), q') \<and>
    (if length xs < n then holds q' n h (xs @ [d]) else holds q' n (h + 1) (tl xs @ [d]))"
  unfolding push_keep_n_index_def
  by (rule mpmc.keep_last_index [where lp = lp and lo = lo and junk = junk, OF _ assms])
    (simp add: push_keep_n_index_body_def)

lemma destroy_holds:
  assumes "holds q n h xs"
  shows "\<exists>q'. destroy lo junk q = Some q' \<and> holds q' n (h + length xs) []"
  unfolding destroy_def
  by (rule mpmc.drain [where lo = lo, OF _ assms]) (simp add: destroy_body_def)

lemma consume_holds:
  fixes q :: "('v::zero, 'l::len) queue" and f :: "'v \<Rightarrow> 'l word \<Rightarrow> 's \<Rightarrow> bool \<times> 's" and s :: 's
  assumes "holds q n h xs"
  defines "k \<equiv> fst (consume_list f of_nat h s xs)"
  shows "\<exists>q'. consume lo f v i s q = Some (of_nat k, snd (consume_list f of_nat h s xs), q') \<and>
    holds q' n (h + k) (drop k xs)"
proof -
  have "\<exists>q'. spin (consume_body lo f) (0, v, i, s, q) =
      Some (0 + of_nat (fst (consume_list f of_nat h s xs)), snd (consume_list f of_nat h s xs), q') \<and>
    holds q' n (h + fst (consume_list f of_nat h s xs)) (drop (fst (consume_list f of_nat h s xs)) xs)"
    by (rule mpmc.consume_loop [where lo = lo, OF _ assms(1)]) (simp add: consume_body_def)
  then show ?thesis by (simp add: consume_def k_def)
qed

end
