(* ===== verification/MpmcObserve.thy ===== *)
theory MpmcObserve
  imports MpmcCorrect
begin

text \<open>
  Correctness of the operations of \<^verbatim>\<open>mpmc_queue\<close> that look at the queue without a push or an
  unconditional pop: \<^verbatim>\<open>peek\<close>, \<^verbatim>\<open>pop_if\<close>, \<^verbatim>\<open>exchange\<close>, \<^verbatim>\<open>empty\<close>, \<^verbatim>\<open>size\<close> and the entry
  count of \<^verbatim>\<open>dump_state\<close>; where one of them depends on how far an index lags, the exact
  condition.
\<close>

section \<open>Peek\<close>

text \<open>
  An index that lags is recognised by \<open>peek\<close> and \<open>pop_if\<close> only when one round later it lies in the
  lower half of the index range.
\<close>

definition lag_visible :: "'l::len itself \<Rightarrow> nat \<Rightarrow> nat \<Rightarrow> nat \<Rightarrow> bool" where
  "lag_visible _ n r h \<longleftrightarrow> r = h \<or> (r + n) mod (2 * half_range TYPE('l)) < half_range TYPE('l)"

lemma peek_trip:
  fixes q :: "('v::zero, 'l::len) queue"
  assumes rep: "rep q n w r h xs"
  shows "peek_index_body d i q = Some (Return (True, hd xs, of_nat (2 * h + 1), q)) \<and> xs \<noteq> [] \<and> r = h \<or>
         peek_index_body d i q = Some (Return (False, d, i, q)) \<and> xs = [] \<and> r = h \<or>
         (\<exists>q'. peek_index_body d i q = Some (Loop q') \<and> r < h \<and> rep q' n w (r + 1) h xs) \<or>
         peek_index_body d i q = Some (Loop q) \<and> \<not> lag_visible TYPE('l) n r h"
proof -
  note ix = rep_indexes [OF rep]
  obtain e where e: "entry_at q (of_nat r) = Some e"
    and v: "case peek_verdict (capacity q) (of_nat r) (get_seq e) of
           Take \<Rightarrow> r = h \<and> xs \<noteq> [] \<and> e = full_at h (hd xs)
         | Help \<Rightarrow> r < h | Refuse \<Rightarrow> r = h \<and> xs = []
         | Again \<Rightarrow> r < h \<and> half_range TYPE('l) \<le> (r + n) mod (2 * half_range TYPE('l))"
    by (rule pop_sees [OF rep])
  show ?thesis
  proof (cases "peek_verdict (capacity q) (of_nat r) (get_seq e)")
    case Take
    with v have w: "r = h" "xs \<noteq> []" and e': "e = full_at h (hd xs)" by simp_all
    then have "peek_index_body d i q = Some (Return (True, hd xs, get_seq e, q))"
      using Take e ix(4) by (simp add: peek_index_body_def Let_def get_data_at)
    then show ?thesis unfolding e' get_seq_at using w by blast
  next
    case Help
    with v have "r < h" by simp
    moreover have "peek_index_body d i q = Some (Loop (cas_read_index (of_nat r) (of_nat r + 1) q))"
      using Help e ix(4) by (simp add: peek_index_body_def Let_def)
    ultimately show ?thesis using rep_cas_read [OF rep] by blast
  next
    case Refuse
    then show ?thesis using v e ix(4) by (simp add: peek_index_body_def Let_def)
  next
    case Again
    then show ?thesis using v e ix(4) by (simp add: peek_index_body_def Let_def lag_visible_def not_less)
  qed
qed

lemma peek_index_correct:
  fixes q :: "('v::zero, 'l::len) queue"
  assumes rep: "rep q n w r h xs" and lag: "lag_visible TYPE('l) n r h"
  shows "\<exists>q'. peek_index d i q =
      Some (if xs = [] then (False, d, i, q') else (True, hd xs, of_nat (2 * h + 1), q')) \<and> rep q' n w h h xs"
proof (cases "r = h")
  case True
  then show ?thesis
    using peek_trip [OF rep, of d i] rep by (auto simp: peek_index_def spin_Return lag_visible_def)
next
  case False
  with rep_indexes [OF rep] have r: "r < h" "r + 1 = h" by simp_all
  with peek_trip [OF rep, of d i] lag obtain q' where
    q': "peek_index_body d i q = Some (Loop q')" "rep q' n w h h xs" by auto
  then show ?thesis
    using peek_trip [OF q'(2), of d i]
    by (auto simp: peek_index_def spin_Loop [of "peek_index_body d i", OF q'(1)] spin_Return lag_visible_def)
qed

lemma peek_body_index:
  "peek_body d q = map_option (map_turn (\<lambda>(b, v, _, q'). (b, v, q')) id) (peek_index_body d i q)"
  by (simp add: peek_body_def peek_index_body_def Let_def split: option.split verdict.split)

lemma peek_peek_index:
  "peek d q = map_option (\<lambda>(b, v, _, q'). (b, v, q')) (peek_index d i q)"
proof -
  let ?g = "\<lambda>(b, v, _, q'). (b, v, q')"
  have "rel_option (\<lambda>x y. y = ?g x) (spin (peek_index_body d i) q) (spin (peek_body d) q)"
  proof (rule spin_sim [where R = "(=)"])
    fix s t :: "('a, 'b) queue"
    assume "s = t"
    then show "rel_option (rel_turn (\<lambda>x y. y = ?g x) (=)) (peek_index_body d i s) (peek_body d t)"
      unfolding peek_body_index [of d t i]
      by (cases "peek_index_body d i t") (auto simp: turn.rel_map intro: turn.rel_refl_strong)
  qed simp
  then show ?thesis
    by (cases "peek_index d i q") (auto simp: peek_def peek_index_def option_rel_Some1)
qed

lemma peek_correct:
  fixes q :: "('v::zero, 'l::len) queue"
  assumes "rep q n w r h xs" and "lag_visible TYPE('l) n r h"
  shows "\<exists>q'. peek d q = Some (if xs = [] then (False, d, q') else (True, hd xs, q')) \<and> rep q' n w h h xs"
proof -
  obtain q' where "peek_index d 0 q = Some (if xs = [] then (False, d, 0, q') else (True, hd xs, of_nat (2 * h + 1), q'))"
    and "rep q' n w h h xs"
    using peek_index_correct [OF assms, of d 0] by blast
  then show ?thesis by (intro exI [of _ q']) (simp add: peek_peek_index [where i = 0])
qed

text \<open>Otherwise every trip sees the same entry and decides to look again.\<close>

lemma peek_blind:
  fixes q :: "('v::zero, 'l::len) queue"
  assumes rep: "rep q n w r h xs" and lag: "\<not> lag_visible TYPE('l) n r h"
  obtains e where "entry_at q (of_nat r) = Some e" and "peek_verdict (capacity q) (of_nat r) (get_seq e) = Again"
proof -
  let ?m = "half_range TYPE('l)"
  note shape = rep_shape [OF rep]
  have n: "0 < n" "n < ?m" "LENGTH('l) \<le> 64" using shape_bounds [OF shape] by simp_all
  have "r + 1 = h" using rep_indexes(5,6) [OF rep] lag by (auto simp: lag_visible_def)
  then have e: "entry_at q (of_nat r) = Some (cell h xs (r + n))"
    using contents_cell [OF rep_contents [OF rep], of "r + n"] entry_at_position [OF shape, of r] n(1) by simp
  have differ: "(r + n) mod ?m \<noteq> r mod ?m"
  proof
    assume "(r + n) mod ?m = r mod ?m"
    then have "r + n = r" by (rule mod_eq_close) (use n in auto)
    with n(1) show False by simp
  qed
  have "(r + n) mod ?m < ?m" by (rule mod_less_divisor) simp
  with lag have blind: "(r + n) mod ?m \<noteq> (r + n) mod (2 * ?m)" by (metis lag_visible_def)
  have "peek_verdict (capacity q) (of_nat r) (get_seq (cell h xs (r + n) :: ('v, 'l) entry)) = Again"
    unfolding shape_bounds(5) [OF shape]
    by (cases "r + n < h + length xs")
      (simp_all add: cell_def peek_verdict_cell [OF n(3)] differ blind)
  with e show ?thesis by (rule that)
qed

lemma peek_index_spins:
  fixes q :: "('v::zero, 'l::len) queue"
  assumes rep: "rep q n w r h xs" and lag: "\<not> lag_visible TYPE('l) n r h"
  shows "peek_index d i q = None"
  unfolding peek_index_def
proof (rule spin_diverges [where P = "\<lambda>s. s = q"])
  fix s
  assume "s = q"
  moreover obtain e where "entry_at q (of_nat r) = Some e" "peek_verdict (capacity q) (of_nat r) (get_seq e) = Again"
    by (rule peek_blind [OF rep lag])
  ultimately show "\<exists>s'. peek_index_body d i s = Some (Loop s') \<and> s' = q"
    using rep_indexes(4) [OF rep] by (simp add: peek_index_body_def Let_def)
qed simp

lemma peek_spins:
  fixes q :: "('v::zero, 'l::len) queue"
  assumes "rep q n w r h xs" and "\<not> lag_visible TYPE('l) n r h"
  shows "peek d q = None"
  using peek_index_spins [OF assms, of d 0] by (simp add: peek_peek_index [where i = 0])

section \<open>Conditional pop\<close>

lemma pop_if_trip:
  fixes q :: "('v::zero, 'l::len) queue"
  assumes rep: "rep q n w r h xs"
  shows "xs \<noteq> [] \<and> r = h \<and>
           (case f (hd xs) (of_nat (2 * h + 1)) fs of (wanted, fs') \<Rightarrow>
              if wanted
              then \<exists>q'. pop_if_body lo f d (fs, q) = Some (Return (True, hd xs, fs', q')) \<and>
                rep q' n w (if lo then h else h + 1) (h + 1) (tl xs)
              else pop_if_body lo f d (fs, q) = Some (Return (False, d, fs', q))) \<or>
         pop_if_body lo f d (fs, q) = Some (Return (False, d, fs, q)) \<and> xs = [] \<and> r = h \<or>
         (\<exists>q'. pop_if_body lo f d (fs, q) = Some (Loop (fs, q')) \<and> r < h \<and> rep q' n w (r + 1) h xs) \<or>
         \<not> lag_visible TYPE('l) n r h"
proof -
  note ix = rep_indexes [OF rep]
  obtain e where e: "entry_at q (of_nat r) = Some e" "arr_cells (ring q) ! (r mod n) = e"
    and v: "case peek_verdict (capacity q) (of_nat r) (get_seq e) of
           Take \<Rightarrow> r = h \<and> xs \<noteq> [] \<and> e = full_at h (hd xs)
         | Help \<Rightarrow> r < h | Refuse \<Rightarrow> r = h \<and> xs = []
         | Again \<Rightarrow> r < h \<and> half_range TYPE('l) \<le> (r + n) mod (2 * half_range TYPE('l))"
    by (rule pop_sees [OF rep])
  show ?thesis
  proof (cases "peek_verdict (capacity q) (of_nat r) (get_seq e)")
    case Take
    with v have w: "r = h" "xs \<noteq> []" "e = full_at h (hd xs)" by simp_all
    obtain wanted fs' where f: "f (hd xs) (of_nat (2 * h + 1)) fs = (wanted, fs')" by fastforce
    note t = pop_take [OF rep w(1,2) e(2) [unfolded w(3)]]
    have "pop_if_body lo f d (fs, q) =
        (if wanted then Some (Return (True, hd xs, fs',
           if \<not> lo then cas_read_index (of_nat r) (of_nat r + 1) (put_cell q h (empty_at (h + n)))
           else put_cell q h (empty_at (h + n))))
         else Some (Return (False, d, fs', q)))"
      using Take e(1) ix(4) w(3) t(1) f
      by (simp add: pop_if_body_def Let_def get_data_at get_seq_at)
    then show ?thesis using t(3) [of lo] w(1,2) f by auto
  next
    case Help
    with v have "r < h" by simp
    moreover have "pop_if_body lo f d (fs, q) = Some (Loop (fs, cas_read_index (of_nat r) (of_nat r + 1) q))"
      using Help e(1) ix(4) by (simp add: pop_if_body_def Let_def)
    ultimately show ?thesis using rep_cas_read [OF rep] by blast
  next
    case Refuse
    then show ?thesis using v e(1) ix(4) by (simp add: pop_if_body_def Let_def)
  next
    case Again
    then show ?thesis using v by (simp add: lag_visible_def not_less)
  qed
qed

lemma pop_if_correct:
  fixes q :: "('v::zero, 'l::len) queue"
  assumes rep: "rep q n w r h xs" and lag: "lag_visible TYPE('l) n r h"
  shows "xs = [] \<Longrightarrow> \<exists>q'. pop_if lo f d fs q = Some (False, d, fs, q') \<and> rep q' n w h h xs"
    and "xs \<noteq> [] \<Longrightarrow> f (hd xs) (of_nat (2 * h + 1)) fs = (False, fs') \<Longrightarrow>
           \<exists>q'. pop_if lo f d fs q = Some (False, d, fs', q') \<and> rep q' n w h h xs"
    and "xs \<noteq> [] \<Longrightarrow> f (hd xs) (of_nat (2 * h + 1)) fs = (True, fs') \<Longrightarrow>
           \<exists>q'. pop_if lo f d fs q = Some (True, hd xs, fs', q') \<and>
             rep q' n w (if lo then h else h + 1) (h + 1) (tl xs)"
proof -
  have "\<exists>q0. pop_if lo f d fs q = pop_if lo f d fs q0 \<and> rep q0 n w h h xs"
  proof (cases "r = h")
    case True
    then show ?thesis using rep by blast
  next
    case False
    with rep_indexes [OF rep] have "r < h" "r + 1 = h" by simp_all
    with pop_if_trip [OF rep, where f = f and fs = fs and lo = lo and d = d] lag obtain q'
      where q': "pop_if_body lo f d (fs, q) = Some (Loop (fs, q'))" "rep q' n w h h xs" by auto
    then have "pop_if lo f d fs q = pop_if lo f d fs q'"
      by (simp add: pop_if_def spin_Loop [of "pop_if_body lo f d", OF q'(1)])
    with q'(2) show ?thesis by blast
  qed
  then obtain q0 where q0: "pop_if lo f d fs q = pop_if lo f d fs q0" "rep q0 n w h h xs" by blast
  have vis: "lag_visible TYPE('l) n h h" by (simp add: lag_visible_def)
  note trip = pop_if_trip [OF q0(2), where f = f and fs = fs and lo = lo and d = d]
  show "\<exists>q'. pop_if lo f d fs q = Some (False, d, fs, q') \<and> rep q' n w h h xs" if "xs = []"
    using trip q0 vis that by (auto simp: pop_if_def spin_Return)
  show "\<exists>q'. pop_if lo f d fs q = Some (False, d, fs', q') \<and> rep q' n w h h xs"
    if "xs \<noteq> []" "f (hd xs) (of_nat (2 * h + 1)) fs = (False, fs')"
    using trip q0 vis that by (auto simp: pop_if_def spin_Return)
  show "\<exists>q'. pop_if lo f d fs q = Some (True, hd xs, fs', q') \<and>
      rep q' n w (if lo then h else h + 1) (h + 1) (tl xs)"
    if "xs \<noteq> []" "f (hd xs) (of_nat (2 * h + 1)) fs = (True, fs')"
    using trip q0 vis that unfolding pop_if_def by (auto simp: spin_Return split: if_splits)
qed

section \<open>Exchange\<close>

text \<open>An index addresses position \<open>p\<close> of the list when their sequence words agree.\<close>

definition addresses :: "'l::len word \<Rightarrow> nat \<Rightarrow> bool" where
  "addresses i x \<longleftrightarrow> seq_full (of_nat x) = seq_full i"

lemma addresses_mod:
  "addresses (of_nat y :: 'l::len word) x \<longleftrightarrow> x mod half_range TYPE('l) = y mod half_range TYPE('l)"
  unfolding addresses_def seq_full_def shift_of_nat_or_1 by (rule of_nat_Suc_twice_eq)

lemma exchange_correct:
  fixes q :: "('v::zero, 'l::len) queue"
  assumes rep: "rep q n w r h xs"
  shows "p < length xs \<Longrightarrow> addresses i (h + p) \<Longrightarrow> xs ! p = old \<Longrightarrow>
           \<exists>q'. exchange i old new q = Some (True, q') \<and> rep q' n w r h (xs[p := new])"
    and "\<not> (\<exists>p < length xs. addresses i (h + p) \<and> xs ! p = old) \<Longrightarrow> exchange i old new q = Some (False, q)"
proof -
  note shape = rep_shape [OF rep] and cont = rep_contents [OF rep]
  have i: "(of_nat (unat i) :: 'l word) = i" by simp
  have eq: "exchange i old new q = cas_entry q (of_nat (unat i)) (full_at (unat i) old) (full_at (unat i) new)"
    unfolding exchange_def entry_of_at [symmetric] i ..
  have addr: "addresses i x \<longleftrightarrow> x mod half_range TYPE('l) = unat i mod half_range TYPE('l)" for x
    using addresses_mod [of "unat i" x, where 'l = 'l] by (simp only: i)
  have hit: "arr_cells (ring q) ! (unat i mod n) = full_at (unat i) old \<longleftrightarrow>
      (\<exists>p < length xs. addresses i (h + p) \<and> xs ! p = old)"
    by (simp add: exchange_cas_view [OF shape cont] addr)
  show "\<exists>q'. exchange i old new q = Some (True, q') \<and> rep q' n w r h (xs[p := new])"
    if p: "p < length xs" "addresses i (h + p)" "xs ! p = old"
  proof -
    from p(2) have m: "(h + p) mod half_range TYPE('l) = unat i mod half_range TYPE('l)"
      by (simp only: addr)
    then have "unat i mod n = (h + p) mod n"
      using shape_bounds(7) [OF shape] by (metis mod_mod_cancel)
    from contents_exchange [OF shape cont _ _ this, of new] p(1)
    have "contents (put_cell q (unat i) (full_at (h + p) new)) n h (xs[p := new])" by simp
    moreover have "full_at (h + p) new = (full_at (unat i) new :: ('v, 'l) entry)"
      using m by (simp add: full_at_eq)
    ultimately have "rep (put_cell q (unat i) (full_at (unat i) new)) n w r h (xs[p := new])"
      using rep by (simp add: rep_def indexes_def put_cell_shape)
    moreover have "exchange i old new q = Some (True, put_cell q (unat i) (full_at (unat i) new))"
      unfolding eq cas_entry_position [OF shape] using hit p by auto
    ultimately show ?thesis by blast
  qed
  show "exchange i old new q = Some (False, q)"
    if "\<not> (\<exists>p < length xs. addresses i (h + p) \<and> xs ! p = old)"
    unfolding eq cas_entry_position [OF shape] using hit that by auto
qed

section \<open>Empty and size\<close>

lemma peek_verdict_Refuse: "peek_verdict sz i s = Refuse \<longleftrightarrow> s = seq_empty i"
  by (simp add: peek_verdict_def)

lemma empty_exact:
  fixes q :: "('v::zero, 'l::len) queue"
  assumes rep: "rep q n w r h xs"
  shows "empty q = Some (xs = [] \<and> r = h)"
proof -
  obtain e where e: "entry_at q (of_nat r) = Some e" "arr_cells (ring q) ! (r mod n) = e"
    and p: "case pop_verdict (capacity q) (of_nat r) (get_seq e) of
           Take \<Rightarrow> r = h \<and> xs \<noteq> [] \<and> e = full_at h (hd xs)
         | Help \<Rightarrow> r < h | Refuse \<Rightarrow> r = h \<and> xs = [] | Again \<Rightarrow> False"
    and v: "case peek_verdict (capacity q) (of_nat r) (get_seq e) of
           Take \<Rightarrow> r = h \<and> xs \<noteq> [] \<and> e = full_at h (hd xs)
         | Help \<Rightarrow> r < h | Refuse \<Rightarrow> r = h \<and> xs = []
         | Again \<Rightarrow> r < h \<and> half_range TYPE('l) \<le> (r + n) mod (2 * half_range TYPE('l))"
    by (rule pop_sees [OF rep])
  have "get_seq e = seq_empty (of_nat r) \<longleftrightarrow> xs = [] \<and> r = h"
    using v peek_verdict_Refuse [of "capacity q" "of_nat r" "get_seq e"]
    by (cases "peek_verdict (capacity q) (of_nat r) (get_seq e)") auto
  then show ?thesis using e(1) rep_indexes(4) [OF rep] by (simp add: empty_def Let_def)
qed

text \<open>The size is the distance of the two indexes, as long as the index words have not wrapped.\<close>

lemma widen_index:
  assumes "x < 2 * half_range TYPE('l)"
  shows "unat (of_nat x :: 'l::len word) = x"
  using assms by (simp add: unsigned_of_nat take_bit_eq_mod full_range)

lemma size_exact:
  fixes q :: "('v::zero, 'l::len) queue"
  assumes rep: "rep q n w r h xs" and "r \<le> w"
    and wrap: "w div (2 * half_range TYPE('l)) = r div (2 * half_range TYPE('l))"
  shows "size_of q = Some (if xs = [] \<and> r = h then 0 else of_nat (w - r))"
proof (cases "xs = [] \<and> r = h")
  case True
  then show ?thesis by (simp add: size_of_def empty_exact [OF rep])
next
  case False
  let ?m = "2 * half_range TYPE('l)"
  note ix = rep_indexes [OF rep]
  have pos: "0 < ?m" by simp
  have wr: "w - r = w mod ?m - r mod ?m" "r mod ?m \<le> w mod ?m"
    using assms(2) wrap by (metis add_diff_cancel_left mult_div_mod_eq) (metis assms(2) wrap add_le_cancel_left mult_div_mod_eq)
  have u: "unat (of_nat x :: 'l word) = x mod ?m" for x
    by (simp add: unsigned_of_nat take_bit_eq_mod full_range)
  have le: "write_index q \<ge> read_index q"
    unfolding word_le_nat_alt ix(1) ix(4) u by (rule wr(2))
  have "write_index q - read_index q = of_nat (w - r)"
    using assms(2) by (simp add: ix(1) ix(4))
  moreover have "(ucast (of_nat (w - r) :: 'l word) :: size_t) = of_nat (w - r)"
  proof -
    have "w - r < ?m" using wr(1) mod_less_divisor [OF pos, of w] by linarith
    then show ?thesis by (simp add: widen_of_nat full_range)
  qed
  ultimately have "size_of q = Some (if xs = [] \<and> r = h then 0 else of_nat (w - r))"
    unfolding size_of_def empty_exact [OF rep] by (simp only: le if_True option.case)
  then show ?thesis .
qed

text \<open>
  When the write index has wrapped around and the read index has not, the second branch adds the
  capacity where it should add the range of the index.
\<close>

lemma size_wrapped:
  fixes q :: "('v::zero, 'l::len) queue"
  assumes rep: "rep q n w r h xs" and "r \<le> w" and ne: "\<not> (xs = [] \<and> r = h)"
    and wrap: "w div (2 * half_range TYPE('l)) = Suc (r div (2 * half_range TYPE('l)))"
    and lt: "w mod (2 * half_range TYPE('l)) < r mod (2 * half_range TYPE('l))"
  shows "size_of q = Some (of_nat (w - r) + of_nat n - 2 ^ LENGTH('l))"
proof -
  let ?m = "2 * half_range TYPE('l)"
  note ix = rep_indexes [OF rep]
  have u: "unat (of_nat x :: 'l word) = x mod ?m" for x
    by (simp add: unsigned_of_nat take_bit_eq_mod full_range)
  have "\<not> write_index q \<ge> read_index q"
    unfolding word_le_nat_alt ix(1) ix(4) u using lt by simp
  then have "size_of q = Some (of_nat (w mod ?m) + of_nat n - of_nat (r mod ?m))"
    unfolding size_of_def empty_exact [OF rep] shape_bounds(5) [OF rep_shape [OF rep]]
    by (simp only: ne if_False option.case ix(1) ix(4) widen_of_nat full_range)
  moreover have "w mod ?m + ?m = (w - r) + r mod ?m"
  proof -
    have "w = ?m * Suc (r div ?m) + w mod ?m" using wrap by (metis mult_div_mod_eq)
    moreover have "r = ?m * (r div ?m) + r mod ?m" by simp
    ultimately show ?thesis using assms(2) by (simp add: algebra_simps)
  qed
  then have "(of_nat (w mod ?m) :: size_t) + of_nat ?m = of_nat (w - r) + of_nat (r mod ?m)"
    by (metis of_nat_add)
  moreover have "(of_nat ?m :: size_t) = 2 ^ LENGTH('l)"
    unfolding full_range [symmetric] by simp
  ultimately show ?thesis by (simp add: algebra_simps)
qed

end
