(* ===== verification/MpmcInit.thy ===== *)
theory MpmcInit
  imports MpmcObserve
begin

text \<open>
  The constructor and the destructor of \<^verbatim>\<open>mpmc_queue\<close>: which sizes are accepted, that the
  accepted ones give the empty queue (so every property stated for a represented queue holds from
  the constructor on), and the two accepted sizes for which the object is not usable. Also the
  states that a queue reaches after many cycles of one push and one pop.
\<close>

section \<open>The number of bits of a value\<close>

fun bit_length :: "nat \<Rightarrow> nat" where
  "bit_length m = (if m = 0 then 0 else Suc (bit_length (m div 2)))"

declare bit_length.simps [simp del]

lemma bit_length_le: "bit_length m \<le> k \<longleftrightarrow> m < 2 ^ k"
proof (induction m arbitrary: k rule: bit_length.induct)
  case (1 m)
  show ?case
  proof (cases "m = 0")
    case True
    then show ?thesis by (simp add: bit_length.simps)
  next
    case False
    then have m: "bit_length m = Suc (bit_length (m div 2))" by (simp add: bit_length.simps)
    show ?thesis
    proof (cases k)
      case 0
      then show ?thesis using False m by simp
    next
      case (Suc j)
      with 1 [of j] False m show ?thesis by (simp add: less_mult_imp_div_less) auto
    qed
  qed
qed

lemma bits_for_value_loop_eq: "bits_for_value_loop b n = b + of_nat (bit_length (unat n))"
proof (induction b n rule: bits_for_value_loop.induct)
  case (1 b n)
  show ?case
  proof (cases "n = 0")
    case True
    then show ?thesis by (simp add: bits_for_value_loop.simps bit_length.simps)
  next
    case False
    then have "unat n \<noteq> 0" by (simp add: unat_eq_zero)
    then have "bit_length (unat n) = Suc (bit_length (unat n div 2))"
      by (subst bit_length.simps) simp
    moreover have "unat (drop_bit 1 n) = unat n div 2"
      by (simp add: drop_bit_eq_div unat_div)
    ultimately show ?thesis
      using 1 [OF False] False by (subst bits_for_value_loop.simps) simp
  qed
qed

lemma bits_for_value_bit_length: "unat (bits_for_value n) = bit_length (unat n)"
proof -
  have "unat n < 2 ^ 32" using unsigned_less [of n] by simp
  then have "bit_length (unat n) \<le> 32" by (simp only: bit_length_le)
  then show ?thesis
    by (simp add: bits_for_value_def bits_for_value_loop_eq unsigned_of_nat take_bit_eq_mod)
qed

lemma bits_for_value_le: "unat (bits_for_value n) \<le> k \<longleftrightarrow> unat n < 2 ^ k"
  by (simp only: bits_for_value_bit_length bit_length_le)

section \<open>The constructor's loop\<close>

lemma counter_widen:
  assumes "i \<le> unat (sz :: size_t)" and "i < 2 ^ LENGTH('l::len)"
  shows "unat (ucast (of_nat i :: 'l word) :: size_t) = i"
proof -
  have "unat sz < 2 ^ 64" using unsigned_less [of sz] by simp
  with assms have "i < 2 ^ 64" by linarith
  with assms(2) show ?thesis by (simp add: widen_of_nat unsigned_of_nat take_bit_eq_mod)
qed

lemma init_loop:
  fixes arr :: "('v::zero, 'l::len) entries"
  assumes "arr_ok arr" and "unat (arr_size arr) = n" and "n < 2 ^ LENGTH('l)" and "LENGTH('l) \<le> 64" and "i \<le> n"
  shows "\<exists>arr'. spin init_body (of_nat i :: 'l word, arr) = Some arr' \<and> arr_ok arr' \<and> arr_size arr' = arr_size arr \<and>
    (\<forall>j < n. arr_cells arr' ! j = (if i \<le> j then empty_at j else arr_cells arr ! j))"
  using assms
proof (induction "n - i" arbitrary: i arr)
  case 0
  then have "i = n" by simp
  moreover have "\<not> (ucast (of_nat n :: 'l word) :: size_t) < arr_size arr"
    using 0 counter_widen [of n "arr_size arr", where 'l = 'l] by (simp add: word_less_nat_alt)
  ultimately have "spin init_body (of_nat i :: 'l word, arr) = Some arr"
    by (simp add: spin_Return init_body_def)
  then show ?case using 0 \<open>i = n\<close> by auto
next
  case (Suc m)
  then have i: "i < n" by simp
  have u: "unat (ucast (of_nat i :: 'l word) :: size_t) = i"
    using counter_widen [of i "arr_size arr", where 'l = 'l] i Suc.prems by simp
  then have lt: "(ucast (of_nat i :: 'l word) :: size_t) < arr_size arr"
    using i Suc.prems(2) by (simp add: word_less_nat_alt)
  let ?arr = "arr_put arr (ucast (of_nat i :: 'l word)) (empty_at i)"
  obtain e where e: "arr_at arr (ucast (of_nat i :: 'l word)) = Some e"
    using arr.at_total [OF Suc.prems(1)] by blast
  have "init_body (of_nat i, arr) = Some (Loop (of_nat (Suc i), ?arr))"
    using lt e unfolding init_body_def Let_def fst_conv snd_conv set_seq_at [unfolded seq_empty_def]
    by (simp add: add.commute)
  then have step: "spin init_body (of_nat i, arr) = spin init_body (of_nat (Suc i), ?arr)"
    by (rule spin_Loop)
  have cells: "arr_cells ?arr = (arr_cells arr)[i := empty_at i]"
    using arr.cells_put [OF Suc.prems(1)] u i Suc.prems(2) by simp
  have len: "length (arr_cells arr) = n" using arr.length_cells [OF Suc.prems(1)] Suc.prems(2) by simp
  obtain arr' where arr': "spin init_body (of_nat (Suc i), ?arr) = Some arr'" "arr_ok arr'"
    "arr_size arr' = arr_size ?arr"
    "\<forall>j < n. arr_cells arr' ! j = (if Suc i \<le> j then empty_at j else arr_cells ?arr ! j)"
  proof -
    have "m = n - Suc i" "arr_ok ?arr" "unat (arr_size ?arr) = n" "Suc i \<le> n"
      using Suc.hyps(2) Suc.prems i by (simp_all add: arr.ok_put arr_put_total)
    from Suc.hyps(1) [OF this(1-3) Suc.prems(3,4) this(4)] that show thesis by blast
  qed
  have "\<forall>j < n. arr_cells arr' ! j = (if i \<le> j then empty_at j else arr_cells arr ! j)"
    using arr'(4) len by (auto simp: cells nth_list_update not_less_eq_eq dest: le_antisym)
  with arr' step show ?case by (auto simp: arr_put_total)
qed

lemma ring_init:
  fixes arr :: "('v::zero, 'l::len) entries"
  assumes "arr_ok arr" and "unat (arr_size arr) = n" and n: "2 * n \<le> half_range TYPE('l)" and "LENGTH('l) \<le> 64"
  shows "\<exists>arr'. spin init_body (0 :: 'l word, arr) = Some arr' \<and>
    rep \<lparr>write_index = 0, read_index = 0, ring = arr'\<rparr> n 0 0 0 []"
proof -
  have "n < 2 ^ LENGTH('l)"
    using n half_range_pos [where 'l = 'l] unfolding full_range by linarith
  with init_loop [OF assms(1,2) _ assms(4), of 0] obtain arr' where
    arr': "spin init_body (0 :: 'l word, arr) = Some arr'" "arr_ok arr'" "arr_size arr' = arr_size arr"
      "\<forall>j < n. arr_cells arr' ! j = empty_at j"
    by auto
  then have "rep \<lparr>write_index = 0, read_index = 0, ring = arr'\<rparr> n 0 0 0 []"
    using assms by (simp add: rep_def ring_shape_def contents_def indexes_def capacity_def cell_def)
  with arr'(1) show ?thesis by blast
qed

section \<open>Accepted and refused sizes\<close>

lemma low_half_zero:
  assumes "unat (n :: u64) = 2 ^ k" and "32 \<le> k"
  shows "(ucast n :: u32) = 0"
proof -
  have "(2::nat) ^ 32 dvd 2 ^ k" using assms(2) by (rule pow2_dvd)
  then have "unat (ucast n :: u32) = 0"
    using assms by (simp add: unsigned_ucast_eq take_bit_eq_mod dvd_imp_mod_0 del: unat_eq_zero)
  then show ?thesis by (simp only: unat_eq_zero)
qed

text \<open>The test of the run time constructor, read as a statement about numbers.\<close>

lemma size_test:
  assumes "unat (n :: u64) = 2 ^ k" and "k < 32"
  shows "bits_in_index TYPE('l::len) \<le> bits_for_value (ucast n) \<longleftrightarrow> LENGTH('l) mod 2 ^ 32 \<le> k + 1"
proof -
  have "unat (ucast n :: u32) = 2 ^ k"
  proof -
    have "(2::nat) ^ k < 2 ^ 32" by (rule power_strict_increasing) (use assms(2) in auto)
    then show ?thesis using assms(1) by (simp add: unsigned_ucast_eq take_bit_eq_mod)
  qed
  then have "bit_length (unat (ucast n :: u32)) = k + 1"
    using bit_length_le [of "unat (ucast n :: u32)" k] bit_length_le [of "unat (ucast n :: u32)" "k + 1"] by simp
  then show ?thesis
    by (simp add: word_le_nat_alt bits_for_value_bit_length bits_in_index_def unsigned_of_nat take_bit_eq_mod)
qed

lemma ctor_runtime:
  fixes n :: u64
  assumes n: "unat n = 2 ^ k" and k: "k + 2 \<le> LENGTH('l::len)" and w: "LENGTH('l) \<le> 64"
  shows "\<exists>q. (mpmc_queue 0 n :: (ctor_error + ('v::zero, 'l) queue) option) = Some (Inr q) \<and> rep q (2 ^ k) 0 0 0 []"
proof -
  have nz: "0 < n" using n by (metis unat_gt_0 word_gt_0 zero_less_numeral zero_less_power)
  have pow: "n AND (n - 1) = 0" using and_pred_pow2 (2) [of k n] n k w by simp
  have bits: "\<not> bits_in_index TYPE('l) \<le> bits_for_value (ucast n)"
  proof (cases "k < 32")
    case True
    then show ?thesis using size_test [OF n True, where 'l = 'l] k w by simp
  next
    case False
    then have "(ucast n :: u32) = 0" using low_half_zero [OF n] by simp
    then show ?thesis
      using w by (simp add: bits_for_value_def bits_for_value_loop.simps bits_in_index_def word_le_nat_alt
        unsigned_of_nat take_bit_eq_mod)
  qed
  have range: "2 * 2 ^ k \<le> half_range TYPE('l)"
  proof -
    have "(2::nat) ^ (k + 1) \<le> 2 ^ (LENGTH('l) - 1)" using k by (intro power_increasing) auto
    then show ?thesis by (simp add: half_range_def)
  qed
  have ok: "arr_ok (arr_new 0 n entry_clear :: ('v, 'l) entries)"
    by (rule arr_new_ok) (use nz pow in auto)
  have sz: "unat (arr_size (arr_new 0 n entry_clear :: ('v, 'l) entries)) = 2 ^ k"
    using n by (simp add: arr_new_size)
  from ring_init [OF ok sz range w] pow bits show ?thesis
    by (auto simp: mpmc_queue_def Let_def)
qed

lemma ctor_static:
  fixes N :: u64
  assumes N: "inplace_static_assert N" "unat N = 2 ^ k" and k: "k + 2 \<le> LENGTH('l::len)" and w: "LENGTH('l) \<le> 64"
  shows "\<exists>q. (mpmc_queue N N :: (ctor_error + ('v::zero, 'l) queue) option) = Some (Inr q) \<and> rep q (2 ^ k) 0 0 0 []"
proof -
  have "N \<noteq> 0" using N(1) by (auto simp: inplace_static_assert_def)
  have range: "2 * 2 ^ k \<le> half_range TYPE('l)"
  proof -
    have "(2::nat) ^ (k + 1) \<le> 2 ^ (LENGTH('l) - 1)" using k by (intro power_increasing) auto
    then show ?thesis by (simp add: half_range_def)
  qed
  have ok: "arr_ok (arr_new N N entry_clear :: ('v, 'l) entries)"
    by (rule arr_new_ok) (use N \<open>N \<noteq> 0\<close> in auto)
  have sz: "unat (arr_size (arr_new N N entry_clear :: ('v, 'l) entries)) = 2 ^ k"
    using N by (simp add: arr_new_size)
  from ring_init [OF ok sz range w] \<open>N \<noteq> 0\<close> show ?thesis
    by (auto simp: mpmc_queue_def Let_def word_gt_0)
qed

lemma ctor_refuses:
  shows "N \<noteq> 0 \<Longrightarrow> n \<noteq> N \<Longrightarrow>
      (mpmc_queue N n :: (ctor_error + ('v::zero, 'l::len) queue) option) = Some (Inl Invalid_argument)"
    and "n AND (n - 1) \<noteq> 0 \<Longrightarrow>
      (mpmc_queue 0 n :: (ctor_error + ('v::zero, 'l::len) queue) option) = Some (Inl Invalid_argument)"
    and "unat n = 2 ^ k \<Longrightarrow> k < 32 \<Longrightarrow> LENGTH('l) \<le> k + 1 \<Longrightarrow>
      (mpmc_queue 0 n :: (ctor_error + ('v::zero, 'l::len) queue) option) = Some (Inl Invalid_argument)"
  by (simp_all add: mpmc_queue_def word_gt_0 size_test)

text \<open>
  Sizes from \<open>2\<^sup>3\<^sup>2\<close> on lose their high bits when they are passed to \<^verbatim>\<open>bits_for_value\<close>: with a 32-bit
  index they are accepted, and the index that counts the entries wraps before it reaches the size.
\<close>

lemma ctor_hangs:
  fixes n :: u64
  assumes n: "unat n = 2 ^ k" "32 \<le> k" and w: "LENGTH('l::len) \<le> k"
  shows "(mpmc_queue 0 n :: (ctor_error + ('v::zero, 'l) queue) option) = None"
proof -
  have k: "k < 64"
  proof -
    have "(2::nat) ^ k < 2 ^ LENGTH(64)" using n(1) by (metis unsigned_less)
    then have "k < LENGTH(64)" by (rule power_less_imp_less_exp [rotated]) simp
    then show ?thesis by simp
  qed
  have nz: "0 < n" using n by (metis unat_gt_0 word_gt_0 zero_less_numeral zero_less_power)
  have pow: "n AND (n - 1) = 0" using and_pred_pow2 (2) [of k n] n k by simp
  have z: "(ucast n :: u32) = 0" using n by (rule low_half_zero)
  have bits: "\<not> bits_in_index TYPE('l) \<le> bits_for_value (ucast n)"
    unfolding z using w k
    by (simp add: bits_for_value_def bits_for_value_loop.simps bits_in_index_def word_le_nat_alt
        unsigned_of_nat take_bit_eq_mod)
  let ?arr = "arr_new 0 n entry_clear :: ('v, 'l) entries"
  have "arr_ok ?arr" by (rule arr_new_ok) (use nz pow in auto)
  moreover have "arr_size ?arr = n" by (simp add: arr_new_size)
  ultimately have "spin init_body (0 :: 'l word, ?arr) = None"
  proof (intro spin_diverges [where P = "\<lambda>s. arr_ok (snd s) \<and> arr_size (snd s) = n"] conjI; (elim conjE)?)
    fix s :: "'l word \<times> ('v, 'l) entries"
    assume s: "arr_ok (snd s)" "arr_size (snd s) = n"
    have "unat (ucast (fst s) :: size_t) \<le> unat (fst s)"
      by (simp add: unsigned_ucast_eq take_bit_eq_mod)
    also have "unat (fst s) < 2 ^ LENGTH('l)" by (rule unsigned_less)
    also have "(2::nat) ^ LENGTH('l) \<le> 2 ^ k" using w by (rule power_increasing) simp
    finally have "(ucast (fst s) :: size_t) < arr_size (snd s)"
      using s(2) n(1) by (simp add: word_less_nat_alt)
    moreover obtain e where "arr_at (snd s) (ucast (fst s)) = Some e"
      using arr.at_total [OF s(1)] by blast
    ultimately show "\<exists>s'. init_body s = Some (Loop s') \<and> (arr_ok (snd s') \<and> arr_size (snd s') = n)"
      using s by (simp add: init_body_def Let_def arr.ok_put arr_put_total)
  qed simp_all
  then show ?thesis using pow bits by (simp add: mpmc_queue_def Let_def)
qed

text \<open>
  Every queue that the constructor returns, of a size that memory can hold, is the empty queue with
  all its cells in place.
\<close>

lemma runtime_ctor_size:
  fixes sz :: u64
  assumes new: "(mpmc_queue 0 sz :: (ctor_error + ('v::zero, 'l::len) queue) option) = Some (Inr q)"
    and w: "LENGTH('l) \<in> {32, 64}" and sz: "sz \<noteq> 0" "unat sz < 2 ^ 63"
  obtains k where "unat sz = 2 ^ k" and "k + 2 \<le> LENGTH('l)"
proof -
  have "sz AND (sz - 1) = 0"
    using new ctor_refuses(2) [of sz, where 'v = 'v and 'l = 'l] by fastforce
  with sz(1) obtain k where k: "k < LENGTH(64)" "unat sz = 2 ^ k" using word_pow2_and [of sz] by blast
  have "k < 63"
  proof -
    have "(2::nat) ^ k < 2 ^ 63" using sz(2) k(2) by simp
    then show ?thesis by (rule power_less_imp_less_exp [rotated]) simp
  qed
  moreover have "k + 2 \<le> 32" if "LENGTH('l) = 32"
  proof (rule ccontr)
    assume n: "\<not> k + 2 \<le> 32"
    show False
    proof (cases "k < 32")
      case True
      with n that ctor_refuses(3) [OF k(2) True, where 'v = 'v and 'l = 'l] new show False by simp
    next
      case False
      with that ctor_hangs [OF k(2), where 'v = 'v and 'l = 'l] new show False by simp
    qed
  qed
  ultimately show ?thesis using k that w by auto
qed

definition constructed :: "size_t \<Rightarrow> u64 \<Rightarrow> nat \<Rightarrow> ('v::zero, 'l::len) queue \<Rightarrow> bool" where
  "constructed N sz n q \<longleftrightarrow>
     static_asserts TYPE('l) N \<and> mpmc_queue N sz = Some (Inr q) \<and> unat sz = n \<and> 0 < n \<and> n < 2 ^ 63"

lemma constructed_rep:
  fixes q :: "('v::zero, 'l::len) queue"
  assumes "constructed N sz n q"
  shows "rep q n 0 0 0 []"
proof -
  have w: "LENGTH('l) \<in> {32, 64}" "LENGTH('l) \<le> 64"
    and new: "(mpmc_queue N sz :: (ctor_error + ('v, 'l) queue) option) = Some (Inr q)" and n: "unat sz = n" "0 < n" "n < 2 ^ 63"
    using assms by (auto simp: constructed_def static_asserts_def)
  show ?thesis
  proof (cases "N = 0")
    case True
    with new obtain k where k: "unat sz = 2 ^ k" "k + 2 \<le> LENGTH('l)"
      using runtime_ctor_size [of sz q] w(1) n by (metis unat_0 less_numeral_extra(3))
    from ctor_runtime [OF k w(2), where 'v = 'v] new True k(1) n(1) show ?thesis by auto
  next
    case False
    have "sz = N" using ctor_refuses(1) [OF False, where 'v = 'v and 'l = 'l] new by fastforce
    have N: "inplace_static_assert N" "N < 2 ^ 32" "bits_in_index TYPE('l) > bits_for_value (ucast N)"
      using assms False by (auto simp: constructed_def static_asserts_def)
    obtain k where k: "k < LENGTH(64)" "unat N = 2 ^ k"
      using word_pow2_and [of N] N(1) False by (auto simp: inplace_static_assert_def)
    have "k < 32"
    proof -
      have "(2::nat) ^ k < 2 ^ 32" using N(2) k(2) by (simp add: word_less_nat_alt)
      then show ?thesis by (rule power_less_imp_less_exp [rotated]) simp
    qed
    with size_test [OF k(2) this, where 'l = 'l] N(3) w have "k + 2 \<le> LENGTH('l)" by auto
    from ctor_static [OF N(1) k(2) this w(2), where 'v = 'v] new \<open>sz = N\<close> k(2) n(1) show ?thesis by auto
  qed
qed

text \<open>Size 0, the default argument of the run time class, is accepted; no operation returns on it.\<close>

lemma ctor_zero:
  fixes q :: "('v::zero, 'l::len) queue"
  assumes w: "LENGTH('l) \<in> {32, 64}"
  defines "q \<equiv> \<lparr>write_index = 0, read_index = 0, ring = arr_new 0 0 entry_clear\<rparr>"
  shows "mpmc_queue 0 0 = Some (Inr q)" and "push lp d q = None" and "pop lo d q = None" and "destroy lo d q = None"
proof -
  have "\<not> bits_in_index TYPE('l) \<le> bits_for_value 0"
    using w by (auto simp: bits_for_value_def bits_for_value_loop.simps bits_in_index_def word_le_nat_alt)
  moreover have "spin init_body (0 :: 'l word, arr_new 0 0 entry_clear :: ('v, 'l) entries)
      = Some (arr_new 0 0 entry_clear)"
    by (simp add: spin_Return init_body_def arr_new_size)
  ultimately show "mpmc_queue 0 0 = Some (Inr q)"
    by (simp add: mpmc_queue_def q_def)
  have none: "entry_at q i = None" for i
    by (simp add: entry_at_def q_def arr_new_def runtime_new_0)
  show "push lp d q = None" by (simp add: push_def spin_None push_body_def none)
  show pop: "pop lo d q = None" for lo d by (simp add: pop_def spin_None pop_body_def none)
  show "destroy lo d q = None" by (simp add: destroy_def spin_None destroy_body_def pop)
qed

section \<open>States reached by cycles of push and pop\<close>

fun cycles :: "bool \<Rightarrow> bool \<Rightarrow> 'v \<Rightarrow> nat \<Rightarrow> ('v::zero, 'l::len) queue \<Rightarrow> ('v, 'l) queue option" where
  "cycles lp lo d 0 q = Some q"
| "cycles lp lo d (Suc k) q =
     Option.bind (push lp d q) (\<lambda>(_, q'). Option.bind (pop lo d q') (\<lambda>(_, _, q''). cycles lp lo d k q''))"

lemma cycles_lazy:
  assumes "rep q n w r h []"
  shows "\<exists>w' q'. cycles lp True d k q = Some q' \<and> rep q' n w' (if k = 0 then r else h + k - 1) (h + k) []"
  using assms
proof (induction k arbitrary: q w r h)
  case 0
  then show ?case by auto
next
  case (Suc k)
  have n: "0 < n" using shape_bounds(1) [OF rep_shape [OF Suc.prems]] .
  obtain q1 where q1: "push lp d q = Some (True, q1)" "rep q1 n (if lp then h else h + 1) r h [d]"
    using push_correct(1) [OF Suc.prems, of lp d] n by (simp split: if_splits) blast+
  obtain q2 where q2: "pop True d q1 = Some (True, d, q2)" "rep q2 n (if lp then h else h + 1) h (h + 1) []"
    using pop_correct(1) [OF q1(2), of True d] by auto
  obtain w' q' where "cycles lp True d k q2 = Some q'" "rep q' n w' (h + k) (h + 1 + k) []"
    using Suc.IH [OF q2(2)] by (cases k) auto
  with q1(1) q2(1) show ?case by (intro exI [of _ w'] exI [of _ q']) simp
qed

lemma cycles_eager:
  assumes "rep q n w r h []"
  shows "\<exists>w' r' q'. cycles False False d k q = Some q' \<and> rep q' n w' r' (h + k) [] \<and> (0 < k \<longrightarrow> w' = h + k \<and> r' = h + k)"
  using assms
proof (induction k arbitrary: q w r h)
  case 0
  then show ?case by auto
next
  case (Suc k)
  have n: "0 < n" using shape_bounds(1) [OF rep_shape [OF Suc.prems]] .
  obtain q1 where q1: "push False d q = Some (True, q1)" "rep q1 n (h + 1) r h [d]"
    using push_correct(1) [OF Suc.prems, of False d] n by auto
  obtain q2 where q2: "pop False d q1 = Some (True, d, q2)" "rep q2 n (h + 1) (h + 1) (h + 1) []"
    using pop_correct(1) [OF q1(2), of False d] by auto
  obtain w' r' q' where "cycles False False d k q2 = Some q'" "rep q' n w' r' (h + 1 + k) []"
    "0 < k \<longrightarrow> w' = h + 1 + k \<and> r' = h + 1 + k"
    using Suc.IH [OF q2(2)] by blast
  with q1(1) q2 show ?case by (cases k) auto
qed

end
