(* ===== verification/Machine.thy ===== *)
theory Machine
  imports MpmcInit
begin

text \<open>
  \<^verbatim>\<open>mpmc_queue\<close> as a concurrent program. Any number of threads call the operations; one step of a
  thread is one atomic access of the code: the load of an index, the load of an entry, the compare
  and exchange of an entry, the compare and exchange of an index. What a thread does between two
  accesses is local. The steps use the same tests (\<open>push_verdict\<close>, \<open>pop_verdict\<close>, \<open>peek_verdict\<close>)
  and the same atomic operations as the sequential definitions of \<open>Mpmc\<close>; the theory \<open>Solo\<close> shows
  that a thread running alone computes those definitions. \<^verbatim>\<open>push_keep_n\<close>, \<^verbatim>\<open>consume\<close> and the
  destructor are sequences of these calls.
\<close>

section \<open>Threads\<close>

datatype ('v, 'i) op =
    Push 'v
  | Pop
  | Peek
  | Pop_if "'v \<Rightarrow> 'i \<Rightarrow> bool"
  | Exchange 'i 'v 'v
  | Is_empty

text \<open>
  What a call did to the queue, and what it returns: \<^verbatim>\<open>true\<close> with the index and the element, or
  \<^verbatim>\<open>false\<close>. The event of a call happens at one of its steps.
\<close>

datatype ('v, 'i) event =
    Pushed 'i 'v
  | Push_full
  | Popped 'i 'v
  | Pop_empty
  | Declined 'i 'v
  | Peeked 'i 'v
  | Peek_empty
  | Exchanged 'i 'v 'v
  | Not_exchanged 'i 'v 'v
  | Saw_empty bool

fun returned :: "('v, 'i) event \<Rightarrow> bool" where
  "returned (Pushed i d) = True"
| "returned Push_full = False"
| "returned (Popped i d) = True"
| "returned Pop_empty = False"
| "returned (Declined i d) = False"
| "returned (Peeked i d) = True"
| "returned Peek_empty = False"
| "returned (Exchanged i a b) = True"
| "returned (Not_exchanged i a b) = False"
| "returned (Saw_empty b) = b"

text \<open>Where a thread is in its call.\<close>

datatype ('v, 'i, 'e) pc =
    Idle
  | Load_index "('v, 'i) op"
  | Read_entry "('v, 'i) op" 'i
  | Cas_entry "('v, 'i) op" 'i 'e 'e
  | Help_index "('v, 'i) op" 'i
  | Move_index "('v, 'i) op" 'i "('v, 'i) event"
  | Finished "('v, 'i) op" "('v, 'i) event"

type_synonym ('v, 'l) thread = "('v, 'l word, ('v, 'l) entry) pc"

fun writes :: "('v, 'i) op \<Rightarrow> bool" where
  "writes (Push d) = True"
| "writes _ = False"

definition index_of :: "('v, 'l word) op \<Rightarrow> ('v, 'l::len) queue \<Rightarrow> 'l word" where
  "index_of c q = (if writes c then write_index q else read_index q)"

definition cas_index :: "('v, 'l word) op \<Rightarrow> 'l word \<Rightarrow> ('v, 'l::len) queue \<Rightarrow> ('v, 'l) queue" where
  "cas_index c i q = (if writes c then cas_write_index i (i + 1) q else cas_read_index i (i + 1) q)"

text \<open>\<^verbatim>\<open>exchange\<close> starts with its compare and exchange, the other operations load an index.\<close>

fun start :: "('v, 'l word) op \<Rightarrow> ('v::zero, 'l::len) thread" where
  "start (Exchange i a b) = Cas_entry (Exchange i a b) i (entry_of (seq_full i) a) (entry_of (seq_full i) b)"
| "start c = Load_index c"

text \<open>The decision after an entry was read: where to go, and the event if the call is decided.\<close>

fun decide ::
  "size_t \<Rightarrow> ('v, 'l word) op \<Rightarrow> 'l word \<Rightarrow> ('v::zero, 'l::len) entry \<Rightarrow> ('v, 'l) thread \<times> ('v, 'l word) event option" where
  "decide sz (Push d) i e =
     (case push_verdict sz i (get_seq e) of
        Take \<Rightarrow> (Cas_entry (Push d) i (entry_of_seq (seq_empty i)) (entry_of (seq_full i) d), None)
      | Help \<Rightarrow> (Help_index (Push d) i, None)
      | Refuse \<Rightarrow> (Finished (Push d) Push_full, Some Push_full)
      | Again \<Rightarrow> (Load_index (Push d), None))"
| "decide sz Pop i e =
     (case pop_verdict sz i (get_seq e) of
        Take \<Rightarrow> (Cas_entry Pop i e (entry_of_seq (seq_next_empty sz i)), None)
      | Help \<Rightarrow> (Help_index Pop i, None)
      | Refuse \<Rightarrow> (Finished Pop Pop_empty, Some Pop_empty)
      | Again \<Rightarrow> (Load_index Pop, None))"
| "decide sz Peek i e =
     (case peek_verdict sz i (get_seq e) of
        Refuse \<Rightarrow> (Finished Peek Peek_empty, Some Peek_empty)
      | Take \<Rightarrow> (Finished Peek (Peeked (get_seq e) (get_data e)), Some (Peeked (get_seq e) (get_data e)))
      | Help \<Rightarrow> (Help_index Peek i, None)
      | Again \<Rightarrow> (Load_index Peek, None))"
| "decide sz (Pop_if f) i e =
     (case peek_verdict sz i (get_seq e) of
        Refuse \<Rightarrow> (Finished (Pop_if f) Pop_empty, Some Pop_empty)
      | Take \<Rightarrow>
          (if \<not> f (get_data e) (get_seq e)
           then (Finished (Pop_if f) (Declined (get_seq e) (get_data e)), Some (Declined (get_seq e) (get_data e)))
           else (Cas_entry (Pop_if f) i e (entry_of_seq (seq_next_empty sz i)), None))
      | Help \<Rightarrow> (Help_index (Pop_if f) i, None)
      | Again \<Rightarrow> (Load_index (Pop_if f), None))"
| "decide sz Is_empty i e =
     (Finished Is_empty (Saw_empty (get_seq e = seq_empty i)), Some (Saw_empty (get_seq e = seq_empty i)))"
| "decide sz (Exchange j a b) i e = (start (Exchange j a b), None)"

text \<open>What follows the compare and exchange of an entry; \<open>e\<close> is the expected entry.\<close>

fun swapped ::
  "bool \<Rightarrow> bool \<Rightarrow> ('v, 'l word) op \<Rightarrow> 'l word \<Rightarrow> ('v::zero, 'l::len) entry \<Rightarrow> ('v, 'l) thread \<times> ('v, 'l word) event option" where
  "swapped lp lo (Push d) i e =
     (if \<not> lp then Move_index (Push d) i (Pushed i d) else Finished (Push d) (Pushed i d), Some (Pushed i d))"
| "swapped lp lo (Exchange j a b) i e = (Finished (Exchange j a b) (Exchanged j a b), Some (Exchanged j a b))"
| "swapped lp lo c i e =
     (if \<not> lo then Move_index c i (Popped i (get_data e)) else Finished c (Popped i (get_data e)),
      Some (Popped i (get_data e)))"

fun not_swapped :: "('v, 'l word) op \<Rightarrow> ('v, 'l::len) thread \<times> ('v, 'l word) event option" where
  "not_swapped (Exchange j a b) =
     (Finished (Exchange j a b) (Not_exchanged j a b), Some (Not_exchanged j a b))"
| "not_swapped c = (Load_index c, None)"

fun tstep ::
  "bool \<Rightarrow> bool \<Rightarrow> ('v::zero, 'l::len) queue \<Rightarrow> ('v, 'l) thread
     \<Rightarrow> (('v, 'l) thread \<times> ('v, 'l) queue \<times> ('v, 'l word) event option) option" where
  "tstep lp lo q Idle = None"
| "tstep lp lo q (Load_index c) = Some (Read_entry c (index_of c q), q, None)"
| "tstep lp lo q (Read_entry c i) =
     map_option (\<lambda>e. let (p, ev) = decide (capacity q) c i e in (p, q, ev)) (entry_at q i)"
| "tstep lp lo q (Cas_entry c i e e') =
     map_option (\<lambda>(ok, q'). let (p, ev) = (if ok then swapped lp lo c i e else not_swapped c) in (p, q', ev))
       (cas_entry q i e e')"
| "tstep lp lo q (Help_index c i) = Some (Load_index c, cas_index c i q, None)"
| "tstep lp lo q (Move_index c i ev) = Some (Finished c ev, cas_index c i q, None)"
| "tstep lp lo q (Finished c ev) = None"

section \<open>The system\<close>

text \<open>
  The queue in memory and the threads, with counters that are not part of the program: the
  positions of the two indexes (their values without wrap-around), the numbers of elements pushed
  and popped so far, and for each thread the position of the index it loaded last.
\<close>

record ('v, 'w) sys_state =
  mem :: "('v, 'w) queue_state"
  pcs :: "nat \<Rightarrow> ('v, 'w, ('v, 'w) entry_data) pc"
  wpos :: nat
  rpos :: nat
  pushes :: nat
  pops :: nat
  stamp :: "nat \<Rightarrow> nat"

type_synonym ('v, 'l) sys = "('v, 'l word) sys_state"

definition initial :: "('v, 'l::len) queue \<Rightarrow> ('v, 'l) sys" where
  "initial q = \<lparr>mem = q, pcs = \<lambda>_. Idle, wpos = 0, rpos = 0, pushes = 0, pops = 0, stamp = \<lambda>_. 0\<rparr>"

fun count_index :: "nat \<Rightarrow> ('v, 'l::len) thread \<Rightarrow> ('v, 'l) sys \<Rightarrow> ('v, 'l) sys" where
  "count_index t (Load_index c) s = s\<lparr>stamp := (stamp s)(t := if writes c then wpos s else rpos s)\<rparr>"
| "count_index t (Help_index c i) s =
     (if index_of c (mem s) \<noteq> i then s else if writes c then s\<lparr>wpos := wpos s + 1\<rparr> else s\<lparr>rpos := rpos s + 1\<rparr>)"
| "count_index t (Move_index c i ev) s =
     (if index_of c (mem s) \<noteq> i then s else if writes c then s\<lparr>wpos := wpos s + 1\<rparr> else s\<lparr>rpos := rpos s + 1\<rparr>)"
| "count_index t p s = s"

fun count_event :: "('v, 'l word) event option \<Rightarrow> ('v, 'l::len) sys \<Rightarrow> ('v, 'l) sys" where
  "count_event (Some (Pushed i d)) s = s\<lparr>pushes := pushes s + 1\<rparr>"
| "count_event (Some (Popped i d)) s = s\<lparr>pops := pops s + 1\<rparr>"
| "count_event _ s = s"

datatype ('v, 'i) label =
    Call nat "('v, 'i) op"
  | Act nat "('v, 'i) event option"
  | Ret nat "('v, 'i) event"

definition act :: "nat \<Rightarrow> ('v, 'l::len) thread \<Rightarrow> ('v, 'l) queue \<Rightarrow> ('v, 'l word) event option \<Rightarrow> ('v, 'l) sys \<Rightarrow> ('v, 'l) sys" where
  "act t p q ev s = (count_event ev (count_index t (pcs s t) s))\<lparr>mem := q, pcs := (pcs s)(t := p)\<rparr>"

inductive sys_step ::
  "bool \<Rightarrow> bool \<Rightarrow> ('v::zero, 'l::len) sys \<Rightarrow> ('v, 'l word) label \<Rightarrow> ('v, 'l) sys \<Rightarrow> bool"
  for lp lo where
  call: "pcs s t = Idle \<Longrightarrow> sys_step lp lo s (Call t c) (s\<lparr>pcs := (pcs s)(t := start c)\<rparr>)"
| act: "tstep lp lo (mem s) (pcs s t) = Some (p, q, ev) \<Longrightarrow> sys_step lp lo s (Act t ev) (act t p q ev s)"
| ret: "pcs s t = Finished c ev \<Longrightarrow> sys_step lp lo s (Ret t ev) (s\<lparr>pcs := (pcs s)(t := Idle)\<rparr>)"

inductive_cases sys_step_CallE: "sys_step lp lo s (Call t c) s'"
inductive_cases sys_step_ActE: "sys_step lp lo s (Act t ev) s'"
inductive_cases sys_step_RetE: "sys_step lp lo s (Ret t ev) s'"
inductive_simps sys_step_Call [simp]: "sys_step lp lo s (Call t c) s'"
inductive_simps sys_step_Act: "sys_step lp lo s (Act t ev) s'"
inductive_simps sys_step_Ret: "sys_step lp lo s (Ret t ev) s'"

inductive sys_run ::
  "bool \<Rightarrow> bool \<Rightarrow> ('v::zero, 'l::len) sys \<Rightarrow> ('v, 'l word) label list \<Rightarrow> ('v, 'l) sys \<Rightarrow> bool"
  for lp lo s0 where
  stop: "sys_run lp lo s0 [] s0"
| more: "sys_run lp lo s0 tr s \<Longrightarrow> sys_step lp lo s l s' \<Longrightarrow> sys_run lp lo s0 (tr @ [l]) s'"

section \<open>Recent indexes\<close>

text \<open>
  A sequence word identifies its position only up to half the range of the index type. A thread
  that holds an index is safe as long as fewer than that many positions (less the capacity) have
  been served since it loaded the index; \<open>fresh\<close> says this of every thread.
\<close>

fun holds_index :: "('v, 'l::len) thread \<Rightarrow> ('v, 'l word) op option" where
  "holds_index (Read_entry c i) = Some c"
| "holds_index (Cas_entry (Exchange j a b) i e e') = None"
| "holds_index (Cas_entry c i e e') = Some c"
| "holds_index (Help_index c i) = Some c"
| "holds_index (Move_index c i ev) = Some c"
| "holds_index p = None"

definition served :: "('v, 'l word) op \<Rightarrow> ('v, 'l::len) sys \<Rightarrow> nat" where
  "served c s = (if writes c then pushes s else pops s)"

definition fresh :: "nat \<Rightarrow> ('v, 'l::len) sys \<Rightarrow> bool" where
  "fresh n s \<longleftrightarrow>
     (\<forall>t c. holds_index (pcs s t) = Some c \<longrightarrow> served c s + n \<le> stamp s t + half_range TYPE('l))"

text \<open>A run all of whose states are \<open>fresh\<close>.\<close>

inductive fresh_run ::
  "bool \<Rightarrow> bool \<Rightarrow> nat \<Rightarrow> ('v::zero, 'l::len) sys \<Rightarrow> ('v, 'l word) label list \<Rightarrow> ('v, 'l) sys \<Rightarrow> bool"
  for lp lo n s0 where
  fresh_stop: "fresh_run lp lo n s0 [] s0"
| fresh_more: "fresh_run lp lo n s0 tr s \<Longrightarrow> sys_step lp lo s l s' \<Longrightarrow> fresh n s' \<Longrightarrow>
    fresh_run lp lo n s0 (tr @ [l]) s'"

lemma fresh_run_sys_run: "fresh_run lp lo n s0 tr s \<Longrightarrow> sys_run lp lo s0 tr s"
  by (induction rule: fresh_run.induct) (auto intro: sys_run.intros)

lemma fresh_initial: "fresh n (initial q)"
  by (simp add: fresh_def initial_def)

lemma fresh_run_fresh: "fresh_run lp lo n s0 tr s \<Longrightarrow> fresh n s0 \<Longrightarrow> fresh n s"
  by (induction rule: fresh_run.induct) simp_all

section \<open>Running a schedule\<close>

text \<open>An executable scheduler: the threads to call, to move and to let return, in order.\<close>

datatype ('v, 'i) command = Do_call nat "('v, 'i) op" | Do_step nat | Do_ret nat

fun exec1 ::
  "bool \<Rightarrow> bool \<Rightarrow> ('v, 'l word) command \<Rightarrow> ('v::zero, 'l::len) sys \<Rightarrow> (('v, 'l word) label \<times> ('v, 'l) sys) option" where
  "exec1 lp lo (Do_call t c) s =
     (case pcs s t of Idle \<Rightarrow> Some (Call t c, s\<lparr>pcs := (pcs s)(t := start c)\<rparr>) | _ \<Rightarrow> None)"
| "exec1 lp lo (Do_step t) s =
     map_option (\<lambda>(p, q, ev). (Act t ev, act t p q ev s)) (tstep lp lo (mem s) (pcs s t))"
| "exec1 lp lo (Do_ret t) s =
     (case pcs s t of Finished c ev \<Rightarrow> Some (Ret t ev, s\<lparr>pcs := (pcs s)(t := Idle)\<rparr>) | _ \<Rightarrow> None)"

fun exec ::
  "bool \<Rightarrow> bool \<Rightarrow> ('v, 'l word) command list \<Rightarrow> ('v::zero, 'l::len) sys \<Rightarrow> (('v, 'l word) label list \<times> ('v, 'l) sys) option" where
  "exec lp lo [] s = Some ([], s)"
| "exec lp lo (x # xs) s =
     Option.bind (exec1 lp lo x s) (\<lambda>(l, s'). map_option (\<lambda>(tr, s''). (l # tr, s'')) (exec lp lo xs s'))"

lemma exec1_step: "exec1 lp lo x s = Some (l, s') \<Longrightarrow> sys_step lp lo s l s'"
  by (cases x) (auto intro: sys_step.intros split: pc.splits)

lemma sys_run_Cons: "sys_run lp lo s' tr s'' \<Longrightarrow> sys_step lp lo s l s' \<Longrightarrow> sys_run lp lo s (l # tr) s''"
proof (induction rule: sys_run.induct)
  case stop
  then show ?case using sys_run.more [OF sys_run.stop, of lp lo s l s'] by simp
next
  case (more tr s1 l1 s2)
  then show ?case using sys_run.more [of lp lo s "l # tr" s1 l1 s2] by simp
qed

lemma exec_run: "exec lp lo xs s = Some (tr, s') \<Longrightarrow> sys_run lp lo s tr s'"
proof (induction xs arbitrary: s tr)
  case Nil
  then show ?case by (auto intro: sys_run.stop)
next
  case (Cons x xs)
  then obtain l s1 tr' where "exec1 lp lo x s = Some (l, s1)" "exec lp lo xs s1 = Some (tr', s')" "tr = l # tr'"
    by (auto simp: bind_eq_Some_conv)
  with Cons.IH show ?case by (auto intro: sys_run_Cons exec1_step)
qed

end
