(* ===== verification/Linearize.thy ===== *)
theory Linearize
  imports Machine
begin

text \<open>
  Linearizability of the concurrent queue. The abstract queue is a number \<open>h\<close> of removed elements
  and a list \<open>xs\<close>; \<open>spec_step\<close> says which events it allows. The relation \<open>sim\<close> ties a state of
  the system to an abstract queue, and every step of every thread keeps it, the event of the step
  being an abstract step: each call takes effect at the step where its event happens.
\<close>

section \<open>The abstract queue\<close>

definition find_addressed :: "'l::len word \<Rightarrow> 'v \<Rightarrow> nat \<Rightarrow> 'v list \<Rightarrow> nat option" where
  "find_addressed i a h xs = List.find (\<lambda>p. addresses i (h + p) \<and> xs ! p = a) [0..<length xs]"

fun spec_step :: "nat \<Rightarrow> nat \<times> 'v list \<Rightarrow> ('v, 'l::len word) event \<Rightarrow> (nat \<times> 'v list) option" where
  "spec_step n (h, xs) (Pushed i d) =
     (if length xs < n \<and> i = of_nat (h + length xs) then Some (h, xs @ [d]) else None)"
| "spec_step n (h, xs) Push_full = (if length xs = n then Some (h, xs) else None)"
| "spec_step n (h, xs) (Popped i d) =
     (if xs \<noteq> [] \<and> hd xs = d \<and> i = of_nat h then Some (h + 1, tl xs) else None)"
| "spec_step n (h, xs) Pop_empty = (if xs = [] then Some (h, xs) else None)"
| "spec_step n (h, xs) (Declined i d) =
     (if xs \<noteq> [] \<and> hd xs = d \<and> i = of_nat (2 * h + 1) then Some (h, xs) else None)"
| "spec_step n (h, xs) (Peeked i d) =
     (if xs \<noteq> [] \<and> hd xs = d \<and> i = of_nat (2 * h + 1) then Some (h, xs) else None)"
| "spec_step n (h, xs) Peek_empty = (if xs = [] then Some (h, xs) else None)"
| "spec_step n (h, xs) (Exchanged i a b) =
     (case find_addressed i a h xs of None \<Rightarrow> None | Some p \<Rightarrow> Some (h, xs[p := b]))"
| "spec_step n (h, xs) (Not_exchanged i a b) =
     (case find_addressed i a h xs of None \<Rightarrow> Some (h, xs) | Some p \<Rightarrow> None)"
| "spec_step n (h, xs) (Saw_empty b) = (if b \<longrightarrow> xs = [] then Some (h, xs) else None)"

fun spec_run :: "nat \<Rightarrow> nat \<times> 'v list \<Rightarrow> ('v, 'l::len word) event list \<Rightarrow> (nat \<times> 'v list) option" where
  "spec_run n st [] = Some st"
| "spec_run n st (e # es) = Option.bind (spec_step n st e) (\<lambda>st'. spec_run n st' es)"

lemma spec_run_append:
  "spec_run n st (es @ fs) = Option.bind (spec_run n st es) (\<lambda>st'. spec_run n st' fs)"
  by (induction es arbitrary: st) (auto split: bind_split)

fun events :: "('v, 'i) label list \<Rightarrow> ('v, 'i) event list" where
  "events [] = []"
| "events (Act t (Some ev) # tr) = ev # events tr"
| "events (_ # tr) = events tr"

lemma events_append: "events (tr @ tr') = events tr @ events tr'"
  by (induction tr rule: events.induct) auto

section \<open>The simulation relation\<close>

text \<open>\<open>x\<close> is the position of the index \<open>i\<close> that a thread calling \<open>c\<close> has loaded.\<close>

definition index_pos :: "('v, 'l word) op \<Rightarrow> ('v, 'l::len) sys \<Rightarrow> nat" where
  "index_pos c s = (if writes c then wpos s else rpos s)"

definition loaded :: "('v, 'l word) op \<Rightarrow> 'l word \<Rightarrow> nat \<Rightarrow> ('v, 'l::len) sys \<Rightarrow> bool" where
  "loaded c i x s \<longleftrightarrow> i = of_nat x \<and> x \<le> index_pos c s"

fun loads :: "('v, 'i) op \<Rightarrow> bool" where
  "loads (Exchange j a b) = False"
| "loads _ = True"

fun takes :: "('v, 'i) op \<Rightarrow> bool" where
  "takes Pop = True"
| "takes (Pop_if f) = True"
| "takes _ = False"

fun pc_ok :: "nat \<Rightarrow> ('v::zero, 'l::len) sys \<Rightarrow> nat \<Rightarrow> ('v, 'l) thread \<Rightarrow> bool" where
  "pc_ok n s x Idle = True"
| "pc_ok n s x (Load_index c) = loads c"
| "pc_ok n s x (Read_entry c i) = (loads c \<and> loaded c i x s)"
| "pc_ok n s x (Cas_entry (Push d) i e e') = (loaded (Push d) i x s \<and> e = empty_at x \<and> e' = full_at x d)"
| "pc_ok n s x (Cas_entry (Exchange j a b) i e e') =
     (i = j \<and> e = entry_of (seq_full j) a \<and> e' = entry_of (seq_full j) b)"
| "pc_ok n s x (Cas_entry c i e e') =
     (takes c \<and> loaded c i x s \<and> e = full_at x (get_data e) \<and> e' = empty_at (x + n))"
| "pc_ok n s x (Help_index c i) = (loads c \<and> loaded c i x s \<and> x < served c s)"
| "pc_ok n s x (Move_index c i ev) = (loads c \<and> loaded c i x s \<and> x < served c s)"
| "pc_ok n s x (Finished c ev) = True"

definition sim :: "nat \<Rightarrow> ('v::zero, 'l::len) sys \<Rightarrow> nat \<Rightarrow> 'v list \<Rightarrow> bool" where
  "sim n s h xs \<longleftrightarrow>
     rep (mem s) n (wpos s) (rpos s) h xs \<and> pops s = h \<and> pushes s = h + length xs \<and>
     (\<forall>t. pc_ok n s (stamp s t) (pcs s t))"

lemma sim_rep: "sim n s h xs \<Longrightarrow> rep (mem s) n (wpos s) (rpos s) h xs"
  and sim_served: "sim n s h xs \<Longrightarrow> served c s = (if writes c then h + length xs else h)"
  and sim_pc: "sim n s h xs \<Longrightarrow> pc_ok n s (stamp s t) (pcs s t)"
  by (simp_all add: sim_def served_def)

lemma sim_index:
  assumes "sim n s h xs"
  shows "index_of c (mem s) = of_nat (index_pos c s)" and "index_pos c s \<le> served c s" and "served c s \<le> index_pos c s + 1"
  using rep_indexes [OF sim_rep [OF assms]] sim_served [OF assms, of c]
  by (simp_all add: index_of_def index_pos_def)

text \<open>What a thread knows stays true while the queue moves on.\<close>

definition later :: "('v, 'l::len) sys \<Rightarrow> ('v, 'l) sys \<Rightarrow> bool" where
  "later s s' \<longleftrightarrow> wpos s \<le> wpos s' \<and> rpos s \<le> rpos s' \<and> pushes s \<le> pushes s' \<and> pops s \<le> pops s'"

lemma loaded_later: "loaded c i x s \<Longrightarrow> later s s' \<Longrightarrow> loaded c i x s'"
  by (auto simp: loaded_def index_pos_def later_def)

lemma served_later: "x < served c s \<Longrightarrow> later s s' \<Longrightarrow> x < served c s'"
  by (auto simp: served_def later_def split: if_splits)

lemma pc_ok_later: "pc_ok n s x p \<Longrightarrow> later s s' \<Longrightarrow> pc_ok n s' x p"
  by (cases p; (cases "case p of Cas_entry c i e e' \<Rightarrow> c | _ \<Rightarrow> Pop")?)
    (auto intro: loaded_later served_later)

lemma sim_move:
  assumes "sim n s h xs" and "rep (mem s') n (wpos s') (rpos s') h' xs'" and "later s s'"
    and "pops s' = h'" and "pushes s' = h' + length xs'"
    and "pcs s' = (pcs s)(t := p)" and "\<And>u. u \<noteq> t \<Longrightarrow> stamp s' u = stamp s u" and "pc_ok n s' (stamp s' t) p"
  shows "sim n s' h' xs'"
proof -
  have "pc_ok n s' (stamp s' u) (pcs s' u)" for u
    using assms(6,7,8) pc_ok_later [OF sim_pc [OF assms(1)] assms(3), of u] by (cases "u = t") simp_all
  with assms(2,4,5) show ?thesis by (simp add: sim_def)
qed

section \<open>The steps of a thread\<close>

text \<open>
  \<open>step_ok\<close> is what each step has to show: the event is a step of the abstract queue, and the
  relation holds afterwards.
\<close>

definition step_ok ::
  "nat \<Rightarrow> ('v::zero, 'l::len) sys \<Rightarrow> nat \<Rightarrow> 'v list \<Rightarrow> ('v, 'l word) event option \<Rightarrow> bool" where
  "step_ok n s' h xs ev \<longleftrightarrow>
     (case ev of None \<Rightarrow> sim n s' h xs
      | Some e \<Rightarrow> (\<exists>h' xs'. spec_step n (h, xs) e = Some (h', xs') \<and> sim n s' h' xs'))"

lemma act_fields [simp]:
  "mem (act t p q ev s) = q" "pcs (act t p q ev s) = (pcs s)(t := p)"
  by (simp_all add: act_def)

lemma count_event_fields [simp]:
  "wpos (count_event ev s) = wpos s" "rpos (count_event ev s) = rpos s" "stamp (count_event ev s) = stamp s"
  "pcs (count_event ev s) = pcs s" "mem (count_event ev s) = mem s"
  by (cases "(ev, s)" rule: count_event.cases; simp)+

lemma count_index_fields [simp]:
  "pushes (count_index t p s) = pushes s" "pops (count_index t p s) = pops s" "pcs (count_index t p s) = pcs s"
  "mem (count_index t p s) = mem s"
  "u \<noteq> t \<Longrightarrow> stamp (count_index t p s) u = stamp s u"
  by (cases "(t, p, s)" rule: count_index.cases; simp)+

lemma act_counts [simp]:
  "wpos (act t p q ev s) = wpos (count_index t (pcs s t) s)"
  "rpos (act t p q ev s) = rpos (count_index t (pcs s t) s)"
  "stamp (act t p q ev s) = stamp (count_index t (pcs s t) s)"
  "pushes (act t p q ev s) = pushes (count_event ev (count_index t (pcs s t) s))"
  "pops (act t p q ev s) = pops (count_event ev (count_index t (pcs s t) s))"
  by (simp_all add: act_def)

lemma count_pushes:
  "pushes (count_event ev s) = (case ev of Some (Pushed i d) \<Rightarrow> pushes s + 1 | _ \<Rightarrow> pushes s)"
  and count_pops: "pops (count_event ev s) = (case ev of Some (Popped i d) \<Rightarrow> pops s + 1 | _ \<Rightarrow> pops s)"
  by (cases "(ev, s)" rule: count_event.cases; simp)+

lemma later_act: "later s (act t p q ev s)"
proof -
  have "wpos s \<le> wpos (count_index t (pcs s t) s)" "rpos s \<le> rpos (count_index t (pcs s t) s)"
    by (cases "(t, pcs s t, s)" rule: count_index.cases; simp)+
  then show ?thesis
    by (simp add: later_def count_pushes count_pops split: option.split event.split)
qed

lemma load_step:
  assumes sim: "sim n s h xs" and pc: "pcs s t = Load_index c"
  shows "step_ok n (act t (Read_entry c (index_of c (mem s))) (mem s) None s) h xs None"
proof -
  have "pc_ok n (act t (Read_entry c (index_of c (mem s))) (mem s) None s) (index_pos c s) (Read_entry c (index_of c (mem s)))"
    using sim_pc [OF sim, of t] pc sim_index [OF sim, of c]
    by (auto simp: loaded_def index_pos_def)
  then show ?thesis unfolding step_ok_def option.case
    by (intro sim_move [OF sim, where t = t]) (use sim pc in \<open>auto simp: sim_def later_def index_pos_def\<close>)
qed

lemma fresh_index:
  fixes s :: "('v, 'l::len) sys"
  assumes "fresh n s" and "holds_index (pcs s t) = Some c"
  shows "served c s + n \<le> stamp s t + half_range TYPE('l)"
  using assms by (auto simp: fresh_def)

text \<open>The compare and exchange of an index moves it exactly when it still has the loaded position.\<close>

lemma index_unmoved:
  fixes s :: "('v::zero, 'l::len) sys"
  assumes sim: "sim n s h xs" and ld: "loaded c i x s" and fr: "served c s + n \<le> x + half_range TYPE('l)"
  shows "index_of c (mem s) = i \<longleftrightarrow> index_pos c s = x"
proof -
  have "index_pos c s < x + 2 * half_range TYPE('l)"
    using sim_index(2) [OF sim, of c] fr half_range_pos [where 'l = 'l] by linarith
  moreover have "x \<le> index_pos c s" "i = of_nat x" using ld by (simp_all add: loaded_def)
  ultimately show ?thesis
    unfolding sim_index(1) [OF sim] using mod_eq_close [of "index_pos c s" _ x] by (auto simp: of_nat_word_eq)
qed

lemma cas_index_rep:
  fixes s :: "('v::zero, 'l::len) sys"
  assumes sim: "sim n s h xs" and ld: "loaded c i x s" and lt: "x < served c s"
    and fr: "served c s + n \<le> x + half_range TYPE('l)"
  shows "rep (cas_index c i (mem s)) n (wpos (count_index t (Help_index c i) s)) (rpos (count_index t (Help_index c i) s)) h xs"
proof -
  note rep = sim_rep [OF sim] and un = index_unmoved [OF sim ld fr]
  have i: "i = of_nat x" using ld by (simp add: loaded_def)
  show ?thesis
  proof (cases "index_of c (mem s) = i")
    case True
    with un have x: "index_pos c s = x" by simp
    show ?thesis
    proof (cases "writes c")
      case w: True
      with x lt sim_served [OF sim, of c] have "wpos s = x" "wpos s < h + length xs" by (simp_all add: index_pos_def)
      with rep_cas_write [OF rep] show ?thesis using True i w by (simp add: cas_index_def)
    next
      case w: False
      with x lt sim_served [OF sim, of c] have "rpos s = x" "rpos s < h" by (simp_all add: index_pos_def)
      with rep_cas_read [OF rep] show ?thesis using True i w by (simp add: cas_index_def)
    qed
  next
    case False
    then have "cas_index c i (mem s) = mem s"
      by (auto simp: cas_index_def index_of_def cas_write_index_def cas_read_index_def compare_exchange_def)
    with rep False show ?thesis by simp
  qed
qed

lemma index_step:
  fixes s :: "('v::zero, 'l::len) sys"
  assumes sim: "sim n s h xs" and fr: "fresh n s"
    and pc: "pcs s t = Help_index c i \<and> p = Load_index c \<or> pcs s t = Move_index c i e \<and> p = Finished c e"
  shows "step_ok n (act t p (cas_index c i (mem s)) None s) h xs None"
proof -
  let ?x = "stamp s t"
  have ld: "loads c" "loaded c i ?x s" "?x < served c s"
    using sim_pc [OF sim, of t] pc by auto
  have f: "served c s + n \<le> ?x + half_range TYPE('l)"
    by (rule fresh_index [OF fr]) (use pc in auto)
  have eq: "wpos (count_index t (pcs s t) s) = wpos (count_index t (Help_index c i) s)"
    "rpos (count_index t (pcs s t) s) = rpos (count_index t (Help_index c i) s)"
    using pc by auto
  have "rep (cas_index c i (mem s)) n (wpos (count_index t (Help_index c i) s)) (rpos (count_index t (Help_index c i) s)) h xs"
    by (rule cas_index_rep [OF sim ld(2,3) f])
  then show ?thesis unfolding step_ok_def option.case
    by (intro sim_move [OF sim _ later_act, where t = t]) (use sim pc eq ld(1) in \<open>auto simp: sim_def\<close>)
qed

text \<open>A load of an entry: nothing changes in memory; the decision rests on the view lemmas.\<close>

lemma read_keeps:
  assumes sim: "sim n s h xs" and pc: "pcs s t = Read_entry c i"
    and "\<And>i d. ev \<noteq> Some (Pushed i d)" and "\<And>i d. ev \<noteq> Some (Popped i d)"
    and ok: "pc_ok n s (stamp s t) p"
  shows "sim n (act t p (mem s) ev s) h xs"
proof (rule sim_move [OF sim _ later_act, where t = t])
  show "pc_ok n (act t p (mem s) ev s) (stamp (act t p (mem s) ev s) t) p"
    using pc_ok_later [OF ok later_act] pc by simp
qed (use sim pc assms(3,4) in \<open>auto simp: sim_def count_pushes count_pops split: option.split event.split\<close>)

text \<open>What a thread that reads an entry learns from it.\<close>

lemma read_position:
  fixes s :: "('v::zero, 'l::len) sys"
  assumes sim: "sim n s h xs" and fr: "fresh n s" and pc: "pcs s t = Read_entry c i"
    and e: "entry_at (mem s) i = Some e"
  obtains y where "i = of_nat (stamp s t)" and "stamp s t \<le> served c s"
    and "served c s + n \<le> stamp s t + half_range TYPE('l)"
    and "h \<le> y" and "y < h + n" and "y mod n = stamp s t mod n" and "e = cell h xs y"
proof -
  note rep = sim_rep [OF sim]
  have ld: "loads c" "loaded c i (stamp s t) s" using sim_pc [OF sim, of t] pc by auto
  then have i: "i = of_nat (stamp s t)" and le: "stamp s t \<le> served c s"
    using sim_index(2) [OF sim, of c] by (auto simp: loaded_def)
  have f: "served c s + n \<le> stamp s t + half_range TYPE('l)"
    by (rule fresh_index [OF fr]) (use pc in auto)
  obtain y where "h \<le> y" "y < h + n" "y mod n = stamp s t mod n" "e = cell h xs y"
    using cell_seen [OF rep_shape [OF rep] rep_contents [OF rep], of "stamp s t"] e i by auto
  with i le f show ?thesis by (rule that)
qed

lemma push_reads:
  fixes s :: "('v::zero, 'l::len) sys"
  assumes sim: "sim n s h xs" and fr: "fresh n s" and pc: "pcs s t = Read_entry c i"
    and e: "entry_at (mem s) i = Some e" and c: "writes c"
  shows "case push_verdict (capacity (mem s)) i (get_seq e) of
      Take \<Rightarrow> stamp s t = served c s \<and> length xs < n \<and> e = empty_at (stamp s t)
    | Help \<Rightarrow> stamp s t < served c s | Refuse \<Rightarrow> length xs = n | Again \<Rightarrow> stamp s t + 1 < served c s"
proof -
  note shape = rep_shape [OF sim_rep [OF sim]] and cont = rep_contents [OF sim_rep [OF sim]]
  obtain y where y: "i = of_nat (stamp s t)" "stamp s t \<le> served c s"
    "served c s + n \<le> stamp s t + half_range TYPE('l)" "h \<le> y" "y < h + n" "y mod n = stamp s t mod n" "e = cell h xs y"
    by (rule read_position [OF sim fr pc e])
  then show ?thesis
    using push_view [OF shape cont _ _ y(4-6)] sim_served [OF sim, of c] c by (simp split: verdict.splits)
qed

lemma pop_reads:
  fixes s :: "('v::zero, 'l::len) sys"
  assumes sim: "sim n s h xs" and fr: "fresh n s" and pc: "pcs s t = Read_entry c i"
    and e: "entry_at (mem s) i = Some e" and c: "\<not> writes c"
  shows "case pop_verdict (capacity (mem s)) i (get_seq e) of
      Take \<Rightarrow> stamp s t = h \<and> xs \<noteq> [] \<and> e = full_at h (hd xs)
    | Help \<Rightarrow> stamp s t < h | Refuse \<Rightarrow> stamp s t = h \<and> xs = [] | Again \<Rightarrow> stamp s t + 1 < h"
    and "case peek_verdict (capacity (mem s)) i (get_seq e) of
      Take \<Rightarrow> stamp s t = h \<and> xs \<noteq> [] \<and> e = full_at h (hd xs)
    | Help \<Rightarrow> stamp s t < h | Refuse \<Rightarrow> stamp s t = h \<and> xs = [] | Again \<Rightarrow> True"
proof -
  note shape = rep_shape [OF sim_rep [OF sim]]
  obtain y where y: "i = of_nat (stamp s t)" "stamp s t \<le> served c s"
    "served c s + n \<le> stamp s t + half_range TYPE('l)" "h \<le> y" "y < h + n" "y mod n = stamp s t mod n" "e = cell h xs y"
    by (rule read_position [OF sim fr pc e])
  then have "stamp s t \<le> h" "h + n \<le> stamp s t + half_range TYPE('l)" using sim_served [OF sim, of c] c by simp_all
  from pop_view [OF shape this y(4-6), of xs] peek_view [OF shape this y(4-6), of xs] y(1,7)
  show "case pop_verdict (capacity (mem s)) i (get_seq e) of
      Take \<Rightarrow> stamp s t = h \<and> xs \<noteq> [] \<and> e = full_at h (hd xs)
    | Help \<Rightarrow> stamp s t < h | Refuse \<Rightarrow> stamp s t = h \<and> xs = [] | Again \<Rightarrow> stamp s t + 1 < h"
    and "case peek_verdict (capacity (mem s)) i (get_seq e) of
      Take \<Rightarrow> stamp s t = h \<and> xs \<noteq> [] \<and> e = full_at h (hd xs)
    | Help \<Rightarrow> stamp s t < h | Refuse \<Rightarrow> stamp s t = h \<and> xs = [] | Again \<Rightarrow> True"
    by (simp_all split: verdict.splits)
qed

lemma read_step:
  fixes s :: "('v::zero, 'l::len) sys"
  assumes sim: "sim n s h xs" and fr: "fresh n s" and pc: "pcs s t = Read_entry c i"
    and e: "entry_at (mem s) i = Some e" and d: "decide (capacity (mem s)) c i e = (p, ev)"
  shows "step_ok n (act t p (mem s) ev s) h xs ev"
proof -
  let ?x = "stamp s t"
  note shape = rep_shape [OF sim_rep [OF sim]]
  have ld: "loads c" "loaded c i ?x s" using sim_pc [OF sim, of t] pc by auto
  then have i: "i = of_nat ?x" by (simp add: loaded_def)
  have keeps: "sim n (act t p (mem s) ev s) h xs"
    if "\<And>i d. ev \<noteq> Some (Pushed i d)" "\<And>i d. ev \<noteq> Some (Popped i d)" "pc_ok n s (stamp s t) p"
    by (rule read_keeps [OF sim pc that])
  show ?thesis
  proof (cases "writes c")
    case True
    then obtain v where c: "c = Push v" by (cases c) auto
    show ?thesis
      using d push_reads [OF sim fr pc e True] c ld keeps i
      by (cases "push_verdict (capacity (mem s)) i (get_seq e)") (auto simp: step_ok_def entry_of_seq_at entry_of_at)
  next
    case False
    then have s: "served c s = h" using sim_served [OF sim, of c] by simp
    note v = pop_reads [OF sim fr pc e False]
    have nx: "entry_of_seq (seq_next_empty (capacity (mem s)) i) = empty_at (?x + n)"
      unfolding i shape_bounds(5) [OF shape] by (rule entry_of_seq_next_at [OF shape_bounds(4) [OF shape]])
    have sq: "get_seq e = of_nat (2 * h + 1)" if "e = full_at h (hd xs)"
      unfolding that by (rule get_seq_at)
    show ?thesis
    proof (cases c)
      case Pop
      then show ?thesis
        using d [unfolded Pop decide.simps nx] v(1) ld s keeps
        by (cases "pop_verdict (capacity (mem s)) i (get_seq e)") (auto simp: step_ok_def)
    next
      case Peek
      then show ?thesis
        using d v(2) ld s keeps sq
        by (cases "peek_verdict (capacity (mem s)) i (get_seq e)") (auto simp: step_ok_def)
    next
      case (Pop_if g)
      then show ?thesis
        using d [unfolded Pop_if decide.simps nx] v(2) ld s keeps sq
        by (cases "peek_verdict (capacity (mem s)) i (get_seq e)") (auto simp: step_ok_def split: if_splits)
    next
      case Is_empty
      have "xs = []" if "get_seq e = seq_empty i"
        using v(2) peek_verdict_Refuse [of "capacity (mem s)" i "get_seq e"] that by simp
      with Is_empty show ?thesis using d keeps by (auto simp: step_ok_def)
    qed (use False ld in auto)
  qed
qed

text \<open>A compare and exchange that fails changes nothing.\<close>

lemma not_swapped_step:
  assumes sim: "sim n s h xs" and pc: "pcs s t = Cas_entry c i e e'" and c: "loads c"
  shows "not_swapped c = (Load_index c, None)" and "step_ok n (act t (Load_index c) (mem s) None s) h xs None"
proof -
  show "not_swapped c = (Load_index c, None)" using c by (cases c) auto
  show "step_ok n (act t (Load_index c) (mem s) None s) h xs None"
    unfolding step_ok_def option.case
    by (rule sim_move [OF sim _ later_act, where t = t]) (use sim pc c in \<open>auto simp: sim_def\<close>)
qed

lemma cas_push_step:
  fixes s :: "('v::zero, 'l::len) sys"
  assumes sim: "sim n s h xs" and fr: "fresh n s" and pc: "pcs s t = Cas_entry (Push d) i e e'"
    and st: "tstep lp lo (mem s) (pcs s t) = Some (p, q, ev)"
  shows "step_ok n (act t p q ev s) h xs ev"
proof -
  let ?x = "stamp s t"
  note rep = sim_rep [OF sim]
  note shape = rep_shape [OF rep] and cont = rep_contents [OF rep] and ix = rep_indexes [OF rep]
  have e: "loaded (Push d) i ?x s" "e = empty_at ?x" "e' = full_at ?x d"
    using sim_pc [OF sim, of t] pc by auto
  then have i: "i = of_nat ?x" and le: "?x \<le> wpos s" by (auto simp: loaded_def index_pos_def)
  have f: "h + length xs + n \<le> ?x + half_range TYPE('l)"
    using fresh_index [OF fr, of t "Push d"] pc sim_served [OF sim, of "Push d"] by simp
  show ?thesis
  proof (cases "arr_cells (ring (mem s)) ! (?x mod n) = e")
    case True
    have "?x = h + length xs" "length xs < n"
      using push_cas_view [OF shape cont _ f True [unfolded e(2)]] le ix(2) by simp_all
    then have x: "wpos s = ?x" "?x = h + length xs" "length xs < n" using le ix(2) by simp_all
    have r: "rep (put_cell (mem s) ?x e') n (wpos s) (rpos s) h (xs @ [d])"
      using rep_push [OF rep] x by (simp add: e(3))
    have "tstep lp lo (mem s) (pcs s t) = Some (fst (swapped lp lo (Push d) i e), put_cell (mem s) ?x e', Some (Pushed i d))"
      using True by (simp add: pc i cas_entry_position [OF shape])
    with st have p: "p = fst (swapped lp lo (Push d) i e)" "q = put_cell (mem s) ?x e'" "ev = Some (Pushed i d)"
      by auto
    have cnt: "pushes s = h + length xs" "pops s = h" using sim by (simp_all add: sim_def)
    have "sim n (act t p q ev s) h (xs @ [d])"
    proof (rule sim_move [OF sim _ later_act, where t = t])
      show "pc_ok n (act t p q ev s) (stamp (act t p q ev s) t) p"
        using e(1) x cnt pc p by (auto simp: loaded_def index_pos_def served_def)
    qed (use r p pc cnt in simp_all)
    then show ?thesis using x i by (simp add: step_ok_def p(3))
  next
    case False
    then have "tstep lp lo (mem s) (pcs s t) = Some (Load_index (Push d), mem s, None)"
      by (simp add: pc i cas_entry_position [OF shape])
    with st not_swapped_step [OF sim pc] show ?thesis by simp
  qed
qed

lemma cas_take_step:
  fixes s :: "('v::zero, 'l::len) sys"
  assumes sim: "sim n s h xs" and fr: "fresh n s" and pc: "pcs s t = Cas_entry c i e e'" and c: "takes c"
    and st: "tstep lp lo (mem s) (pcs s t) = Some (p, q, ev)"
  shows "step_ok n (act t p q ev s) h xs ev"
proof -
  let ?x = "stamp s t"
  note rep = sim_rep [OF sim]
  note shape = rep_shape [OF rep] and cont = rep_contents [OF rep] and ix = rep_indexes [OF rep]
  have e: "loaded c i ?x s" "e = full_at ?x (get_data e)" "e' = empty_at (?x + n)"
    using sim_pc [OF sim, of t] pc c by (cases c; simp)+
  have cs: "\<not> writes c" "loads c" "holds_index (pcs s t) = Some c" using c pc by (cases c; simp)+
  then have i: "i = of_nat ?x" and le: "?x \<le> rpos s" using e(1) by (auto simp: loaded_def index_pos_def)
  have f: "h + n \<le> ?x + half_range TYPE('l)"
    using fresh_index [OF fr cs(3)] sim_served [OF sim, of c] cs by simp
  show ?thesis
  proof (cases "arr_cells (ring (mem s)) ! (?x mod n) = e")
    case True
    then have "arr_cells (ring (mem s)) ! (?x mod n) = full_at ?x (get_data e)" using e(2) by simp
    then have "?x = h \<and> xs \<noteq> [] \<and> hd xs = get_data e"
      using pop_cas_view [OF shape cont _ f] le ix(5) by simp
    then obtain ys where x: "?x = h" "rpos s = h" "xs = get_data e # ys"
      using le ix(5) by (cases xs) auto
    have r: "rep (put_cell (mem s) ?x e') n (wpos s) (rpos s) (h + 1) ys"
      using rep_pop [of "mem s" n "wpos s" "rpos s" h "get_data e" ys] rep x by (simp add: e(3))
    have sw: "swapped lp lo c j e =
        (if \<not> lo then Move_index c j (Popped j (get_data e)) else Finished c (Popped j (get_data e)),
         Some (Popped j (get_data e)))" for j
      using c by (cases c) auto
    have "tstep lp lo (mem s) (pcs s t) =
        Some (fst (swapped lp lo c i e), put_cell (mem s) ?x e', Some (Popped i (get_data e)))"
      using True by (simp add: pc i cas_entry_position [OF shape] sw)
    with st have p: "p = fst (swapped lp lo c i e)" "q = put_cell (mem s) ?x e'" "ev = Some (Popped i (get_data e))"
      by auto
    have cnt: "pushes s = h + length xs" "pops s = h" using sim by (simp_all add: sim_def)
    have "sim n (act t p q ev s) (h + 1) ys"
    proof (rule sim_move [OF sim _ later_act, where t = t])
      show "pc_ok n (act t p q ev s) (stamp (act t p q ev s) t) p"
        using e(1) x cnt pc p cs sw by (auto simp: loaded_def index_pos_def served_def)
    qed (use r p pc cnt x in simp_all)
    then show ?thesis using x i by (simp add: step_ok_def p(3))
  next
    case False
    then have "tstep lp lo (mem s) (pcs s t) = Some (Load_index c, mem s, None)"
      using not_swapped_step(1) [OF sim pc cs(2)] by (simp add: pc i cas_entry_position [OF shape])
    with st not_swapped_step [OF sim pc cs(2)] show ?thesis by simp
  qed
qed

lemma find_addressed_Some:
  "find_addressed i a h xs = Some p \<Longrightarrow> p < length xs \<and> addresses i (h + p) \<and> xs ! p = a"
  by (auto simp: find_addressed_def find_Some_iff)

lemma find_addressed_None:
  "find_addressed i a h xs = None \<longleftrightarrow> \<not> (\<exists>p < length xs. addresses i (h + p) \<and> xs ! p = a)"
  by (auto simp: find_addressed_def find_None_iff)

lemma cas_exchange_step:
  fixes s :: "('v::zero, 'l::len) sys"
  assumes sim: "sim n s h xs" and pc: "pcs s t = Cas_entry (Exchange j a b) i e e'"
    and st: "tstep lp lo (mem s) (pcs s t) = Some (p, q, ev)"
  shows "step_ok n (act t p q ev s) h xs ev"
proof -
  note rep = sim_rep [OF sim]
  have e: "i = j" "e = entry_of (seq_full j) a" "e' = entry_of (seq_full j) b"
    using sim_pc [OF sim, of t] pc by auto
  then have x: "cas_entry (mem s) i e e' = exchange j a b (mem s)" by (simp add: exchange_def)
  have cnt: "pushes s = h + length xs" "pops s = h" using sim by (simp_all add: sim_def)
  have moved: "sim n (act t (Finished (Exchange j a b) v) q' (Some v) s) h ys"
    if "rep q' n (wpos s) (rpos s) h ys" "length ys = length xs" "v = Exchanged j a b \<or> v = Not_exchanged j a b" for q' ys v
  proof (rule sim_move [OF sim _ later_act, where t = t])
    show "pops (act t (Finished (Exchange j a b) v) q' (Some v) s) = h"
      "pushes (act t (Finished (Exchange j a b) v) q' (Some v) s) = h + length ys"
      using that(2,3) cnt pc by auto
  qed (use that pc in auto)
  show ?thesis
  proof (cases "find_addressed j a h xs")
    case (Some k)
    from find_addressed_Some [OF this] exchange_correct(1) [OF rep, of k j a b]
    obtain q' where q': "exchange j a b (mem s) = Some (True, q')" "rep q' n (wpos s) (rpos s) h (xs[k := b])" by blast
    with st x have "p = Finished (Exchange j a b) (Exchanged j a b)" "q = q'" "ev = Some (Exchanged j a b)"
      by (auto simp: pc)
    then show ?thesis using Some moved [OF q'(2)] by (simp add: step_ok_def)
  next
    case None
    then have "exchange j a b (mem s) = Some (False, mem s)"
      using exchange_correct(2) [OF rep] by (simp add: find_addressed_None)
    with st x have "p = Finished (Exchange j a b) (Not_exchanged j a b)" "q = mem s" "ev = Some (Not_exchanged j a b)"
      by (auto simp: pc)
    then show ?thesis using None moved [OF rep] by (simp add: step_ok_def)
  qed
qed

theorem act_step:
  fixes s :: "('v::zero, 'l::len) sys"
  assumes sim: "sim n s h xs" and fr: "fresh n s"
    and st: "tstep lp lo (mem s) (pcs s t) = Some (p, q, ev)"
  shows "step_ok n (act t p q ev s) h xs ev"
proof (cases "pcs s t")
  case (Load_index c)
  with load_step [OF sim this] st show ?thesis by auto
next
  case (Read_entry c i)
  with st obtain e where e: "entry_at (mem s) i = Some e" by auto
  with st Read_entry have "decide (capacity (mem s)) c i e = (p, ev)" "q = mem s"
    by (auto simp: split_beta)
  with read_step [OF sim fr Read_entry e] show ?thesis by simp
next
  case (Cas_entry c i e e')
  show ?thesis
  proof (cases "takes c")
    case True
    then show ?thesis using cas_take_step [OF sim fr Cas_entry True st] by simp
  next
    case False
    then consider d where "c = Push d" | j a b where "c = Exchange j a b"
      using sim_pc [OF sim, of t] Cas_entry by (cases c) auto
    then show ?thesis
      using cas_push_step [OF sim fr _ st] cas_exchange_step [OF sim _ st] Cas_entry by cases auto
  qed
next
  case (Help_index c i)
  with index_step [OF sim fr, of t c i "Load_index c"] st show ?thesis by auto
next
  case (Move_index c i e)
  with index_step [OF sim fr, of t c i "Finished c e" e] st show ?thesis by auto
qed (use st in simp_all)

end
