(* ===== verification/Runs.thy ===== *)
theory Runs
  imports Linearize
begin

text \<open>
  Whole runs of the concurrent queue: the events of every run, in the order in which they happen,
  are a history of the abstract bounded queue; each call has exactly one event, between its call
  and its return; and what follows for the values that go through the queue.
\<close>

section \<open>Every run is a history of the abstract queue\<close>

lemma sim_initial: "rep q n 0 0 0 [] \<Longrightarrow> sim n (initial q) 0 []"
  by (simp add: sim_def initial_def)

lemma start_ok: "pc_ok n s x (start c)"
  by (cases c) auto

lemma sim_other_pc:
  assumes "sim n s h xs" and "pc_ok n s (stamp s t) p"
  shows "sim n (s\<lparr>pcs := (pcs s)(t := p)\<rparr>) h xs"
  by (rule sim_move [OF assms(1), where t = t])
    (use assms in \<open>auto simp: sim_def later_def intro: pc_ok_later\<close>)

lemma sim_step:
  assumes sim: "sim n s h xs" and fr: "fresh n s" and st: "sys_step lp lo s l s'"
  shows "\<exists>h' xs'. spec_run n (h, xs) (events [l]) = Some (h', xs') \<and> sim n s' h' xs'"
  using st
proof cases
  case (call t c)
  then show ?thesis using sim_other_pc [OF sim start_ok] by simp
next
  case (act t p q ev)
  then show ?thesis using act_step [OF sim fr act(3)]
    by (cases ev) (auto simp: step_ok_def)
next
  case (ret t c ev)
  then show ?thesis using sim_other_pc [OF sim, of t Idle] by simp
qed

lemma linearize:
  assumes "fresh_run lp lo n (initial q) tr s" and "rep q n 0 0 0 []"
  shows "\<exists>h xs. spec_run n (0, []) (events tr) = Some (h, xs) \<and> sim n s h xs"
  using assms
proof (induction rule: fresh_run.induct)
  case fresh_stop
  then show ?case using sim_initial by auto
next
  case (fresh_more tr s l s')
  then obtain h xs where "spec_run n (0, []) (events tr) = Some (h, xs)" "sim n s h xs" by blast
  with sim_step [OF this(2) fresh_run_fresh [OF fresh_more.hyps(1) fresh_initial] fresh_more.hyps(2)]
  show ?case by (fastforce simp: events_append spec_run_append)
qed

section \<open>Runs that are too short for an index to become outdated\<close>

lemma count_index_pushes: "pushes s \<le> pushes s'" and count_index_pops: "pops s \<le> pops s'"
  if "sys_step lp lo s l s'" for s s' :: "('v::zero, 'l::len) sys"
  using that by (cases; auto simp: count_pushes count_pops split: option.split event.split)+

lemma sim_counts: "sim n s h xs \<Longrightarrow> pops s \<le> pushes s" and sim_room: "sim n s h xs \<Longrightarrow> pushes s \<le> pops s + n"
  using rep_length [OF sim_rep, of n s h xs] by (auto simp: sim_def)

lemma few_pushes_fresh:
  fixes s :: "('v, 'l::len) sys"
  assumes "pushes s + n \<le> half_range TYPE('l)" and "pops s \<le> pushes s"
  shows "fresh n s"
  using assms by (auto simp: fresh_def served_def)

lemma short_run_fresh_from:
  fixes s0 :: "('v::zero, 'l::len) sys"
  assumes run: "sys_run lp lo s0 tr s" and sim: "sim n s0 h xs" and fr: "fresh n s0"
    and few: "pushes s + n \<le> half_range TYPE('l)"
  shows "fresh_run lp lo n s0 tr s \<and> (\<exists>h' xs'. sim n s h' xs')"
  using run few
proof (induction rule: sys_run.induct)
  case stop
  show ?case using fresh_stop sim by blast
next
  case (more tr s l s')
  then have "pushes s + n \<le> half_range TYPE('l)" using count_index_pushes [OF more.hyps(2)] by linarith
  with more.IH obtain h' xs' where run: "fresh_run lp lo n s0 tr s" and "sim n s h' xs'" by blast
  with fresh_run_fresh [OF run fr] obtain h2 xs2 where sim2: "sim n s' h2 xs2"
    using sim_step [OF _ _ more.hyps(2)] by blast
  then have "fresh n s'" using more.prems by (intro few_pushes_fresh sim_counts)
  with run more.hyps(2) have "fresh_run lp lo n s0 (tr @ [l]) s'" by (rule fresh_more)
  with sim2 show ?case by blast
qed

lemma short_run_fresh:
  fixes q :: "('v::zero, 'l::len) queue"
  assumes "sys_run lp lo (initial q) tr s" and "rep q n 0 0 0 []" and "pushes s + n \<le> half_range TYPE('l)"
  shows "fresh_run lp lo n (initial q) tr s"
  using short_run_fresh_from [OF assms(1) sim_initial [OF assms(2)] fresh_initial assms(3)] by blast

section \<open>One event for each call\<close>

text \<open>The life of a call, read off the labels of one thread.\<close>

datatype ('v, 'i) phase = Outside | Pending "('v, 'i) op" | Decided "('v, 'i) op" "('v, 'i) event"

text \<open>The events that an operation may have; \<open>pop_if\<close> removes only what its condition accepts.\<close>

fun answers :: "('v, 'l::len word) op \<Rightarrow> ('v, 'l word) event \<Rightarrow> bool" where
  "answers (Push d) (Pushed i d') = (d' = d)"
| "answers (Push d) Push_full = True"
| "answers Pop (Popped i d) = True"
| "answers Pop Pop_empty = True"
| "answers Peek (Peeked i d) = True"
| "answers Peek Peek_empty = True"
| "answers (Pop_if f) (Popped i d) = f d (seq_full i)"
| "answers (Pop_if f) (Declined i d) = (\<not> f d i)"
| "answers (Pop_if f) Pop_empty = True"
| "answers (Exchange i a b) (Exchanged i' a' b') = (i' = i \<and> a' = a \<and> b' = b)"
| "answers (Exchange i a b) (Not_exchanged i' a' b') = (i' = i \<and> a' = a \<and> b' = b)"
| "answers Is_empty (Saw_empty b) = True"
| "answers _ _ = False"

fun phase_step ::
  "nat \<Rightarrow> ('v, 'l::len word) phase \<Rightarrow> ('v, 'l word) label \<Rightarrow> ('v, 'l word) phase option" where
  "phase_step t ph (Call u c) =
     (if u \<noteq> t then Some ph else (case ph of Outside \<Rightarrow> Some (Pending c) | _ \<Rightarrow> None))"
| "phase_step t ph (Act u None) =
     (if u \<noteq> t then Some ph else (case ph of Outside \<Rightarrow> None | _ \<Rightarrow> Some ph))"
| "phase_step t ph (Act u (Some ev)) =
     (if u \<noteq> t then Some ph
      else (case ph of Pending c \<Rightarrow> if answers c ev then Some (Decided c ev) else None | _ \<Rightarrow> None))"
| "phase_step t ph (Ret u ev) =
     (if u \<noteq> t then Some ph
      else (case ph of Decided c ev' \<Rightarrow> if ev' = ev then Some Outside else None | _ \<Rightarrow> None))"

fun phase_run ::
  "nat \<Rightarrow> ('v, 'l::len word) phase \<Rightarrow> ('v, 'l word) label list \<Rightarrow> ('v, 'l word) phase option" where
  "phase_run t ph [] = Some ph"
| "phase_run t ph (l # ls) = Option.bind (phase_step t ph l) (\<lambda>ph'. phase_run t ph' ls)"

lemma phase_run_append: "phase_run t ph (ls @ ls') = Option.bind (phase_run t ph ls) (\<lambda>ph'. phase_run t ph' ls')"
  by (induction ls arbitrary: ph) (auto split: bind_split)

text \<open>The phase that a thread's program counter stands for.\<close>

fun phase_of :: "('v, 'l::len) thread \<Rightarrow> ('v, 'l word) phase" where
  "phase_of Idle = Outside"
| "phase_of (Load_index c) = Pending c"
| "phase_of (Read_entry c i) = Pending c"
| "phase_of (Cas_entry c i e e') = Pending c"
| "phase_of (Help_index c i) = Pending c"
| "phase_of (Move_index c i ev) = Decided c ev"
| "phase_of (Finished c ev) = Decided c ev"

text \<open>Only \<open>push\<close>, \<open>pop\<close>, \<open>pop_if\<close> and \<open>exchange\<close> swap entries; \<open>exchange\<close> does nothing else.\<close>

fun pc_wf :: "('v, 'l::len) thread \<Rightarrow> bool" where
  "pc_wf (Load_index c) = loads c"
| "pc_wf (Read_entry c i) = loads c"
| "pc_wf (Cas_entry (Pop_if f) i e e') = f (get_data e) (seq_full i)"
| "pc_wf (Cas_entry c i e e') = (takes c \<or> writes c \<or> \<not> loads c)"
| "pc_wf (Help_index c i) = loads c"
| "pc_wf _ = True"

lemma decide_phase:
  assumes "decide sz c i e = (p, ev)" and "loads c"
  shows "pc_wf p \<and> (case ev of None \<Rightarrow> phase_of p = Pending c | Some v \<Rightarrow> phase_of p = Decided c v \<and> answers c v)"
proof (cases c)
  case (Pop_if f)
  then show ?thesis
    using assms by (auto simp: peek_verdict_def split: verdict.splits if_splits)
qed (use assms in \<open>auto split: verdict.splits if_splits\<close>)

lemma tstep_phase:
  assumes "tstep lp lo q p = Some (p', q', ev)" and "pc_wf p"
  shows "pc_wf p' \<and> phase_step t (phase_of p) (Act t ev) = Some (phase_of p')"
proof (cases p)
  case (Read_entry c i)
  then obtain e where "decide (capacity q) c i e = (p', ev)" using assms by (auto simp: split_beta)
  from decide_phase [OF this] Read_entry assms(2) show ?thesis by (cases ev) auto
next
  case (Cas_entry c i e e')
  with assms show ?thesis
    by (cases c) (auto simp: cas_entry_def compare_exchange_def Let_def split: option.splits if_splits)
qed (use assms in \<open>auto simp: split_beta\<close>)

lemma calls_bracketed:
  assumes "sys_run lp lo (initial q) tr s"
  shows "phase_run t Outside tr = Some (phase_of (pcs s t)) \<and> pc_wf (pcs s t)"
  using assms
proof (induction rule: sys_run.induct)
  case stop
  then show ?case by (simp add: initial_def)
next
  case (more tr s l s')
  from more.hyps(2) have "phase_step t (phase_of (pcs s t)) l = Some (phase_of (pcs s' t)) \<and> pc_wf (pcs s' t)"
  proof cases
    case (call u c)
    then show ?thesis using more.IH by (cases "u = t"; cases c) auto
  next
    case (act u p q ev)
    then show ?thesis using more.IH tstep_phase [OF act(3), of t]
      by (cases "u = t"; cases ev) auto
  next
    case (ret u c ev)
    then show ?thesis using more.IH by (cases "u = t") auto
  qed
  with more.IH show ?case by (auto simp: phase_run_append)
qed

section \<open>What goes through the queue\<close>

text \<open>The elements pushed and popped, with the indexes that the calls returned, in the order of the events.\<close>

fun pushed :: "('v, 'i) event list \<Rightarrow> ('i \<times> 'v) list" where
  "pushed [] = []"
| "pushed (Pushed i d # es) = (i, d) # pushed es"
| "pushed (e # es) = pushed es"

fun popped :: "('v, 'i) event list \<Rightarrow> ('i \<times> 'v) list" where
  "popped [] = []"
| "popped (Popped i d # es) = (i, d) # popped es"
| "popped (e # es) = popped es"

fun swaps :: "('v, 'i) event \<Rightarrow> bool" where
  "swaps (Exchanged i a b) = True"
| "swaps _ = False"

text \<open>The elements of the queue with their indexes.\<close>

definition numbered :: "nat \<Rightarrow> 'v list \<Rightarrow> ('l::len word \<times> 'v) list" where
  "numbered h xs = zip (map of_nat [h..<h + length xs]) xs"

lemma numbered_snoc: "numbered h (xs @ [d]) = numbered h xs @ [(of_nat (h + length xs), d)]"
  by (simp add: numbered_def)

lemma numbered_Cons: "numbered h (x # xs) = (of_nat h, x) # numbered (h + 1) xs"
  by (simp add: numbered_def upt_conv_Cons del: upt_Suc)

lemma numbered_length: "length (numbered h xs) = length xs"
  by (simp add: numbered_def)

lemma spec_in_order:
  assumes "spec_run n (h, xs) es = Some (h', xs')" and "\<forall>e \<in> set es. \<not> swaps e"
  shows "popped es @ numbered h' xs' = numbered h xs @ pushed es"
  using assms
proof (induction es arbitrary: h xs)
  case (Cons e es)
  then obtain h1 xs1 where st: "spec_step n (h, xs) e = Some (h1, xs1)" "spec_run n (h1, xs1) es = Some (h', xs')"
    by (auto simp: bind_eq_Some_conv)
  with Cons have IH: "popped es @ numbered h' xs' = numbered h1 xs1 @ pushed es" by simp
  show ?case
  proof (cases e)
    case (Pushed i d)
    with st(1) IH show ?thesis by (auto simp: numbered_snoc split: if_splits)
  next
    case (Popped i d)
    with st(1) IH show ?thesis by (cases xs) (auto simp: numbered_Cons split: if_splits)
  qed (use st(1) IH Cons.prems(2) in \<open>auto split: if_splits option.splits\<close>)
qed simp

text \<open>With exchanges, positions and numbers of elements are still accounted for.\<close>

lemma spec_counts:
  assumes "spec_run n (h, xs) es = Some (h', xs')"
  shows "h' = h + length (popped es)" and "h' + length xs' = h + length xs + length (pushed es)"
proof -
  have "h' = h + length (popped es) \<and> h' + length xs' = h + length xs + length (pushed es)"
    using assms
  proof (induction es arbitrary: h xs)
    case (Cons e es)
    then obtain h1 xs1 where st: "spec_step n (h, xs) e = Some (h1, xs1)" "spec_run n (h1, xs1) es = Some (h', xs')"
      by (auto simp: bind_eq_Some_conv)
    from Cons.IH [OF st(2)] st(1) show ?case
      by (cases e; cases xs) (auto split: if_splits option.splits nat.splits)
  qed simp
  then show "h' = h + length (popped es)" and "h' + length xs' = h + length xs + length (pushed es)" by simp_all
qed

lemma pushed_append: "pushed (es @ fs) = pushed es @ pushed fs"
  by (induction es rule: pushed.induct) auto

lemma popped_append: "popped (es @ fs) = popped es @ popped fs"
  by (induction es rule: popped.induct) auto

text \<open>The counters of the system count the events.\<close>

lemma run_counts:
  assumes "sys_run lp lo (initial q) tr s"
  shows "pushes s = length (pushed (events tr)) \<and> pops s = length (popped (events tr))"
  using assms
proof (induction rule: sys_run.induct)
  case stop
  then show ?case by (simp add: initial_def)
next
  case (more tr s l s')
  from more.hyps(2) have "pushes s' = pushes s + length (pushed (events [l])) \<and> pops s' = pops s + length (popped (events [l]))"
  proof cases
    case (act t p q ev)
    then show ?thesis by (cases ev) (auto simp: count_pushes count_pops split: event.split)
  qed simp_all
  with more.IH show ?case by (simp add: events_append pushed_append popped_append)
qed

text \<open>A call that reports a full or an empty queue is right at the moment of its event.\<close>

lemma failure_counts:
  assumes sim: "sim n s h xs" and fr: "fresh n s" and st: "sys_step lp lo s (Act t (Some ev)) s'"
  shows "(ev = Push_full \<longrightarrow> pushes s = pops s + n) \<and>
    (ev \<in> {Pop_empty, Peek_empty, Saw_empty True} \<longrightarrow> pushes s = pops s)"
proof -
  have "\<exists>h' xs'. spec_step n (h, xs) ev = Some (h', xs')"
    using sim_step [OF sim fr st] by (auto simp: bind_eq_Some_conv)
  moreover have "pushes s = h + length xs" "pops s = h" using sim by (simp_all add: sim_def)
  ultimately show ?thesis by (auto split: if_splits)
qed

end
