(* ===== verification/Solo.thy ===== *)
theory Solo
  imports Runs
begin

text \<open>
  A thread that runs alone: the steps of \<open>Machine\<close>, taken by one thread only, compute what the
  sequential definitions of \<open>Mpmc\<close> compute. The locale \<open>call_loop\<close> states what has to hold for one
  trip through a loop body; \<open>push\<close>, \<open>pop\<close>, \<open>peek\<close> and \<open>pop_if\<close> are its instances.
\<close>

fun solo ::
  "bool \<Rightarrow> bool \<Rightarrow> nat \<Rightarrow> ('v, 'l) thread \<times> ('v::zero, 'l::len) queue
     \<Rightarrow> (('v, 'l) thread \<times> ('v, 'l) queue) option" where
  "solo lp lo 0 st = Some st"
| "solo lp lo (Suc k) st =
     Option.bind (tstep lp lo (snd st) (fst st)) (\<lambda>(p, q, ev). solo lp lo k (p, q))"

lemma solo_add: "solo lp lo (j + k) st = Option.bind (solo lp lo j st) (solo lp lo k)"
  by (induction j arbitrary: st) (auto split: bind_split prod.split)

text \<open>A finished call takes no step.\<close>

lemma solo_past:
  assumes "solo lp lo j st = Some (Finished c ev, q)" and "solo lp lo k st = Some st'"
  shows "k \<le> j"
proof (rule ccontr)
  assume "\<not> k \<le> j"
  then obtain m where "k = j + Suc m" by (auto simp: not_le less_iff_Suc_add)
  with assms have "solo lp lo (Suc m) (Finished c ev, q) = Some st'" by (simp only: solo_add bind.bind_lunit)
  then show False by simp
qed

text \<open>Steps alone are steps of the system.\<close>

lemma solo_run:
  assumes "solo lp lo k (pcs s t, mem s) = Some (p, q)"
  shows "\<exists>tr s'. sys_run lp lo s tr s' \<and> length tr = k \<and> mem s' = q \<and> pcs s' = (pcs s)(t := p)"
  using assms
proof (induction k arbitrary: s)
  case 0
  then show ?case by (intro exI [of _ "[]"] exI [of _ s]) (auto intro: sys_run.stop)
next
  case (Suc k)
  then obtain p1 q1 ev where st: "tstep lp lo (mem s) (pcs s t) = Some (p1, q1, ev)"
    and rest: "solo lp lo k (p1, q1) = Some (p, q)"
    by (auto simp: bind_eq_Some_conv)
  let ?s = "act t p1 q1 ev s"
  have "solo lp lo k (pcs ?s t, mem ?s) = Some (p, q)" using rest by simp
  from Suc.IH [OF this] obtain tr s' where "sys_run lp lo ?s tr s'" "length tr = k" "mem s' = q" "pcs s' = (pcs ?s)(t := p)"
    by blast
  with sys_run_Cons [OF this(1) sys_step.act [OF st]] show ?case
    by (intro exI [of _ "Act t ev # tr"] exI [of _ s']) simp
qed

section \<open>Loops of calls\<close>

locale call_loop =
  fixes lp lo :: bool and c :: "('v::zero, 'l::len word) op"
    and body :: "'s \<Rightarrow> ('r, 's) turn option" and queue_of :: "'s \<Rightarrow> ('v, 'l) queue"
    and result :: "'r \<Rightarrow> ('v, 'l word) event \<Rightarrow> ('v, 'l) queue \<Rightarrow> bool"
  assumes trip_loop: "body s = Some (Loop s') \<Longrightarrow>
      \<exists>j. solo lp lo (Suc j) (Load_index c, queue_of s) = Some (Load_index c, queue_of s')"
    and trip_return: "body s = Some (Return r) \<Longrightarrow>
      \<exists>j ev q. solo lp lo j (Load_index c, queue_of s) = Some (Finished c ev, q) \<and> result r ev q"
    and trip_fault: "body s = None \<Longrightarrow> solo lp lo 2 (Load_index c, queue_of s) = None"
begin

lemma returns:
  assumes "spin body s = Some r"
  shows "\<exists>k ev q. solo lp lo k (Load_index c, queue_of s) = Some (Finished c ev, q) \<and> result r ev q"
proof (rule spin_partial [where
      P = "\<lambda>s'. \<exists>k. solo lp lo k (Load_index c, queue_of s) = Some (Load_index c, queue_of s')", OF assms])
  show "\<exists>k. solo lp lo k (Load_index c, queue_of s) = Some (Load_index c, queue_of s)"
    by (rule exI [of _ 0]) simp
  show "\<exists>k. solo lp lo k (Load_index c, queue_of s) = Some (Load_index c, queue_of s2)"
    if reach: "\<exists>k. solo lp lo k (Load_index c, queue_of s) = Some (Load_index c, queue_of s1)" and trip: "body s1 = Some (Loop s2)" for s1 s2
  proof -
    obtain k where "solo lp lo k (Load_index c, queue_of s) = Some (Load_index c, queue_of s1)" using reach by blast
    moreover obtain j where "solo lp lo (Suc j) (Load_index c, queue_of s1) = Some (Load_index c, queue_of s2)"
      using trip_loop [OF trip] by blast
    ultimately show ?thesis by (intro exI [of _ "k + Suc j"]) (simp only: solo_add bind.bind_lunit)
  qed
  show "\<exists>k ev q. solo lp lo k (Load_index c, queue_of s) = Some (Finished c ev, q) \<and> result r ev q"
    if reach: "\<exists>k. solo lp lo k (Load_index c, queue_of s) = Some (Load_index c, queue_of s1)" and trip: "body s1 = Some (Return r)" for s1 r
  proof -
    obtain k where "solo lp lo k (Load_index c, queue_of s) = Some (Load_index c, queue_of s1)" using reach by blast
    moreover obtain j ev q where "solo lp lo j (Load_index c, queue_of s1) = Some (Finished c ev, q)" "result r ev q"
      using trip_return [OF trip] by blast
    ultimately show ?thesis
      by (intro exI [of _ "k + j"] exI [of _ ev] exI [of _ q]) (simp only: solo_add bind.bind_lunit simp_thms)
  qed
qed

text \<open>The call returns in the machine exactly when the sequential definition returns.\<close>

lemma finished_stays: "solo lp lo k (Finished c ev, q) = Some st \<Longrightarrow> k = 0"
  by (cases k) auto

lemma returns_only:
  assumes "solo lp lo k (Load_index c, queue_of s) = Some (Finished c ev, q)"
  shows "\<exists>r. spin body s = Some r \<and> result r ev q"
  using assms
proof (induction k arbitrary: s rule: less_induct)
  case (less k)
  note past = solo_past [OF less.prems]
  show ?case
  proof (cases "body s")
    case None
    have "2 \<le> k" using less.prems by (cases k; cases "k - 1") auto
    then obtain m where "k = 2 + m" using le_Suc_ex by blast
    with less.prems trip_fault [OF None] have False by (simp only: solo_add bind.bind_lzero option.distinct)
    then show ?thesis ..
  next
    case (Some u)
    show ?thesis
    proof (cases u)
      case (Return r)
      then obtain j ev' q' where j: "solo lp lo j (Load_index c, queue_of s) = Some (Finished c ev', q')" "result r ev' q'"
        using trip_return Some by blast
      have "j = k" using past [OF j(1)] solo_past [OF j(1) less.prems] by simp
      with j less.prems Some Return show ?thesis by (simp add: spin_Return)
    next
      case (Loop s')
      then obtain j where j: "solo lp lo (Suc j) (Load_index c, queue_of s) = Some (Load_index c, queue_of s')"
        using trip_loop Some by blast
      then obtain m where m: "k = Suc j + m" using past le_Suc_ex by blast
      with less.prems j have "solo lp lo m (Load_index c, queue_of s') = Some (Finished c ev, q)"
        by (simp only: solo_add bind.bind_lunit)
      with less.IH [of m s'] m Some Loop show ?thesis by (simp add: spin_Loop)
    qed
  qed
qed

end

section \<open>The operations\<close>

lemma solo_two:
  "solo lp lo 2 (Load_index c, q) =
     Option.bind (entry_at q (index_of c q)) (\<lambda>e. Some (fst (decide (capacity q) c (index_of c q) e), q))"
  by (cases "entry_at q (index_of c q)") (simp_all add: numeral_2_eq_2 split_beta)

lemma solo_three:
  "solo lp lo 3 (Load_index c, q) =
     Option.bind (solo lp lo 2 (Load_index c, q)) (\<lambda>(p, q'). map_option (\<lambda>(p', q', ev). (p', q')) (tstep lp lo q' p))"
proof -
  have "(3 :: nat) = 2 + Suc 0" by simp
  then show ?thesis by (simp only: solo_add) (auto split: bind_split option.split)
qed

lemma solo_four:
  "solo lp lo 4 (Load_index c, q) =
     Option.bind (solo lp lo 3 (Load_index c, q)) (\<lambda>(p, q'). map_option (\<lambda>(p', q', ev). (p', q')) (tstep lp lo q' p))"
proof -
  have "(4 :: nat) = 3 + Suc 0" by simp
  then show ?thesis by (simp only: solo_add) (auto split: bind_split option.split)
qed

lemmas solo_trips = solo_four solo_three solo_two

lemma exI_steps:
  "P 2 \<Longrightarrow> \<exists>j. P j" "P 3 \<Longrightarrow> \<exists>j. P j" "P 4 \<Longrightarrow> \<exists>j. P j"
  for P :: "nat \<Rightarrow> bool" by blast+

lemma exI_Suc: "P 2 \<or> P 3 \<Longrightarrow> \<exists>j. P (Suc j)"
  for P :: "nat \<Rightarrow> bool" by (metis numeral_2_eq_2 numeral_3_eq_3)

interpretation push_loop: call_loop lp lo "Push d" "push_index_body lp d i" "\<lambda>q. q"
    "\<lambda>(b, i', q') ev q. q = q' \<and> ev = (if b then Pushed i' d else Push_full) \<and> (\<not> b \<longrightarrow> i' = i)"
  for lp lo :: bool and d :: "'v::zero" and i :: "'l::len word"
proof
  fix q q' :: "('v::zero, 'l::len) queue" and r
  note defs = push_index_body_def Let_def index_of_def cas_index_def solo_trips
  show "\<exists>j. solo lp lo (Suc j) (Load_index (Push d), q) = Some (Load_index (Push d), q')"
    if "push_index_body lp d i q = Some (Loop q')"
    using that by (intro exI_Suc) (auto simp: defs split: option.splits verdict.splits if_splits)
  show "\<exists>j ev qe. solo lp lo j (Load_index (Push d), q) = Some (Finished (Push d) ev, qe) \<and>
      (case r of (b, i', q') \<Rightarrow> \<lambda>ev q. q = q' \<and> ev = (if b then Pushed i' d else Push_full) \<and> (\<not> b \<longrightarrow> i' = i)) ev qe"
    if "push_index_body lp d i q = Some (Return r)"
  proof (cases "fst r")
    case True
    show ?thesis
    proof (cases lp)
      case True
      with \<open>fst r\<close> that show ?thesis
        by (intro exI_steps(2)) (auto simp: defs split: option.splits verdict.splits if_splits)
    next
      case False
      with \<open>fst r\<close> that show ?thesis
        by (intro exI_steps(3)) (auto simp: defs split: option.splits verdict.splits if_splits)
    qed
  next
    case False
    with that show ?thesis
      by (intro exI_steps(1)) (auto simp: defs split: option.splits verdict.splits if_splits)
  qed
  show "solo lp lo 2 (Load_index (Push d), q) = None" if "push_index_body lp d i q = None"
    using that by (auto simp: defs cas_entry_def compare_exchange_def split: option.splits verdict.splits if_splits)
qed

interpretation pop_loop: call_loop lp lo Pop "pop_index_body lo d i" "\<lambda>q. q"
    "\<lambda>(b, d', i', q') ev q. q = q' \<and> ev = (if b then Popped i' d' else Pop_empty) \<and> (\<not> b \<longrightarrow> d' = d \<and> i' = i)"
  for lp lo :: bool and d :: "'v::zero" and i :: "'l::len word"
proof
  fix q q' :: "('v::zero, 'l::len) queue" and r
  note defs = pop_index_body_def Let_def index_of_def cas_index_def solo_trips
  show "\<exists>j. solo lp lo (Suc j) (Load_index Pop, q) = Some (Load_index Pop, q')"
    if "pop_index_body lo d i q = Some (Loop q')"
    using that by (intro exI_Suc) (auto simp: defs split: option.splits verdict.splits if_splits)
  show "\<exists>j ev qe. solo lp lo j (Load_index Pop, q) = Some (Finished Pop ev, qe) \<and>
      (case r of (b, d', i', q') \<Rightarrow> \<lambda>ev q. q = q' \<and> ev = (if b then Popped i' d' else Pop_empty) \<and>
        (\<not> b \<longrightarrow> d' = d \<and> i' = i)) ev qe"
    if "pop_index_body lo d i q = Some (Return r)"
  proof (cases "fst r")
    case True
    show ?thesis
    proof (cases lo)
      case True
      with \<open>fst r\<close> that show ?thesis
        by (intro exI_steps(2)) (auto simp: defs split: option.splits verdict.splits if_splits)
    next
      case False
      with \<open>fst r\<close> that show ?thesis
        by (intro exI_steps(3)) (auto simp: defs split: option.splits verdict.splits if_splits)
    qed
  next
    case False
    with that show ?thesis
      by (intro exI_steps(1)) (auto simp: defs split: option.splits verdict.splits if_splits)
  qed
  show "solo lp lo 2 (Load_index Pop, q) = None" if "pop_index_body lo d i q = None"
    using that by (auto simp: defs cas_entry_def compare_exchange_def split: option.splits verdict.splits if_splits)
qed

interpretation peek_loop: call_loop lp lo Peek "peek_index_body d i" "\<lambda>q. q"
    "\<lambda>(b, d', i', q') ev q. q = q' \<and> ev = (if b then Peeked i' d' else Peek_empty) \<and> (\<not> b \<longrightarrow> d' = d \<and> i' = i)"
  for lp lo :: bool and d :: "'v::zero" and i :: "'l::len word"
proof
  fix q q' :: "('v::zero, 'l::len) queue" and r
  note defs = peek_index_body_def Let_def index_of_def cas_index_def solo_trips
  show "\<exists>j. solo lp lo (Suc j) (Load_index Peek, q) = Some (Load_index Peek, q')"
    if "peek_index_body d i q = Some (Loop q')"
    using that by (intro exI_Suc) (auto simp: defs split: option.splits verdict.splits if_splits)
  show "\<exists>j ev qe. solo lp lo j (Load_index Peek, q) = Some (Finished Peek ev, qe) \<and>
      (case r of (b, d', i', q') \<Rightarrow> \<lambda>ev q. q = q' \<and> ev = (if b then Peeked i' d' else Peek_empty) \<and>
        (\<not> b \<longrightarrow> d' = d \<and> i' = i)) ev qe"
    if "peek_index_body d i q = Some (Return r)"
    using that by (intro exI_steps(1)) (auto simp: defs split: option.splits verdict.splits if_splits)
  show "solo lp lo 2 (Load_index Peek, q) = None" if "peek_index_body d i q = None"
    using that by (auto simp: defs split: option.splits verdict.splits if_splits)
qed

text \<open>The condition of \<^verbatim>\<open>pop_if\<close> has no state of its own here.\<close>

definition stateless :: "('v \<Rightarrow> 'l word \<Rightarrow> bool) \<Rightarrow> 'v \<Rightarrow> 'l::len word \<Rightarrow> unit \<Rightarrow> bool \<times> unit" where
  "stateless f d i s = (f d i, s)"

lemma pop_if_stateless:
  "pop_if_body lo (stateless f) d ((), q) =
     (case entry_at q (read_index q) of
        None \<Rightarrow> None
      | Some e \<Rightarrow>
         (case peek_verdict (capacity q) (read_index q) (get_seq e) of
            Refuse \<Rightarrow> Some (Return (False, d, (), q))
          | Take \<Rightarrow>
              if \<not> f (get_data e) (get_seq e) then Some (Return (False, d, (), q))
              else (case cas_entry q (read_index q) e (entry_of_seq (seq_next_empty (capacity q) (read_index q))) of
                      None \<Rightarrow> None
                    | Some (ok, q') \<Rightarrow>
                        if ok
                        then Some (Return (True, get_data e, (),
                               if \<not> lo then cas_read_index (read_index q) (read_index q + 1) q' else q'))
                        else Some (Loop ((), q')))
          | Help \<Rightarrow> Some (Loop ((), cas_read_index (read_index q) (read_index q + 1) q))
          | Again \<Rightarrow> Some (Loop ((), q))))"
  by (simp add: pop_if_body_def stateless_def Let_def split: option.split verdict.split)

interpretation pop_if_loop: call_loop lp lo "Pop_if f" "pop_if_body lo (stateless f) d" snd
    "\<lambda>(b, d', _, q') ev q. q = q' \<and> returned ev = b \<and> (if b then \<exists>i. ev = Popped i d' else d' = d)"
  for lp lo :: bool and d :: "'v::zero" and f :: "'v \<Rightarrow> 'l::len word \<Rightarrow> bool"
proof
  fix s s' :: "unit \<times> ('v::zero, 'l::len) queue" and r
  obtain q where s: "s = ((), q)" by (cases s) auto
  note defs = pop_if_stateless index_of_def cas_index_def solo_trips s snd_conv
  show "\<exists>j. solo lp lo (Suc j) (Load_index (Pop_if f), snd s) = Some (Load_index (Pop_if f), snd s')"
    if "pop_if_body lo (stateless f) d s = Some (Loop s')"
    using that by (intro exI_Suc) (auto simp: defs split: option.splits verdict.splits if_splits)
  show "\<exists>j ev qe. solo lp lo j (Load_index (Pop_if f), snd s) = Some (Finished (Pop_if f) ev, qe) \<and>
      (case r of (b, d', _, q') \<Rightarrow> \<lambda>ev q. q = q' \<and> returned ev = b \<and>
        (if b then \<exists>i. ev = Popped i d' else d' = d)) ev qe"
    if "pop_if_body lo (stateless f) d s = Some (Return r)"
  proof (cases "fst r")
    case True
    show ?thesis
    proof (cases lo)
      case True
      with \<open>fst r\<close> that show ?thesis
        by (intro exI_steps(2)) (auto simp: defs split: option.splits verdict.splits if_splits)
    next
      case False
      with \<open>fst r\<close> that show ?thesis
        by (intro exI_steps(3)) (auto simp: defs split: option.splits verdict.splits if_splits)
    qed
  next
    case False
    with that show ?thesis
      by (intro exI_steps(1)) (auto simp: defs split: option.splits verdict.splits if_splits)
  qed
  show "solo lp lo 2 (Load_index (Pop_if f), snd s) = None" if "pop_if_body lo (stateless f) d s = None"
    using that by (auto simp: defs cas_entry_def compare_exchange_def split: option.splits verdict.splits if_splits)
qed

lemma solo_exchange:
  "solo lp lo 1 (start (Exchange i a b), q) =
     map_option (\<lambda>(ok, q'). (Finished (Exchange i a b) (if ok then Exchanged i a b else Not_exchanged i a b), q'))
       (exchange i a b q)"
  by (cases "exchange i a b q") (auto simp: exchange_def split_beta)

lemma solo_empty:
  "solo lp lo 2 (start Is_empty, q) = map_option (\<lambda>b. (Finished Is_empty (Saw_empty b), q)) (empty q)"
  by (simp add: solo_two empty_def index_of_def Let_def map_option_case Option.bind_eq_None_conv split: option.split)

section \<open>The sequential operations\<close>

lemma solo_push_iff:
  fixes q :: "('v::zero, 'l::len) queue"
  shows "(\<exists>k. solo lp lo k (start (Push d), q) = Some (Finished (Push d) ev, q')) \<longleftrightarrow>
    (case ev of Pushed j d' \<Rightarrow> d' = d \<and> push_index lp d i q = Some (True, j, q')
     | Push_full \<Rightarrow> push_index lp d i q = Some (False, i, q') | _ \<Rightarrow> False)"
proof -
  have ret: "\<exists>k. solo lp lo k (Load_index (Push d), q) = Some (Finished (Push d) e, q0)"
    if "push_index lp d i q = Some (b, j, q0)" "e = (if b then Pushed j d else Push_full)" for b j q0 e
    using push_loop.returns [of lp d i q "(b, j, q0)" lo] that unfolding push_index_def by auto
  have only: "\<exists>b j. push_index lp d i q = Some (b, j, q0) \<and> e = (if b then Pushed j d else Push_full) \<and> (\<not> b \<longrightarrow> j = i)"
    if "solo lp lo k (Load_index (Push d), q) = Some (Finished (Push d) e, q0)" for k e q0
    using push_loop.returns_only [OF that, of i] unfolding push_index_def by auto
  show ?thesis
  proof
    assume "\<exists>k. solo lp lo k (start (Push d), q) = Some (Finished (Push d) ev, q')"
    then obtain b j where "push_index lp d i q = Some (b, j, q')" "ev = (if b then Pushed j d else Push_full)"
      "\<not> b \<longrightarrow> j = i" using only by force
    then show "case ev of Pushed j d' \<Rightarrow> d' = d \<and> push_index lp d i q = Some (True, j, q')
        | Push_full \<Rightarrow> push_index lp d i q = Some (False, i, q') | _ \<Rightarrow> False"
      by (cases b) simp_all
  next
    assume "case ev of Pushed j d' \<Rightarrow> d' = d \<and> push_index lp d i q = Some (True, j, q')
        | Push_full \<Rightarrow> push_index lp d i q = Some (False, i, q') | _ \<Rightarrow> False"
    then show "\<exists>k. solo lp lo k (start (Push d), q) = Some (Finished (Push d) ev, q')"
      using ret by (cases ev) auto
  qed
qed

lemma solo_pop_iff:
  fixes q :: "('v::zero, 'l::len) queue"
  shows "(\<exists>k. solo lp lo k (start Pop, q) = Some (Finished Pop ev, q')) \<longleftrightarrow>
    (case ev of Popped j x \<Rightarrow> pop_index lo d i q = Some (True, x, j, q')
     | Pop_empty \<Rightarrow> pop_index lo d i q = Some (False, d, i, q') | _ \<Rightarrow> False)"
proof -
  have ret: "\<exists>k. solo lp lo k (Load_index Pop, q) = Some (Finished Pop e, q0)"
    if "pop_index lo d i q = Some (b, x, j, q0)" "e = (if b then Popped j x else Pop_empty)" for b x j q0 e
    using pop_loop.returns [of lo d i q "(b, x, j, q0)" lp] that unfolding pop_index_def by auto
  have only: "\<exists>b x j. pop_index lo d i q = Some (b, x, j, q0) \<and> e = (if b then Popped j x else Pop_empty) \<and>
      (\<not> b \<longrightarrow> x = d \<and> j = i)"
    if "solo lp lo k (Load_index Pop, q) = Some (Finished Pop e, q0)" for k e q0
    using pop_loop.returns_only [OF that, of d i] unfolding pop_index_def by auto
  show ?thesis
  proof
    assume "\<exists>k. solo lp lo k (start Pop, q) = Some (Finished Pop ev, q')"
    then obtain b x j where "pop_index lo d i q = Some (b, x, j, q')" "ev = (if b then Popped j x else Pop_empty)"
      "\<not> b \<longrightarrow> x = d \<and> j = i" using only by force
    then show "case ev of Popped j x \<Rightarrow> pop_index lo d i q = Some (True, x, j, q')
        | Pop_empty \<Rightarrow> pop_index lo d i q = Some (False, d, i, q') | _ \<Rightarrow> False"
      by (cases b) simp_all
  next
    assume "case ev of Popped j x \<Rightarrow> pop_index lo d i q = Some (True, x, j, q')
        | Pop_empty \<Rightarrow> pop_index lo d i q = Some (False, d, i, q') | _ \<Rightarrow> False"
    then show "\<exists>k. solo lp lo k (start Pop, q) = Some (Finished Pop ev, q')"
      using ret by (cases ev) auto
  qed
qed

end
