(* ===== verification/Progress.thy ===== *)
theory Progress
  imports Solo
begin

text \<open>
  Progress of the concurrent queue. \<open>rank\<close> bounds the number of steps that a thread in a \<open>push\<close> or a
  \<open>pop\<close> can take before some call takes effect: every step of the thread lowers it, no step of
  another thread raises it. So the queue is lock-free, and a thread that runs alone returns.
\<close>

section \<open>The rank of a thread\<close>

fun plain :: "('v, 'i) op \<Rightarrow> bool" where
  "plain (Push d) = True"
| "plain Pop = True"
| "plain _ = False"

lemma plain_loads: "plain c \<Longrightarrow> loads c"
  by (cases c) auto

text \<open>A trip with the current index; one more trip comes first when the index lags.\<close>

definition trip_rank :: "('v, 'l word) op \<Rightarrow> ('v, 'l::len) sys \<Rightarrow> nat" where
  "trip_rank c s = (if index_pos c s < served c s then 6 else 3)"

fun pc_rank :: "nat \<Rightarrow> ('v, 'l::len) sys \<Rightarrow> nat \<Rightarrow> ('v, 'l) thread \<Rightarrow> nat" where
  "pc_rank n s x Idle = 0"
| "pc_rank n s x (Load_index c) = trip_rank c s"
| "pc_rank n s x (Read_entry c i) =
     (if x = served c s then 2 else 2 + (if x = index_pos c s then 3 else trip_rank c s))"
| "pc_rank n s x (Cas_entry c i e e') =
     (if arr_cells (ring (mem s)) ! (x mod n) = e then 1 else 1 + trip_rank c s)"
| "pc_rank n s x (Help_index c i) = 1 + (if x = index_pos c s then 3 else trip_rank c s)"
| "pc_rank n s x (Move_index c i ev) = 1"
| "pc_rank n s x (Finished c ev) = 0"

definition rank :: "nat \<Rightarrow> ('v, 'l::len) sys \<Rightarrow> nat \<Rightarrow> nat" where
  "rank n s t = pc_rank n s (stamp s t) (pcs s t)"

fun in_call :: "('v, 'i, 'e) pc \<Rightarrow> ('v, 'i) op option" where
  "in_call Idle = None"
| "in_call (Load_index c) = Some c"
| "in_call (Read_entry c i) = Some c"
| "in_call (Cas_entry c i e e') = Some c"
| "in_call (Help_index c i) = Some c"
| "in_call (Move_index c i ev) = Some c"
| "in_call (Finished c ev) = Some c"

lemma pc_rank_bound: "pc_rank n s x p \<le> 8"
  by (cases p) (auto simp: trip_rank_def)

text \<open>Steps without an event keep the numbers of elements and the entries.\<close>

lemma trip_rank_later:
  assumes "index_pos c s \<le> index_pos c s'" and "served c s' = served c s"
  shows "trip_rank c s' \<le> trip_rank c s"
  using assms by (auto simp: trip_rank_def)

lemma sim_no_event:
  assumes "sim n s h xs" and "fresh n s" and "sys_step lp lo s l s'" and "events [l] = []"
  shows "sim n s' h xs"
  using sim_step [OF assms(1-3)] assms(4) by auto

lemma served_eq: "sim n s h xs \<Longrightarrow> sim n s' h xs \<Longrightarrow> served c s' = served c s"
  by (simp add: sim_served)

lemma pc_rank_later:
  assumes ok: "pc_ok n s x p" and sim: "sim n s h xs" and sim': "sim n s' h xs" and later: "later s s'"
    and cells: "arr_cells (ring (mem s')) = arr_cells (ring (mem s))"
  shows "pc_rank n s' x p \<le> pc_rank n s x p"
proof -
  have srv: "served c s' = served c s" for c by (rule served_eq [OF sim sim'])
  have ip: "index_pos c s \<le> index_pos c s'" for c :: "('a, 'b word) op"
    using later by (simp add: index_pos_def later_def)
  have tr: "trip_rank c s' \<le> trip_rank c s" for c by (rule trip_rank_later [OF ip srv])
  have near: "(if x = index_pos c s' then 3 else trip_rank c s') \<le> (if x = index_pos c s then 3 else trip_rank c s)"
    if "x \<le> index_pos c s" "x < served c s" for c
  proof (cases "x = index_pos c s")
    case True
    have "served c s \<le> index_pos c s + 1" by (rule sim_index(3) [OF sim])
    with True ip [of c] that srv [of c] show ?thesis by (auto simp: trip_rank_def)
  next
    case False
    with that ip [of c] tr [of c] show ?thesis by auto
  qed
  have le: "index_pos c s \<le> served c s" for c
    using ip [of c] sim_index(2) [OF sim', of c] srv [of c] by simp
  show ?thesis
  proof (cases p)
    case (Read_entry c i)
    then have "x \<le> index_pos c s" using ok by (simp add: loaded_def)
    with le [of c] near [of c] srv [of c] Read_entry show ?thesis by auto
  next
    case (Help_index c i)
    with ok near [of c] show ?thesis by (simp add: loaded_def)
  qed (use tr cells in auto)
qed

lemma cas_entry_cells:
  assumes "cas_entry q i e e' = Some (False, q')"
  shows "q' = q"
  using assms by (auto simp: cas_entry_def compare_exchange_def Let_def split: option.splits if_splits)

lemma swapped_event: "snd (swapped lp lo c i e) \<noteq> None"
  by (cases c) auto

lemma tstep_no_event:
  assumes "tstep lp lo q p = Some (p', q', None)"
  shows "ring q' = ring q"
proof (cases p)
  case (Cas_entry c i e e')
  with assms swapped_event [of lp lo c i e] show ?thesis
    by (auto simp: split_beta split: if_splits dest: cas_entry_cells)
qed (use assms in \<open>auto simp: split_beta cas_index_def cas_write_index_def cas_read_index_def\<close>)

lemma later_pcs: "later s (s\<lparr>pcs := p\<rparr>)"
  by (simp add: later_def)

lemma step_later: "sys_step lp lo s l s' \<Longrightarrow> later s s'"
  by (cases rule: sys_step.cases) (auto intro: later_act later_pcs)

lemma step_no_event:
  assumes "sys_step lp lo s l s'" and "events [l] = []"
  shows "ring (mem s') = ring (mem s)"
  using assms(1)
proof cases
  case (act t p q ev)
  with assms(2) have "ev = None" by (cases ev) auto
  with act tstep_no_event [of lp lo "mem s" "pcs s t" p q] show ?thesis by simp
qed simp_all

text \<open>A step of another thread does not raise the rank.\<close>

lemma others_rank:
  assumes sim: "sim n s h xs" and fr: "fresh n s" and st: "sys_step lp lo s l s'" and ev: "events [l] = []"
    and other: "pcs s' t = pcs s t" "stamp s' t = stamp s t"
  shows "rank n s' t \<le> rank n s t"
  unfolding rank_def other
  by (rule pc_rank_later [OF sim_pc [OF sim] sim sim_no_event [OF sim fr st ev] step_later [OF st]])
    (simp add: step_no_event [OF st ev])

text \<open>A step of the thread itself lowers it.\<close>

lemma own_rank_cas:
  assumes pc: "pcs s t = Cas_entry c i e e'" and c: "plain c"
    and sim: "sim n s h xs" and st: "tstep lp lo (mem s) (pcs s t) = Some (p, q, None)"
  shows "rank n (act t p q None s) t < rank n s t"
proof -
  have shape: "ring_shape (mem s) n" by (rule rep_shape [OF sim_rep [OF sim]])
  have i: "i = of_nat (stamp s t)"
    using sim_pc [OF sim, of t] pc c by (cases c) (auto simp: loaded_def)
  have ne: "arr_cells (ring (mem s)) ! (stamp s t mod n) \<noteq> e"
    using st pc swapped_event [of lp lo c i e] unfolding i
    by (auto simp: cas_entry_position [OF shape] split_beta)
  then have "p = Load_index c" "q = mem s"
    using st pc c unfolding i by (cases c; auto simp: cas_entry_position [OF shape])+
  with ne pc show ?thesis by (simp add: rank_def trip_rank_def index_pos_def served_def)
qed

lemma own_rank_read:
  fixes s :: "('v::zero, 'l::len) sys"
  assumes pc: "pcs s t = Read_entry c i" and c: "plain c" and sim: "sim n s h xs" and fr: "fresh n s"
    and st: "tstep lp lo (mem s) (pcs s t) = Some (p, q, None)"
  shows "rank n (act t p q None s) t < rank n s t"
proof -
  let ?x = "stamp s t"
  have shape: "ring_shape (mem s) n" by (rule rep_shape [OF sim_rep [OF sim]])
  obtain e where e: "entry_at (mem s) i = Some e" using st pc by auto
  have d: "decide (capacity (mem s)) c i e = (p, None)" "q = mem s"
    using st pc e by (auto simp: split_beta prod_eq_iff)
  have i: "i = of_nat ?x" "?x \<le> index_pos c s" using sim_pc [OF sim, of t] pc by (auto simp: loaded_def)
  have cell: "arr_cells (ring (mem s)) ! (?x mod n) = e" using e by (simp add: i(1) entry_at_position [OF shape])
  have srv: "served c s \<le> index_pos c s + 1" by (rule sim_index(3) [OF sim])
  have rank: "rank n s t = (if ?x = served c s then 2 else 2 + (if ?x = index_pos c s then 3 else trip_rank c s))"
    using pc by (simp add: rank_def)
  have rank': "rank n (act t p q None s) t = pc_rank n s ?x p"
    using pc d(2) by (cases p) (simp_all add: rank_def trip_rank_def index_pos_def served_def)
  have "p = Load_index c \<and> ?x + 1 < served c s \<or> p = Help_index c i \<and> ?x < served c s \<or>
      (\<exists>e'. p = Cas_entry c i e e') \<and> ?x = served c s"
  proof (cases "writes c")
    case True
    then obtain v where "c = Push v" by (cases c) auto
    with d push_reads [OF sim fr pc e True] show ?thesis
      by (cases "push_verdict (capacity (mem s)) i (get_seq e)") (auto simp: i(1) entry_of_seq_at)
  next
    case False
    then have "c = Pop" "served c s = h" using c sim_served [OF sim, of c] by (cases c; simp)+
    with d pop_reads(1) [OF sim fr pc e False] show ?thesis
      by (cases "pop_verdict (capacity (mem s)) i (get_seq e)") auto
  qed
  then show ?thesis using srv cell i(2) unfolding rank rank' by (auto simp: trip_rank_def)
qed

lemma own_rank:
  fixes s :: "('v::zero, 'l::len) sys"
  assumes pc: "in_call (pcs s t) = Some c" and c: "plain c" and sim: "sim n s h xs" and fr: "fresh n s"
    and st: "tstep lp lo (mem s) (pcs s t) = Some (p, q, None)"
  shows "rank n (act t p q None s) t < rank n s t"
proof (cases "pcs s t")
  case (Load_index c')
  with st have "p = Read_entry c' (index_of c' (mem s))" "q = mem s" by auto
  with Load_index sim_index [OF sim, of c'] show ?thesis
    by (auto simp: rank_def trip_rank_def index_pos_def served_def)
next
  case (Read_entry c' i)
  with own_rank_read [OF Read_entry _ sim fr st] pc c show ?thesis by simp
next
  case (Cas_entry c' i e e')
  with own_rank_cas [OF Cas_entry _ sim st] pc c show ?thesis by simp
next
  case (Help_index c' i)
  let ?s = "act t p q None s"
  have x: "loaded c' i (stamp s t) s" "stamp s t < served c' s" using sim_pc [OF sim, of t] Help_index by auto
  have f: "served c' s + n \<le> stamp s t + half_range TYPE('l)" by (rule fresh_index [OF fr]) (simp add: Help_index)
  have p: "p = Load_index c'" using st Help_index by simp
  have "index_pos c' ?s = (if index_pos c' s = stamp s t then index_pos c' s + 1 else index_pos c' s)"
    using Help_index index_unmoved [OF sim x(1) f] by (auto simp: index_pos_def)
  moreover have "served c' ?s = served c' s" using Help_index by (simp add: served_def)
  moreover have "served c' s \<le> index_pos c' s + 1" by (rule sim_index(3) [OF sim])
  ultimately show ?thesis using x Help_index p by (auto simp: rank_def trip_rank_def)
next
  case (Move_index c' i ev)
  with st show ?thesis by (auto simp: rank_def)
qed (use st in simp_all)

section \<open>Lock freedom\<close>

fun steps_of :: "nat \<Rightarrow> ('v, 'i) label list \<Rightarrow> nat" where
  "steps_of t [] = 0"
| "steps_of t (Act u ev # tr) = (if u = t then 1 else 0) + steps_of t tr"
| "steps_of t (l # tr) = steps_of t tr"

fun calls_of :: "nat \<Rightarrow> ('v, 'i) label list \<Rightarrow> nat" where
  "calls_of t [] = 0"
| "calls_of t (Call u c # tr) = (if u = t then 1 else 0) + calls_of t tr"
| "calls_of t (l # tr) = calls_of t tr"

lemma steps_of_append: "steps_of t (tr @ tr') = steps_of t tr + steps_of t tr'"
  by (induction t tr rule: steps_of.induct) auto

lemma calls_of_append: "calls_of t (tr @ tr') = calls_of t tr + calls_of t tr'"
  by (induction t tr rule: calls_of.induct) auto

lemma decide_in_call: "in_call (fst (decide sz c i e)) = Some c"
  by (cases c) (auto split: verdict.split)

lemma tstep_in_call:
  assumes "tstep lp lo q p = Some (p', q', ev)" and "in_call p = Some c"
  shows "in_call p' = Some c"
proof (cases p)
  case (Read_entry c' i)
  with assms decide_in_call show ?thesis by (auto simp: split_beta)
next
  case (Cas_entry c' i e e')
  with assms show ?thesis by (cases c) (auto split: if_splits prod.splits)
qed (use assms in auto)

lemma holds_index_call: "holds_index p = Some c \<Longrightarrow> in_call p = Some c"
  by (cases p rule: holds_index.cases) auto

lemma tstep_holds_index:
  assumes st: "tstep lp lo q p = Some (p', q', None)" and h: "holds_index p' = Some c" and l: "\<And>c'. p \<noteq> Load_index c'"
  shows "holds_index p = Some c"
proof (cases p)
  case (Read_entry c' i)
  with tstep_in_call [OF st, of c'] holds_index_call [OF h] show ?thesis by simp
next
  case (Cas_entry c' i e e')
  with st swapped_event [of lp lo c' i e] have "p' = fst (not_swapped c')" "snd (not_swapped c') = None"
    by (auto simp: split_beta split: if_splits)
  then have "holds_index p' = None" by (cases c') auto
  with h show ?thesis by simp
qed (use st h l in auto)

text \<open>The number of steps of a thread in a stretch of a run in which no call takes effect.\<close>

lemma quiet_run:
  fixes s :: "('v::zero, 'l::len) sys"
  assumes run: "fresh_run lp lo n s tr s'" and sim: "sim n s h xs" and fr: "fresh n s"
    and pc: "\<And>c. in_call (pcs s t) = Some c \<Longrightarrow> plain c"
    and quiet: "events tr = []" "calls_of t tr = 0"
  shows "sim n s' h xs \<and> (\<forall>c. in_call (pcs s' t) = Some c \<longrightarrow> plain c) \<and> steps_of t tr + rank n s' t \<le> rank n s t"
  using run quiet
proof (induction rule: fresh_run.induct)
  case fresh_stop
  then show ?case using sim pc by simp
next
  case (fresh_more tr s1 l s2)
  have q: "events tr = []" "events [l] = []" "calls_of t tr = 0" "calls_of t [l] = 0"
    using fresh_more.prems by (simp_all add: events_append calls_of_append)
  with fresh_more.IH have IH: "sim n s1 h xs" "\<And>c. in_call (pcs s1 t) = Some c \<Longrightarrow> plain c"
    "steps_of t tr + rank n s1 t \<le> rank n s t" by simp_all
  have fr1: "fresh n s1" by (rule fresh_run_fresh [OF fresh_more.hyps(1) fr])
  have sim2: "sim n s2 h xs" by (rule sim_no_event [OF IH(1) fr1 fresh_more.hyps(2) q(2)])
  have "(\<forall>c. in_call (pcs s2 t) = Some c \<longrightarrow> plain c) \<and> steps_of t [l] + rank n s2 t \<le> rank n s1 t"
    using fresh_more.hyps(2)
  proof cases
    case (call u c)
    then have "u \<noteq> t" using q(4) by auto
    with call IH(2) others_rank [OF IH(1) fr1 fresh_more.hyps(2) q(2), of t] show ?thesis by simp
  next
    case (act u p m ev)
    then have ev: "ev = None" using q(2) by (cases ev) auto
    show ?thesis
    proof (cases "u = t")
      case True
      then obtain c where c: "in_call (pcs s1 t) = Some c" using act(3) by (cases "pcs s1 t") auto
      have "rank n (act t p m None s1) t < rank n s1 t"
        using own_rank [OF c IH(2) [OF c] IH(1) fr1] act(3) ev True by simp
      moreover have "in_call p = Some c" using tstep_in_call [OF act(3)] c True by simp
      ultimately show ?thesis using act ev True IH(2) [OF c] by simp
    next
      case False
      with act IH(2) others_rank [OF IH(1) fr1 fresh_more.hyps(2) q(2), of t] show ?thesis by simp
    qed
  next
    case (ret u c ev)
    show ?thesis
    proof (cases "u = t")
      case True
      with ret show ?thesis by (simp add: rank_def)
    next
      case False
      with ret IH(2) others_rank [OF IH(1) fr1 fresh_more.hyps(2) q(2), of t] show ?thesis by simp
    qed
  qed
  with sim2 IH(3) show ?case by (auto simp: steps_of_append)
qed

section \<open>A thread that runs alone returns\<close>

lemma alone_fresh:
  fixes s :: "('v::zero, 'l::len) sys"
  assumes sim: "sim n s h xs" and fr: "fresh n s" and st: "tstep lp lo (mem s) (pcs s t) = Some (p, q, None)"
  shows "fresh n (act t p q None s)"
proof -
  let ?s = "act t p q None s"
  have sim': "sim n ?s h xs" using act_step [OF sim fr st] by (simp add: step_ok_def)
  have srv: "served c ?s = served c s" for c by (rule served_eq [OF sim sim'])
  have "served c ?s + n \<le> stamp ?s u + half_range TYPE('l)" if h: "holds_index (pcs ?s u) = Some c" for u c
  proof (cases "u = t")
    case False
    then show ?thesis using fresh_index [OF fr, of u c] h srv by simp
  next
    case True
    show ?thesis
    proof (cases "\<exists>c'. pcs s t = Load_index c'")
      case l: True
      then obtain c' where l: "pcs s t = Load_index c'" by blast
      then have "c' = c" using st h True by auto
      then have "stamp ?s u = index_pos c s" using True l by (simp add: index_pos_def)
      moreover have "served c s \<le> index_pos c s + 1" by (rule sim_index(3) [OF sim])
      moreover have "n < half_range TYPE('l)" by (rule shape_bounds(3) [OF rep_shape [OF sim_rep [OF sim]]])
      ultimately show ?thesis using srv by simp
    next
      case l: False
      have "stamp ?s t = stamp s t" using l by (cases "pcs s t") auto
      moreover have "holds_index (pcs s t) = Some c"
        by (rule tstep_holds_index [OF st]) (use h True l in auto)
      ultimately show ?thesis using fresh_index [OF fr, of t c] srv True by simp
    qed
  qed
  then show ?thesis by (simp add: fresh_def)
qed

lemma tstep_total:
  assumes sim: "sim n s h xs" and c: "in_call (pcs s t) = Some c" and f: "\<And>c ev. pcs s t \<noteq> Finished c ev"
  shows "\<exists>p q ev. tstep lp lo (mem s) (pcs s t) = Some (p, q, ev)"
proof -
  have shape: "ring_shape (mem s) n" by (rule rep_shape [OF sim_rep [OF sim]])
  have at: "\<exists>e. entry_at (mem s) i = Some e" for i
    using entry_at_position [OF shape, of "unat i"] by simp
  show ?thesis
  proof (cases "pcs s t")
    case (Read_entry c' i)
    with at [of i] show ?thesis by (auto simp: split_beta)
  next
    case (Cas_entry c' i e e')
    with at [of i] show ?thesis by (auto simp: cas_entry_def split_beta)
  qed (use c f in auto)
qed

lemma event_then_done:
  assumes st: "tstep lp lo q p = Some (p', q', Some ev)"
  shows "(\<exists>c. p' = Finished c ev) \<or> (\<exists>c i. p' = Move_index c i ev)"
proof (cases p)
  case (Read_entry c i)
  then obtain e where "decide (capacity q) c i e = (p', Some ev)" using st by (auto simp: split_beta prod_eq_iff)
  then show ?thesis by (cases c) (auto split: verdict.splits if_splits)
next
  case (Cas_entry c i e e')
  with st show ?thesis by (cases c) (auto split: if_splits prod.splits)
qed (use st in auto)

lemma solo_finishes:
  fixes s :: "('v::zero, 'l::len) sys"
  assumes "sim n s h xs" and "fresh n s" and "in_call (pcs s t) = Some c" and "plain c"
  shows "\<exists>k ev q. k \<le> rank n s t + 1 \<and> solo lp lo k (pcs s t, mem s) = Some (Finished c ev, q)"
  using assms
proof (induction "rank n s t" arbitrary: s rule: less_induct)
  case less
  show ?case
  proof (cases "\<exists>ev. pcs s t = Finished c ev")
    case True
    then obtain ev where "pcs s t = Finished c ev" by blast
    then show ?thesis by (intro exI [of _ 0] exI [of _ ev] exI [of _ "mem s"]) simp
  next
    case False
    with less.prems(3) have nf: "pcs s t \<noteq> Finished c' ev" for c' ev by (cases "pcs s t") auto
    obtain p q ev where st: "tstep lp lo (mem s) (pcs s t) = Some (p, q, ev)"
      using tstep_total [OF less.prems(1,3) nf] by blast
    note p = tstep_in_call [OF st less.prems(3)]
    show ?thesis
    proof (cases ev)
      case None
      let ?s = "act t p q None s"
      have "rank n ?s t < rank n s t" using own_rank [OF less.prems(3,4,1,2)] st None by simp
      moreover have "sim n ?s h xs" using act_step [OF less.prems(1,2) st] None by (simp add: step_ok_def)
      moreover have "fresh n ?s" using alone_fresh [OF less.prems(1,2)] st None by simp
      ultimately obtain k ev' q' where k: "k \<le> rank n ?s t + 1" "solo lp lo k (pcs ?s t, mem ?s) = Some (Finished c ev', q')"
        using less.hyps [of ?s] p less.prems(4) by auto
      with \<open>rank n ?s t < rank n s t\<close> st None show ?thesis
        by (intro exI [of _ "Suc k"] exI [of _ ev'] exI [of _ q']) auto
    next
      case (Some v)
      have pos: "0 < rank n s t" using nf less.prems(3) by (cases "pcs s t") (auto simp: rank_def trip_rank_def)
      from event_then_done [OF st [unfolded Some]] p consider "p = Finished c v" | i where "p = Move_index c i v" by auto
      then show ?thesis
      proof cases
        case 1
        with st Some pos show ?thesis by (intro exI [of _ 1] exI [of _ v] exI [of _ q]) simp
      next
        case 2
        with st Some pos show ?thesis
          by (intro exI [of _ "Suc (Suc 0)"] exI [of _ v] exI [of _ "cas_index c i q"]) simp
      qed
    qed
  qed
qed

end
