(* ===== verification/QueuePack.thy ===== *)
theory QueuePack
  imports MpmcInit
begin

text \<open>
  The class \<^verbatim>\<open>mpmc_queue_pack\<close> of \<^verbatim>\<open>mpmc_queue_pack.h\<close>: a group of \<open>G\<close> queues behind producer and
  consumer accessors. The queue type \<^verbatim>\<open>Q\<close> is a template parameter: its operations are arguments of
  the definitions, and what they promise is the locale \<open>fifo\<close>. A pack holds one list for each queue.
\<close>

section \<open>State\<close>

record 'q pack =
  queues :: "'q list"
  writers_count :: u64
  readers_count :: u64

record producer =
  queue_index :: u32

record consumer =
  read_queue_index :: u32
  pop_count :: u32

section \<open>Construction\<close>

text \<open>\<^verbatim>\<open>make_unique<Q>(qsz)\<close> for each of the \<open>G\<close> slots; \<open>new\<close> is the constructor of \<open>Q\<close>.\<close>

fun construct_all :: "(ctor_error + 'q) option \<Rightarrow> nat \<Rightarrow> (ctor_error + 'q list) option" where
  "construct_all new 0 = Some (Inr [])"
| "construct_all new (Suc k) =
     (case new of
        None \<Rightarrow> None
      | Some (Inl err) \<Rightarrow> Some (Inl err)
      | Some (Inr q) \<Rightarrow> map_option (map_sum id (Cons q)) (construct_all new k))"

definition mpmc_queue_pack :: "u32 \<Rightarrow> (u64 \<Rightarrow> (ctor_error + 'q) option) \<Rightarrow> u32 \<Rightarrow> (ctor_error + 'q pack) option" where
  "mpmc_queue_pack G new qsz =
     map_option (map_sum id (\<lambda>qs. \<lparr>queues = qs, writers_count = 0, readers_count = 0\<rparr>))
       (construct_all (new (ucast qsz)) (unat G))"

section \<open>Producers\<close>

definition producer_new :: "u32 \<Rightarrow> 'q pack \<Rightarrow> producer \<times> 'q pack" where
  "producer_new G p =
     (\<lparr>queue_index = ucast (writers_count p mod ucast G)\<rparr>, p\<lparr>writers_count := writers_count p + 1\<rparr>)"

definition producer_push ::
  "('v \<Rightarrow> 'q \<Rightarrow> (bool \<times> 'q) option) \<Rightarrow> producer \<Rightarrow> 'v \<Rightarrow> 'q pack \<Rightarrow> (bool \<times> 'q pack) option" where
  "producer_push q_push pr d p =
     (let j = unat (queue_index pr)
      in map_option (\<lambda>(b, q'). (b, p\<lparr>queues := (queues p)[j := q']\<rparr>)) (q_push d (queues p ! j)))"

definition producer_push_index ::
  "('v \<Rightarrow> 'i \<Rightarrow> 'q \<Rightarrow> (bool \<times> 'i \<times> 'q) option) \<Rightarrow> producer \<Rightarrow> 'v \<Rightarrow> 'i \<Rightarrow> 'q pack
     \<Rightarrow> (bool \<times> 'i \<times> 'q pack) option" where
  "producer_push_index q_push pr d ir p =
     (let j = unat (queue_index pr)
      in map_option (\<lambda>(b, ir', q'). (b, ir', p\<lparr>queues := (queues p)[j := q']\<rparr>)) (q_push d ir (queues p ! j)))"

section \<open>Consumers\<close>

definition consumer_new :: "u32 \<Rightarrow> 'q pack \<Rightarrow> consumer \<times> 'q pack" where
  "consumer_new G p =
     (\<lparr>read_queue_index = ucast (readers_count p mod ucast G), pop_count = 0\<rparr>,
      p\<lparr>readers_count := readers_count p + 1\<rparr>)"

text \<open>\<^verbatim>\<open>_read_queue->pop(d)\<close>: the current queue of the consumer.\<close>

definition pop_current ::
  "('v \<Rightarrow> 'q \<Rightarrow> (bool \<times> 'v \<times> 'q) option) \<Rightarrow> consumer \<Rightarrow> 'v \<Rightarrow> 'q pack \<Rightarrow> (bool \<times> 'v \<times> 'q pack) option" where
  "pop_current q_pop c d p =
     (let j = unat (read_queue_index c)
      in map_option (\<lambda>(b, d', q'). (b, d', p\<lparr>queues := (queues p)[j := q']\<rparr>)) (q_pop d (queues p ! j)))"

definition next_queue :: "u32 \<Rightarrow> consumer \<Rightarrow> consumer" where
  "next_queue G c = c\<lparr>read_queue_index := (read_queue_index c + 1) mod G\<rparr>"

text \<open>The loop over the other queues; its state is the counter \<open>k\<close>, the consumer, \<open>d\<close> and the pack.\<close>

definition scan_body ::
  "u32 \<Rightarrow> ('v \<Rightarrow> 'q \<Rightarrow> (bool \<times> 'v \<times> 'q) option) \<Rightarrow> u32 \<times> consumer \<times> 'v \<times> 'q pack
     \<Rightarrow> (bool \<times> consumer \<times> 'v \<times> 'q pack, u32 \<times> consumer \<times> 'v \<times> 'q pack) turn option" where
  "scan_body G q_pop s =
     (let (k, c, d, p) = s
      in if k < G
         then (let c' = next_queue G c
               in case pop_current q_pop c' d p of
                    None \<Rightarrow> None
                  | Some (b, d', p') \<Rightarrow>
                      if b then Some (Return (True, c', d', p')) else Some (Loop (k + 1, c', d', p')))
         else Some (Return (False, c, d, p)))"

definition consumer_pop ::
  "u32 \<Rightarrow> u32 \<Rightarrow> ('v \<Rightarrow> 'q \<Rightarrow> (bool \<times> 'v \<times> 'q) option) \<Rightarrow> consumer \<Rightarrow> 'v \<Rightarrow> 'q pack
     \<Rightarrow> (bool \<times> consumer \<times> 'v \<times> 'q pack) option" where
  "consumer_pop G K q_pop c d p =
     (case pop_current q_pop c d p of
        None \<Rightarrow> None
      | Some (b, d', p') \<Rightarrow>
          if b
          then (let c' = c\<lparr>pop_count := pop_count c + 1\<rparr>
                in if pop_count c' \<ge> K
                   then Some (True, next_queue G (c'\<lparr>pop_count := 0\<rparr>), d', p')
                   else Some (True, c', d', p'))
          else spin (scan_body G q_pop) (1, c\<lparr>pop_count := 0\<rparr>, d', p'))"

section \<open>What a pack holds\<close>

text \<open>Queue \<open>j\<close> of the pack holds \<open>xss ! j\<close> after \<open>hs ! j\<close> removals.\<close>

definition pack_holds ::
  "('q \<Rightarrow> nat \<Rightarrow> 'v list \<Rightarrow> bool) \<Rightarrow> u32 \<Rightarrow> 'q pack \<Rightarrow> nat list \<Rightarrow> 'v list list \<Rightarrow> bool" where
  "pack_holds repr G p hs xss \<longleftrightarrow>
     length (queues p) = unat G \<and> length hs = unat G \<and> length xss = unat G \<and> 0 < G \<and>
     (\<forall>j < unat G. repr (queues p ! j) (hs ! j) (xss ! j))"

text \<open>The distance from queue \<open>i\<close>, going round, to the first queue that is not empty.\<close>

definition first_nonempty :: "nat \<Rightarrow> nat \<Rightarrow> 'v list list \<Rightarrow> nat option" where
  "first_nonempty G i xss = List.find (\<lambda>k. xss ! ((i + k) mod G) \<noteq> []) [0..<G]"

lemma pack_put:
  assumes "pack_holds repr G p hs xss" and "j < unat G" and "repr q' h ys"
  shows "pack_holds repr G (p\<lparr>queues := (queues p)[j := q']\<rparr>) (hs[j := h]) (xss[j := ys])"
  using assms by (auto simp: pack_holds_def nth_list_update)

lemma pack_put_same:
  assumes "pack_holds repr G p hs xss" and "j < unat G" and "repr q' (hs ! j) (xss ! j)"
  shows "pack_holds repr G (p\<lparr>queues := (queues p)[j := q']\<rparr>) hs xss"
  using pack_put [OF assms] by simp

definition at_queue :: "u32 \<Rightarrow> consumer \<Rightarrow> nat \<Rightarrow> bool" where
  "at_queue G c i \<longleftrightarrow> unat (read_queue_index c) = i \<and> i < unat G"

lemma next_at: "at_queue G c i \<Longrightarrow> at_queue G (next_queue G c) ((i + 1) mod unat G)"
proof -
  assume a: "at_queue G c i"
  moreover have "unat G < 4294967296" using unsigned_less [of G] by simp
  ultimately have "unat (read_queue_index c + 1) = i + 1"
    by (intro trans [OF unat_word_ariths(1)]) (simp add: at_queue_def)
  with a show ?thesis by (simp add: at_queue_def next_queue_def unat_mod)
qed

lemma next_count [simp]: "pop_count (next_queue G c) = pop_count c"
  by (simp add: next_queue_def)

section \<open>Properties of any queue type\<close>

context fifo
begin

lemma pack_push_holds:
  assumes p: "pack_holds repr G p hs xss" and j: "unat (queue_index pr) = j" "j < unat G"
  shows "\<exists>p'. producer_push push pr d p = Some (length (xss ! j) < cap, p') \<and>
    pack_holds repr G p' hs (if length (xss ! j) < cap then xss[j := xss ! j @ [d]] else xss)"
proof -
  have q: "repr (queues p ! j) (hs ! j) (xss ! j)" using p j by (simp add: pack_holds_def)
  from q show ?thesis
  proof (cases rule: push_cases [where d = d])
    case (room q')
    then have "pack_holds repr G (p\<lparr>queues := (queues p)[j := q']\<rparr>) (hs[j := hs ! j]) (xss[j := xss ! j @ [d]])"
      using pack_put [OF p j(2)] by blast
    with room j show ?thesis by (simp add: producer_push_def)
  next
    case (full q')
    then show ?thesis using pack_put_same [OF p j(2)] j by (simp add: producer_push_def)
  qed
qed

lemma pop_current_some:
  assumes p: "pack_holds repr G p hs xss" and c: "at_queue G c j" and x: "xss ! j = x # ys"
  shows "\<exists>p'. pop_current pop c d p = Some (True, x, p') \<and> pack_holds repr G p' (hs[j := hs ! j + 1]) (xss[j := ys])"
proof -
  have j: "unat (read_queue_index c) = j" "j < unat G" using c by (simp_all add: at_queue_def)
  have "repr (queues p ! j) (hs ! j) (x # ys)" using p j x by (auto simp: pack_holds_def)
  from pop_some [OF this, of d] obtain q' where "pop d (queues p ! j) = Some (True, x, q')" "repr q' (hs ! j + 1) ys"
    by blast
  then show ?thesis using pack_put [OF p j(2)] j by (simp add: pop_current_def)
qed

lemma pop_current_none:
  assumes p: "pack_holds repr G p hs xss" and c: "at_queue G c j" and x: "xss ! j = []"
  shows "\<exists>p'. pop_current pop c d p = Some (False, d, p') \<and> pack_holds repr G p' hs xss"
proof -
  have j: "unat (read_queue_index c) = j" "j < unat G" using c by (simp_all add: at_queue_def)
  have "repr (queues p ! j) (hs ! j) []" using p j x by (metis pack_holds_def)
  from pop_none [OF this, of d] obtain q' where "pop d (queues p ! j) = Some (False, d, q')" "repr q' (hs ! j) []"
    by blast
  then show ?thesis using pack_put_same [OF p j(2)] j x by (simp add: pop_current_def)
qed

text \<open>
  The scan visits the queues at distances \<open>k\<close>, \<open>k + 1\<close>, ... from \<open>i\<close>; \<open>c\<close> stands at distance \<open>k - 1\<close>.
\<close>

lemma scan:
  assumes "pack_holds repr G p hs xss" and "at_queue G c ((i + k - 1) mod unat G)" and "0 < k" and "k \<le> unat G"
  shows "\<exists>c' p'. case List.find (\<lambda>k. xss ! ((i + k) mod unat G) \<noteq> []) [k..<unat G] of
      None \<Rightarrow> spin (scan_body G pop) (of_nat k, c, d, p) = Some (False, c', d, p') \<and>
        at_queue G c' ((i + unat G - 1) mod unat G) \<and> pop_count c' = pop_count c \<and> pack_holds repr G p' hs xss
    | Some m \<Rightarrow> (let j = (i + m) mod unat G
        in spin (scan_body G pop) (of_nat k, c, d, p) = Some (True, c', hd (xss ! j), p') \<and>
           at_queue G c' j \<and> pop_count c' = pop_count c \<and>
           pack_holds repr G p' (hs[j := hs ! j + 1]) (xss[j := tl (xss ! j)]))"
  using assms
proof (induction "unat G - k" arbitrary: k c p)
  case 0
  then have "k = unat G" by simp
  then have "scan_body G pop (of_nat k, c, d, p) = Some (Return (False, c, d, p))"
    by (simp add: scan_body_def)
  with 0 \<open>k = unat G\<close> show ?case by (auto simp: spin_Return)
next
  case (Suc m)
  then have k: "k < unat G" by simp
  let ?j = "(i + k) mod unat G" and ?c = "next_queue G c"
  have lt: "of_nat k < G"
    using k unsigned_less [of G] by (simp add: word_less_nat_alt unsigned_of_nat take_bit_eq_mod)
  have at: "at_queue G ?c ?j"
    using next_at [OF Suc.prems(2)] Suc.prems(3) by (simp add: mod_simps)
  show ?case
  proof (cases "xss ! ?j")
    case Nil
    from pop_current_none [OF Suc.prems(1) at Nil, of d] obtain p'
      where p': "pop_current pop ?c d p = Some (False, d, p')" "pack_holds repr G p' hs xss" by blast
    have "scan_body G pop (of_nat k, c, d, p) = Some (Loop (of_nat (Suc k), ?c, d, p'))"
      using lt p'(1) by (simp add: scan_body_def Let_def add.commute)
    then have "spin (scan_body G pop) (of_nat k, c, d, p) = spin (scan_body G pop) (of_nat (Suc k), ?c, d, p')"
      by (rule spin_Loop)
    moreover have "List.find (\<lambda>k. xss ! ((i + k) mod unat G) \<noteq> []) [k..<unat G] =
        List.find (\<lambda>k. xss ! ((i + k) mod unat G) \<noteq> []) [Suc k..<unat G]"
      using k Nil by (simp add: upt_conv_Cons)
    moreover have "m = unat G - Suc k" "at_queue G ?c ((i + Suc k - 1) mod unat G)" "0 < Suc k" "Suc k \<le> unat G"
      using Suc.hyps(2) at k by simp_all
    ultimately show ?thesis using Suc.hyps(1) [of "Suc k" p' ?c] p'(2) by (simp only: next_count)
  next
    case (Cons x ys)
    from pop_current_some [OF Suc.prems(1) at Cons, of d] obtain p'
      where p': "pop_current pop ?c d p = Some (True, x, p')"
        "pack_holds repr G p' (hs[?j := hs ! ?j + 1]) (xss[?j := ys])" by blast
    have "scan_body G pop (of_nat k, c, d, p) = Some (Return (True, ?c, x, p'))"
      using lt p'(1) by (simp add: scan_body_def Let_def)
    moreover have "List.find (\<lambda>k. xss ! ((i + k) mod unat G) \<noteq> []) [k..<unat G] = Some k"
      using k Cons by (simp add: upt_conv_Cons)
    ultimately show ?thesis using at p'(2) Cons
      by (intro exI [of _ ?c] exI [of _ p']) (simp add: spin_Return Let_def)
  qed
qed

lemma consumer_pop_holds:
  assumes p: "pack_holds repr G p hs xss" and c: "at_queue G c i"
  shows "\<exists>c' p'. case first_nonempty (unat G) i xss of
      None \<Rightarrow> consumer_pop G K pop c d p = Some (False, c', d, p') \<and>
        at_queue G c' ((i + unat G - 1) mod unat G) \<and> pop_count c' = 0 \<and> pack_holds repr G p' hs xss
    | Some k \<Rightarrow> (let j = (i + k) mod unat G; turn = (k = 0 \<and> pop_count c + 1 \<ge> K)
        in consumer_pop G K pop c d p = Some (True, c', hd (xss ! j), p') \<and>
           at_queue G c' (if turn then (j + 1) mod unat G else j) \<and>
           pop_count c' = (if 0 < k \<or> turn then 0 else pop_count c + 1) \<and>
           pack_holds repr G p' (hs[j := hs ! j + 1]) (xss[j := tl (xss ! j)]))"
proof -
  have i: "i < unat G" "i mod unat G = i" "0 < unat G" using c by (simp_all add: at_queue_def)
  have find: "first_nonempty (unat G) i xss =
      (if xss ! i \<noteq> [] then Some 0 else List.find (\<lambda>k. xss ! ((i + k) mod unat G) \<noteq> []) [1..<unat G])"
    using i by (simp add: first_nonempty_def upt_conv_Cons)
  show ?thesis
  proof (cases "xss ! i")
    case (Cons x ys)
    from pop_current_some [OF p c Cons, of d] obtain p'
      where p': "pop_current pop c d p = Some (True, x, p')" "pack_holds repr G p' (hs[i := hs ! i + 1]) (xss[i := ys])"
      by blast
    let ?c = "c\<lparr>pop_count := pop_count c + 1\<rparr>"
    let ?c' = "if pop_count c + 1 \<ge> K then next_queue G (?c\<lparr>pop_count := 0\<rparr>) else ?c"
    have "consumer_pop G K pop c d p = Some (True, ?c', x, p')"
      using p'(1) by (simp add: consumer_pop_def Let_def)
    moreover have "at_queue G ?c' (if pop_count c + 1 \<ge> K then (i + 1) mod unat G else i)"
      using next_at [of G "?c\<lparr>pop_count := 0\<rparr>" i] c by (simp add: at_queue_def)
    ultimately show ?thesis using p'(2) Cons i(2) find
      by (intro exI [of _ ?c'] exI [of _ p']) (simp add: Let_def)
  next
    case Nil
    from pop_current_none [OF p c Nil, of d] obtain p'
      where p': "pop_current pop c d p = Some (False, d, p')" "pack_holds repr G p' hs xss" by blast
    have "consumer_pop G K pop c d p = spin (scan_body G pop) (of_nat 1, c\<lparr>pop_count := 0\<rparr>, d, p')"
      using p'(1) by (simp add: consumer_pop_def)
    moreover have "at_queue G (c\<lparr>pop_count := 0\<rparr>) ((i + 1 - 1) mod unat G)"
      using c i(2) by (simp add: at_queue_def)
    moreover have "first_nonempty (unat G) i xss = List.find (\<lambda>k. xss ! ((i + k) mod unat G) \<noteq> []) [1..<unat G]"
      using find Nil by simp
    moreover have "0 < m" if "List.find (\<lambda>k. xss ! ((i + k) mod unat G) \<noteq> []) [1..<unat G] = Some m" for m
      using that by (auto simp: find_Some_iff)
    ultimately show ?thesis
      using scan [OF p'(2), of "c\<lparr>pop_count := 0\<rparr>" i 1 d] i(3)
      by (auto simp: Let_def split: option.splits)
  qed
qed

end

text \<open>What \<open>first_nonempty\<close> finds.\<close>

lemma first_nonempty_Some:
  "first_nonempty G i xss = Some k \<Longrightarrow> k < G \<and> xss ! ((i + k) mod G) \<noteq> [] \<and> (\<forall>m < k. xss ! ((i + m) mod G) = [])"
  by (auto simp: first_nonempty_def find_Some_iff)

lemma first_nonempty_None:
  assumes "i < G" and "length xss = G"
  shows "first_nonempty G i xss = None \<longleftrightarrow> (\<forall>xs \<in> set xss. xs = [])"
proof
  assume none: "first_nonempty G i xss = None"
  show "\<forall>xs \<in> set xss. xs = []"
  proof
    fix xs
    assume "xs \<in> set xss"
    then obtain j where j: "j < G" "xss ! j = xs" using assms(2) by (auto simp: in_set_conv_nth)
    have "(i + (j + G - i) mod G) mod G = (i + (j + G - i)) mod G" by (simp add: mod_add_right_eq)
    also have "\<dots> = j" using assms(1) j(1) by simp
    finally have "(i + (j + G - i) mod G) mod G = j" .
    moreover have "(j + G - i) mod G < G" using j(1) by simp
    ultimately show "xs = []" using none j(2) by (auto simp: first_nonempty_def find_None_iff)
  qed
next
  assume "\<forall>xs \<in> set xss. xs = []"
  moreover have "(i + k) mod G < length xss" for k using assms by simp
  ultimately show "first_nonempty G i xss = None"
    by (auto simp: first_nonempty_def find_None_iff dest: nth_mem)
qed

section \<open>Many pops in a row\<close>

fun consumer_pops ::
  "u32 \<Rightarrow> u32 \<Rightarrow> ('v \<Rightarrow> 'q \<Rightarrow> (bool \<times> 'v \<times> 'q) option) \<Rightarrow> nat \<Rightarrow> consumer \<Rightarrow> 'v \<Rightarrow> 'q pack
     \<Rightarrow> ((bool \<times> 'v) list \<times> consumer \<times> 'q pack) option" where
  "consumer_pops G K q_pop 0 c d p = Some ([], c, p)"
| "consumer_pops G K q_pop (Suc k) c d p =
     Option.bind (consumer_pop G K q_pop c d p) (\<lambda>(b, c', d', p').
       map_option (\<lambda>(rs, c'', p''). ((b, d') # rs, c'', p'')) (consumer_pops G K q_pop k c' d' p'))"

context fifo
begin

text \<open>A consumer takes elements of its current queue until its count reaches \<open>K\<close>, then moves on.\<close>

lemma burst:
  assumes "pack_holds repr G p hs xss" and "at_queue G c j" and "unat (pop_count c) + length ys = unat K"
    and "ys \<noteq> []" and "xss ! j = ys @ zs"
  shows "\<exists>c' p'. consumer_pops G K pop (length ys) c d p = Some (map (Pair True) ys, c', p') \<and>
    at_queue G c' ((j + 1) mod unat G) \<and> pop_count c' = 0 \<and>
    pack_holds repr G p' (hs[j := hs ! j + length ys]) (xss[j := zs])"
  using assms
proof (induction ys arbitrary: c d p hs xss)
  case Nil
  then show ?case by simp
next
  case (Cons y ys)
  have j: "j < unat G" "j mod unat G = j" using Cons.prems(2) by (simp_all add: at_queue_def)
  have find: "first_nonempty (unat G) j xss = Some 0"
    using Cons.prems(5) j by (simp add: first_nonempty_def upt_conv_Cons)
  have len: "j < length hs" "j < length xss" using Cons.prems(1) j by (simp_all add: pack_holds_def)
  have K: "unat K < 4294967296" using unsigned_less [of K] by simp
  have inc: "unat (pop_count c + 1) = unat (pop_count c) + 1"
    using K Cons.prems(3) by (intro trans [OF unat_word_ariths(1)]) simp
  show ?case
  proof (cases ys)
    case Nil
    then have "pop_count c + 1 \<ge> K" using inc Cons.prems(3) by (simp add: word_le_nat_alt)
    with consumer_pop_holds [OF Cons.prems(1,2), of K d] Nil Cons.prems(5) j find show ?thesis
      by (auto simp: Let_def)
  next
    case (Cons z ys')
    then have "\<not> pop_count c + 1 \<ge> K" using inc Cons.prems(3) by (simp add: word_le_nat_alt)
    with consumer_pop_holds [OF Cons.prems(1,2), of K d] Cons.prems(5) j find obtain c' p' where
      st: "consumer_pop G K pop c d p = Some (True, c', y, p')" "at_queue G c' j" "pop_count c' = pop_count c + 1"
        "pack_holds repr G p' (hs[j := hs ! j + 1]) (xss[j := ys @ zs])"
      by (auto simp: Let_def)
    have "unat (pop_count c') + length ys = unat K" "ys \<noteq> []" "xss[j := ys @ zs] ! j = ys @ zs"
      using st(3) inc Cons.prems(3) Cons len by simp_all
    from Cons.IH [OF st(4,2) this, of y] st(1) len show ?thesis by auto
  qed
qed

end

section \<open>Packs of \<^verbatim>\<open>mpmc_queue\<close>\<close>

text \<open>The constructor refuses what the constructor of the queue refuses, and starts with empty queues.\<close>

lemma construct_all_same:
  "new = Some (Inr q) \<Longrightarrow> construct_all new k = Some (Inr (replicate k q))"
  "new = Some (Inl err) \<Longrightarrow> 0 < k \<Longrightarrow> construct_all new k = Some (Inl err)"
  by (induction k) auto

lemma pack_new_holds:
  assumes new: "new (ucast qsz) = Some (Inr q)" and q: "repr q 0 []" and G: "0 < G"
  shows "\<exists>p. mpmc_queue_pack G new qsz = Some (Inr p) \<and> writers_count p = 0 \<and> readers_count p = 0 \<and>
    pack_holds repr G p (replicate (unat G) 0) (replicate (unat G) [])"
  using assms by (simp add: mpmc_queue_pack_def construct_all_same pack_holds_def)

text \<open>Accessors go round the queues in the order of their construction.\<close>

fun producers :: "u32 \<Rightarrow> nat \<Rightarrow> 'q pack \<Rightarrow> producer list \<times> 'q pack" where
  "producers G 0 p = ([], p)"
| "producers G (Suc k) p =
     (let (pr, p') = producer_new G p; (prs, p'') = producers G k p' in (pr # prs, p''))"

lemma accessor_index:
  fixes G :: u32
  assumes "0 < G" and "m < 2 ^ 64"
  shows "unat (ucast ((of_nat m :: u64) mod ucast G) :: u32) = m mod unat G"
proof -
  have "unat G < 4294967296" using unsigned_less [of G] by simp
  moreover have "m mod unat G < unat G" using assms(1) by (simp add: word_gt_0 unat_gt_0)
  ultimately show ?thesis
    using assms by (simp add: unsigned_ucast_eq unat_mod unsigned_of_nat take_bit_eq_mod)
qed

lemma producers_round_robin:
  assumes "0 < G" and "writers_count p = of_nat m" and "m + k \<le> 2 ^ 64"
  shows "map (\<lambda>pr. unat (queue_index pr)) (fst (producers G k p)) = map (\<lambda>x. (m + x) mod unat G) [0..<k]"
  using assms(2,3)
proof (induction k arbitrary: p m)
  case (Suc k)
  have pr: "fst (producer_new G p) = \<lparr>queue_index = ucast ((of_nat m :: u64) mod ucast G)\<rparr>"
    "writers_count (snd (producer_new G p)) = of_nat (Suc m)"
    using Suc.prems(1) by (simp_all add: producer_new_def)
  have ix: "unat (queue_index (fst (producer_new G p))) = m mod unat G"
    using accessor_index [OF assms(1), of m] Suc.prems(2) pr(1) by simp
  have "map (\<lambda>x. (m + x) mod unat G) [0..<Suc k] = m mod unat G # map (\<lambda>x. (Suc m + x) mod unat G) [0..<k]"
    by (simp add: map_upt_Suc del: upt_Suc)
  with Suc.IH [OF pr(2)] Suc.prems(2) ix show ?case by (simp add: split_beta Let_def)
qed simp

end
