(* ===== verification/PointerQueue.thy ===== *)
theory PointerQueue
  imports MpmcInit "HOL-Library.Multiset"
begin

text \<open>
  The class \<^verbatim>\<open>pointer_mpmc_queue\<close> of \<^verbatim>\<open>pointer_mpmc_queue.h\<close>: a queue of unique pointers over a
  queue of raw pointers. A unique pointer is the raw pointer it owns, null being the zero of the
  pointer type; what the standard library deletes is recorded in \<open>deleted\<close>. The operations of the
  inner queue are arguments (the template parameter \<^verbatim>\<open>Q\<close>), with the locale \<open>fifo\<close> as their contract.
\<close>

section \<open>Unique pointers\<close>

text \<open>The members of \<^verbatim>\<open>std::unique_ptr\<close> in use; \<open>reset\<close> and the destructor return what they delete.\<close>

definition uptr_release :: "'p::zero \<Rightarrow> 'p \<times> 'p" where
  "uptr_release v = (v, 0)"

definition uptr_destroy :: "'p::zero \<Rightarrow> 'p list" where
  "uptr_destroy v = (if v \<noteq> 0 then [v] else [])"

definition uptr_reset :: "'p::zero \<Rightarrow> 'p \<Rightarrow> 'p \<times> 'p list" where
  "uptr_reset v nv = (nv, uptr_destroy v)"

section \<open>The queue of pointers\<close>

record ('q, 'p) pointer_queue =
  inner :: 'q
  deleted :: "'p list"

definition pointer_mpmc_queue ::
  "(u64 \<Rightarrow> (ctor_error + 'q) option) \<Rightarrow> u32 \<Rightarrow> (ctor_error + ('q, 'p) pointer_queue) option" where
  "pointer_mpmc_queue new sz = map_option (map_sum id (\<lambda>q. \<lparr>inner = q, deleted = []\<rparr>)) (new (ucast sz))"

text \<open>\<^verbatim>\<open>push(uniqptr_type&& v)\<close>: the result is the return value and what \<^verbatim>\<open>v\<close> owns afterwards.\<close>

definition ptr_push ::
  "('p::zero \<Rightarrow> 'q \<Rightarrow> (bool \<times> 'q) option) \<Rightarrow> 'p \<Rightarrow> ('q, 'p) pointer_queue
     \<Rightarrow> (bool \<times> 'p \<times> ('q, 'p) pointer_queue) option" where
  "ptr_push q_push v s =
     map_option (\<lambda>(b, q'). (b, if b then snd (uptr_release v) else v, s\<lparr>inner := q'\<rparr>)) (q_push v (inner s))"

definition ptr_push_index ::
  "('p::zero \<Rightarrow> 'i \<Rightarrow> 'q \<Rightarrow> (bool \<times> 'i \<times> 'q) option) \<Rightarrow> 'p \<Rightarrow> 'i \<Rightarrow> ('q, 'p) pointer_queue
     \<Rightarrow> (bool \<times> 'p \<times> 'i \<times> ('q, 'p) pointer_queue) option" where
  "ptr_push_index q_push v i s =
     map_option (\<lambda>(b, i', q'). (b, if b then snd (uptr_release v) else v, i', s\<lparr>inner := q'\<rparr>)) (q_push v i (inner s))"

definition ptr_pop ::
  "('p::zero \<Rightarrow> 'q \<Rightarrow> (bool \<times> 'p \<times> 'q) option) \<Rightarrow> 'p \<Rightarrow> ('q, 'p) pointer_queue
     \<Rightarrow> (bool \<times> 'p \<times> ('q, 'p) pointer_queue) option" where
  "ptr_pop q_pop v s =
     map_option (\<lambda>(b, nv, q').
         if b then (let (v', del) = uptr_reset v nv in (True, v', s\<lparr>inner := q', deleted := deleted s @ del\<rparr>))
         else (False, v, s\<lparr>inner := q'\<rparr>))
       (q_pop 0 (inner s))"

definition ptr_pop_index ::
  "('p::zero \<Rightarrow> 'i \<Rightarrow> 'q \<Rightarrow> (bool \<times> 'p \<times> 'i \<times> 'q) option) \<Rightarrow> 'p \<Rightarrow> 'i \<Rightarrow> ('q, 'p) pointer_queue
     \<Rightarrow> (bool \<times> 'p \<times> 'i \<times> ('q, 'p) pointer_queue) option" where
  "ptr_pop_index q_pop v i s =
     map_option (\<lambda>(b, nv, i', q').
         if b then (let (v', del) = uptr_reset v nv in (True, v', i', s\<lparr>inner := q', deleted := deleted s @ del\<rparr>))
         else (False, v, i', s\<lparr>inner := q'\<rparr>))
       (q_pop 0 i (inner s))"

text \<open>The destructor pops every pointer into a unique pointer that ends its life at once.\<close>

definition ptr_destroy_body ::
  "('p::zero \<Rightarrow> 'q \<Rightarrow> (bool \<times> 'p \<times> 'q) option) \<Rightarrow> 'p \<times> ('q, 'p) pointer_queue
     \<Rightarrow> (('q, 'p) pointer_queue, 'p \<times> ('q, 'p) pointer_queue) turn option" where
  "ptr_destroy_body q_pop st =
     map_option (\<lambda>(b, nv, q').
         if b then Loop (nv, (snd st)\<lparr>inner := q', deleted := deleted (snd st) @ uptr_destroy nv\<rparr>)
         else Return ((snd st)\<lparr>inner := q'\<rparr>))
       (q_pop (fst st) (inner (snd st)))"

definition ptr_destroy ::
  "('p::zero \<Rightarrow> 'q \<Rightarrow> (bool \<times> 'p \<times> 'q) option) \<Rightarrow> ('q, 'p) pointer_queue \<Rightarrow> ('q, 'p) pointer_queue option" where
  "ptr_destroy q_pop s = spin (ptr_destroy_body q_pop) (0, s)"

definition ptr_empty :: "('q \<Rightarrow> bool option) \<Rightarrow> ('q, 'p) pointer_queue \<Rightarrow> bool option" where
  "ptr_empty q_empty s = q_empty (inner s)"

definition ptr_size :: "('q \<Rightarrow> size_t option) \<Rightarrow> ('q, 'p) pointer_queue \<Rightarrow> size_t option" where
  "ptr_size q_size s = q_size (inner s)"

definition ptr_capacity :: "('q \<Rightarrow> size_t) \<Rightarrow> ('q, 'p) pointer_queue \<Rightarrow> size_t" where
  "ptr_capacity q_capacity s = q_capacity (inner s)"

section \<open>Ownership\<close>

text \<open>The pointers, without null, that a list of unique pointers owns.\<close>

definition owned :: "'p::zero list \<Rightarrow> 'p multiset" where
  "owned vs = mset (filter (\<lambda>v. v \<noteq> 0) vs)"

lemma owned_simps [simp]:
  "owned [] = {#}" "owned (v # vs) = mset (uptr_destroy v) + owned vs" "owned (vs @ ws) = owned vs + owned ws"
  by (simp_all add: owned_def uptr_destroy_def)

lemma owned_destroy [simp]: "owned (uptr_destroy v) = mset (uptr_destroy v)"
  by (simp add: uptr_destroy_def owned_def)

lemma destroy_zero [simp]: "uptr_destroy 0 = []"
  by (simp add: uptr_destroy_def)

lemma owned_update:
  assumes "i < length vs"
  shows "owned (vs[i := v]) + mset (uptr_destroy (vs ! i)) = owned vs + mset (uptr_destroy v)"
proof -
  have "vs = take i vs @ vs ! i # drop (Suc i) vs" using assms by (simp add: id_take_nth_drop)
  then have "owned vs = owned (take i vs) + (mset (uptr_destroy (vs ! i)) + owned (drop (Suc i) vs))"
    by (metis owned_simps(2,3))
  moreover have "owned (vs[i := v]) = owned (take i vs) + (mset (uptr_destroy v) + owned (drop (Suc i) vs))"
    using assms by (simp add: upd_conv_take_nth_drop)
  ultimately show ?thesis by simp
qed

text \<open>
  A client with an array of unique pointers: it makes a new object in a slot, pushes the pointer of
  a slot, or pops into a slot.
\<close>

datatype 'p client_op = Make nat 'p | Push_from nat | Pop_into nat

fun client_step ::
  "('p::zero \<Rightarrow> 'q \<Rightarrow> (bool \<times> 'q) option) \<Rightarrow> ('p \<Rightarrow> 'q \<Rightarrow> (bool \<times> 'p \<times> 'q) option) \<Rightarrow> 'p client_op
     \<Rightarrow> 'p list \<times> ('q, 'p) pointer_queue \<Rightarrow> ('p list \<times> ('q, 'p) pointer_queue) option" where
  "client_step q_push q_pop (Make i p) (vs, s) =
     (let (v', del) = uptr_reset (vs ! i) p in Some (vs[i := v'], s\<lparr>deleted := deleted s @ del\<rparr>))"
| "client_step q_push q_pop (Push_from i) (vs, s) =
     map_option (\<lambda>(b, v', s'). (vs[i := v'], s')) (ptr_push q_push (vs ! i) s)"
| "client_step q_push q_pop (Pop_into i) (vs, s) =
     map_option (\<lambda>(b, v', s'). (vs[i := v'], s')) (ptr_pop q_pop (vs ! i) s)"

fun client_run ::
  "('p::zero \<Rightarrow> 'q \<Rightarrow> (bool \<times> 'q) option) \<Rightarrow> ('p \<Rightarrow> 'q \<Rightarrow> (bool \<times> 'p \<times> 'q) option) \<Rightarrow> 'p client_op list
     \<Rightarrow> 'p list \<times> ('q, 'p) pointer_queue \<Rightarrow> ('p list \<times> ('q, 'p) pointer_queue) option" where
  "client_run q_push q_pop [] st = Some st"
| "client_run q_push q_pop (x # xs) st =
     Option.bind (client_step q_push q_pop x st) (client_run q_push q_pop xs)"

fun slot :: "'p client_op \<Rightarrow> nat" where
  "slot (Make i p) = i"
| "slot (Push_from i) = i"
| "slot (Pop_into i) = i"

fun made :: "'p client_op list \<Rightarrow> 'p list" where
  "made [] = []"
| "made (Make i p # xs) = p # made xs"
| "made (x # xs) = made xs"

text \<open>The contract of a queue whose elements are pointers.\<close>

locale pointer_fifo = fifo push pop repr cap
  for push :: "'p::zero \<Rightarrow> 'q \<Rightarrow> (bool \<times> 'q) option" and pop :: "'p \<Rightarrow> 'q \<Rightarrow> (bool \<times> 'p \<times> 'q) option"
    and repr :: "'q \<Rightarrow> nat \<Rightarrow> 'p list \<Rightarrow> bool" and cap :: nat
begin

text \<open>Everything a client owns, everything in the queue and everything deleted is what was made.\<close>

lemma client_step_conserves:
  assumes "repr (inner s) h xs" and "slot x < length vs"
  shows "\<exists>vs' s' h' xs'. client_step push pop x (vs, s) = Some (vs', s') \<and> length vs' = length vs \<and>
    repr (inner s') h' xs' \<and>
    owned vs' + owned xs' + mset (deleted s') = owned vs + owned xs + mset (deleted s) + owned (made [x])"
proof (cases x)
  case (Make i p)
  then have "owned (vs[i := p]) + mset (uptr_destroy (vs ! i)) = owned vs + mset (uptr_destroy p)"
    using owned_update assms(2) by simp
  with assms(1) Make show ?thesis
    by (intro exI [of _ "vs[i := p]"] exI [of _ "s\<lparr>deleted := deleted s @ uptr_destroy (vs ! i)\<rparr>"]
        exI [of _ h] exI [of _ xs]) (simp add: uptr_reset_def)
next
  case (Push_from i)
  then have i: "i < length vs" using assms(2) by simp
  show ?thesis
  proof (cases rule: push_cases [OF assms(1), of "vs ! i", case_names room full])
    case (room q')
    moreover have "owned (vs[i := 0]) + mset (uptr_destroy (vs ! i)) = owned vs"
      using owned_update [OF i, of 0] by simp
    ultimately show ?thesis using Push_from
      by (intro exI [of _ "vs[i := 0]"] exI [of _ "s\<lparr>inner := q'\<rparr>"] exI [of _ h] exI [of _ "xs @ [vs ! i]"])
        (auto simp: ptr_push_def uptr_release_def)
  next
    case (full q')
    then show ?thesis using Push_from
      by (intro exI [of _ vs] exI [of _ "s\<lparr>inner := q'\<rparr>"] exI [of _ h] exI [of _ xs]) (simp add: ptr_push_def)
  qed
next
  case (Pop_into i)
  then have i: "i < length vs" using assms(2) by simp
  show ?thesis
  proof (cases rule: pop_cases [OF assms(1), of 0, case_names some none])
    case (some y ys q')
    then show ?thesis using Pop_into owned_update [OF i, of y]
      by (intro exI [of _ "vs[i := y]"] exI [of _ "s\<lparr>inner := q', deleted := deleted s @ uptr_destroy (vs ! i)\<rparr>"]
          exI [of _ "h + 1"] exI [of _ ys])
        (simp add: ptr_pop_def uptr_reset_def)
  next
    case (none q')
    then show ?thesis using Pop_into
      by (intro exI [of _ vs] exI [of _ "s\<lparr>inner := q'\<rparr>"] exI [of _ h] exI [of _ "[]"]) (simp add: ptr_pop_def)
  qed
qed

lemma owned_made_Cons: "owned (made (x # xs)) = owned (made [x]) + owned (made xs)"
  by (cases x) simp_all

lemma client_run_conserves:
  assumes "repr (inner s) h xs" and "\<forall>x \<in> set ops. slot x < length vs"
  shows "\<exists>vs' s' h' xs'. client_run push pop ops (vs, s) = Some (vs', s') \<and> length vs' = length vs \<and>
    repr (inner s') h' xs' \<and>
    owned vs' + owned xs' + mset (deleted s') = owned vs + owned xs + mset (deleted s) + owned (made ops)"
  using assms
proof (induction ops arbitrary: vs s h xs)
  case Nil
  then show ?case by (intro exI [of _ vs] exI [of _ s] exI [of _ h] exI [of _ xs]) simp
next
  case (Cons x ops)
  from client_step_conserves [OF Cons.prems(1), of x vs] Cons.prems(2) obtain vs1 s1 h1 xs1 where
    st: "client_step push pop x (vs, s) = Some (vs1, s1)" "length vs1 = length vs" "repr (inner s1) h1 xs1"
      "owned vs1 + owned xs1 + mset (deleted s1) = owned vs + owned xs + mset (deleted s) + owned (made [x])"
    by auto
  from Cons.IH [OF st(3), of vs1] Cons.prems(2) st(2) obtain vs2 s2 h2 xs2 where
    rest: "client_run push pop ops (vs1, s1) = Some (vs2, s2)" "length vs2 = length vs" "repr (inner s2) h2 xs2"
      "owned vs2 + owned xs2 + mset (deleted s2) = owned vs1 + owned xs1 + mset (deleted s1) + owned (made ops)"
    by auto
  with st show ?case
    by (intro exI [of _ vs2] exI [of _ s2] exI [of _ h2] exI [of _ xs2])
      (simp add: owned_made_Cons [of x ops] add.assoc del: made.simps)
qed

lemma ptr_destroy_deletes:
  assumes "repr (inner s) h xs"
  shows "\<exists>s'. ptr_destroy pop s = Some s' \<and> repr (inner s') (h + length xs) [] \<and>
    deleted s' = deleted s @ filter (\<lambda>v. v \<noteq> 0) xs"
proof -
  have "\<exists>s'. spin (ptr_destroy_body pop) (nv, s) = Some s' \<and> repr (inner s') (h + length xs) [] \<and>
      deleted s' = deleted s @ filter (\<lambda>v. v \<noteq> 0) xs" for nv
    using assms
  proof (induction xs arbitrary: nv s h)
    case Nil
    from pop_none [OF Nil, of nv] show ?case by (auto simp: spin_Return ptr_destroy_body_def)
  next
    case (Cons x xs)
    from pop_some [OF Cons.prems, of nv] obtain q' where
      q': "pop nv (inner s) = Some (True, x, q')" "repr q' (h + 1) xs" by blast
    let ?s = "s\<lparr>inner := q', deleted := deleted s @ uptr_destroy x\<rparr>"
    have "spin (ptr_destroy_body pop) (nv, s) = spin (ptr_destroy_body pop) (x, ?s)"
      using q'(1) by (intro spin_Loop) (simp add: ptr_destroy_body_def)
    with Cons.IH [of ?s "h + 1" x] q'(2) show ?case by (auto simp: uptr_destroy_def)
  qed
  then show ?thesis by (simp add: ptr_destroy_def)
qed

end

interpretation pointers: pointer_fifo "push lp" "pop lo" "\<lambda>q. holds q n" n
  for lp lo :: bool and n :: nat
  by unfold_locales

text \<open>If every object is made once, nothing is deleted twice, and what is deleted is nowhere else.\<close>

lemma conserved_distinct:
  assumes "owned vs' + owned xs' + mset del' = owned vs + owned xs + mset del + owned ps"
    and "distinct (filter (\<lambda>v. v \<noteq> 0) (vs @ xs @ del @ ps))" and "0 \<notin> set del"
  shows "distinct (filter (\<lambda>v. v \<noteq> 0) (vs' @ xs') @ del')"
proof -
  have "filter (\<lambda>v. v \<noteq> 0) del = del" using assms(3) by (intro filter_True) auto
  then have "mset (filter (\<lambda>v. v \<noteq> 0) (vs @ xs @ del @ ps)) = owned vs + owned xs + mset del + owned ps"
    by (simp add: owned_def)
  moreover have "mset (filter (\<lambda>v. v \<noteq> 0) (vs' @ xs') @ del') = owned vs' + owned xs' + mset del'"
    by (simp add: owned_def)
  ultimately have "mset (filter (\<lambda>v. v \<noteq> 0) (vs' @ xs') @ del') = mset (filter (\<lambda>v. v \<noteq> 0) (vs @ xs @ del @ ps))"
    using assms(1) by simp
  from mset_eq_imp_distinct_iff [OF this] assms(2) show ?thesis by simp
qed

end
