(* ===== verification/Bytes.thy ===== *)
theory Bytes
  imports Prelude
begin

text \<open>
  Little-endian integers in memory, as the struct of \<^verbatim>\<open>shared_mpmc_queue.h\<close> and the union of
  \<^verbatim>\<open>hash_signature.h\<close> lay them out on the platforms the code supports.
\<close>

type_synonym byte = "8 word"

fun le_bytes :: "nat \<Rightarrow> 'l::len word \<Rightarrow> byte list" where
  "le_bytes 0 w = []"
| "le_bytes (Suc k) w = ucast w # le_bytes k (drop_bit 8 w)"

fun le_word :: "byte list \<Rightarrow> 'l::len word" where
  "le_word [] = 0"
| "le_word (b # bs) = ucast b OR push_bit 8 (le_word bs)"

lemma length_le_bytes [simp]: "length (le_bytes k w) = k"
  by (induction k arbitrary: w) auto

lemma le_word_take:
  "le_word (le_bytes k w) = (take_bit (8 * k) w :: 'l::len word)"
proof (induction k arbitrary: w)
  case (Suc k)
  have "(ucast (ucast w :: byte) :: 'l word) OR push_bit 8 (take_bit (8 * k) (drop_bit 8 w)) = take_bit (8 + 8 * k) w"
    by (rule bit_word_eqI) (auto simp: bit_simps)
  with Suc show ?case by simp
qed simp

lemma le_word_bytes: "LENGTH('l) \<le> 8 * k \<Longrightarrow> le_word (le_bytes k w) = (w :: 'l::len word)"
  unfolding le_word_take by (rule bit_word_eqI) (auto simp: bit_simps)

text \<open>Bytes beyond the width of the word are lost, and zero bytes at the end do not show.\<close>

lemma le_word_zeros: "le_word (bs @ replicate k 0) = le_word bs"
proof (induction bs)
  case Nil
  then show ?case by (induction k) auto
qed simp

end
