(* ===== verification/SharedQueue.thy ===== *)
theory SharedQueue
  imports MpmcInit Bytes
begin

text \<open>
  The class \<^verbatim>\<open>shared_mpmc_queue\<close> of \<^verbatim>\<open>shared_mpmc_queue.h\<close>: a queue in a memory mapped file, with
  a header that lets another process check that it maps the same type of queue. A file is the bytes
  of its header region and the queue in its pages from offset 4096 on; what the system calls
  return is an argument. The queue type \<^verbatim>\<open>Q\<close> is a parameter.
\<close>

section \<open>The header\<close>

definition ShareMPMCQueue :: u32 where
  "ShareMPMCQueue = 0x0BadBadB"

record shared_file_header =
  signature :: u32
  hdr_size :: u32
  q_start :: u64
  q_size_elements :: u64
  q_size_bytes :: u64
  producer_count :: u32
  consumer_count :: u32
  producer_ids :: "u32 list"
  consumer_ids :: "u32 list"

definition header_size :: nat where
  "header_size = 168"

text \<open>The layout of the struct, without padding: two arrays of 16 words end it.\<close>

definition header_bytes :: "shared_file_header \<Rightarrow> byte list" where
  "header_bytes h =
     le_bytes 4 (signature h) @ le_bytes 4 (hdr_size h) @ le_bytes 8 (q_start h) @ le_bytes 8 (q_size_elements h) @
     le_bytes 8 (q_size_bytes h) @ le_bytes 4 (producer_count h) @ le_bytes 4 (consumer_count h) @
     concat (map (le_bytes 4) (producer_ids h)) @ concat (map (le_bytes 4) (consumer_ids h))"

definition field :: "nat \<Rightarrow> nat \<Rightarrow> byte list \<Rightarrow> 'l::len word" where
  "field off k bs = le_word (take k (drop off bs))"

definition header_of :: "byte list \<Rightarrow> shared_file_header" where
  "header_of bs =
     \<lparr>signature = field 0 4 bs, hdr_size = field 4 4 bs, q_start = field 8 8 bs, q_size_elements = field 16 8 bs,
      q_size_bytes = field 24 8 bs, producer_count = field 32 4 bs, consumer_count = field 36 4 bs,
      producer_ids = map (\<lambda>k. field (40 + 4 * k) 4 bs) [0..<16],
      consumer_ids = map (\<lambda>k. field (104 + 4 * k) 4 bs) [0..<16]\<rparr>"

definition header_wf :: "shared_file_header \<Rightarrow> bool" where
  "header_wf h \<longleftrightarrow> length (producer_ids h) = 16 \<and> length (consumer_ids h) = 16"

section \<open>Files and processes\<close>

record 'q shm_file =
  head_bytes :: "byte list"
  queue_pages :: "'q option"

text \<open>What the system calls of one run of the constructor return.\<close>

record syscalls =
  open_ok :: bool
  read_ok :: bool
  truncate_ok :: bool
  write_ok :: bool

text \<open>An attached process: the mapping is shared, so the header and the queue are those of the file.\<close>

record 'q shared_queue =
  header :: shared_file_header
  qp :: 'q

datatype 'a outcome = Mapped 'a | Exit_1 | Runtime_error | Ctor_error ctor_error | Crash

text \<open>\<^verbatim>\<open>read\<close> at offset 0, \<^verbatim>\<open>write\<close> at the offset that the read has reached.\<close>

definition file_read :: "byte list \<Rightarrow> byte list" where
  "file_read bs = take header_size bs"

definition file_write :: "nat \<Rightarrow> byte list \<Rightarrow> byte list \<Rightarrow> byte list" where
  "file_write off new bs = take off bs @ new @ drop (off + length new) bs"

text \<open>\<^verbatim>\<open>ftruncate\<close>: the header region grows to 4096 bytes.\<close>

definition file_grow :: "byte list \<Rightarrow> byte list" where
  "file_grow bs = take 4096 bs @ replicate (4096 - length bs) 0"

definition new_header :: "u64 \<Rightarrow> u64 \<Rightarrow> shared_file_header \<Rightarrow> shared_file_header" where
  "new_header n bytes junk =
     junk\<lparr>signature := ShareMPMCQueue, hdr_size := of_nat header_size, q_start := 4096, q_size_elements := n,
          q_size_bytes := bytes, producer_count := 0, consumer_count := 0\<rparr>"

definition compatible :: "u64 \<Rightarrow> u64 \<Rightarrow> shared_file_header \<Rightarrow> bool" where
  "compatible n bytes h \<longleftrightarrow>
     ShareMPMCQueue = signature h \<and> of_nat header_size = hdr_size h \<and> 4096 = q_start h \<and>
     n = q_size_elements h \<and> bytes = q_size_bytes h"

text \<open>
  The constructor. \<open>n\<close> and \<open>bytes\<close> are \<^verbatim>\<open>Q::size_n()\<close> and \<^verbatim>\<open>sizeof(Q)\<close>, \<open>new_q\<close> the constructor of
  \<^verbatim>\<open>Q\<close> that runs in the mapped pages, \<open>junk\<close> the header's memory before it is filled in.
\<close>

definition shared_mpmc_queue ::
  "syscalls \<Rightarrow> u64 \<Rightarrow> u64 \<Rightarrow> (ctor_error + 'q) option \<Rightarrow> shared_file_header \<Rightarrow> 'q shm_file
     \<Rightarrow> 'q shared_queue outcome \<times> 'q shm_file" where
  "shared_mpmc_queue sc n bytes new_q junk f =
     (if \<not> open_ok sc then (Exit_1, f)
      else (let got = (if read_ok sc then file_read (head_bytes f) else [])
            in if length got \<noteq> header_size
               then (let bs1 = (if truncate_ok sc then file_grow (head_bytes f) else head_bytes f);
                         bs = (if write_ok sc
                               then file_write (length got) (header_bytes (new_header n bytes junk)) bs1 else bs1);
                         f' = f\<lparr>head_bytes := bs\<rparr>
                     in if \<not> truncate_ok sc \<or> \<not> write_ok sc then (Runtime_error, f')
                        else (case new_q of
                                None \<Rightarrow> (Crash, f')
                              | Some (Inl err) \<Rightarrow> (Ctor_error err, f')
                              | Some (Inr q) \<Rightarrow> (Mapped \<lparr>header = header_of bs, qp = q\<rparr>, f'\<lparr>queue_pages := Some q\<rparr>)))
               else if compatible n bytes (header_of got)
                    then (case queue_pages f of
                            None \<Rightarrow> (Crash, f)
                          | Some q \<Rightarrow> (Mapped \<lparr>header = header_of (head_bytes f), qp = q\<rparr>, f))
                    else (Exit_1, f)))"

text \<open>What a process does to its mapping is in the file.\<close>

definition sync :: "'q shared_queue \<Rightarrow> 'q shm_file \<Rightarrow> 'q shm_file" where
  "sync s f = f\<lparr>head_bytes := file_write 0 (header_bytes (header s)) (head_bytes f), queue_pages := Some (qp s)\<rparr>"

section \<open>Producers and consumers\<close>

definition producers_inc :: "'q shared_queue \<Rightarrow> 'q shared_queue" where
  "producers_inc s = s\<lparr>header := (header s)\<lparr>producer_count := producer_count (header s) + 1\<rparr>\<rparr>"

definition producers_dec :: "'q shared_queue \<Rightarrow> 'q shared_queue" where
  "producers_dec s = s\<lparr>header := (header s)\<lparr>producer_count := producer_count (header s) - 1\<rparr>\<rparr>"

definition consumers_inc :: "'q shared_queue \<Rightarrow> 'q shared_queue" where
  "consumers_inc s = s\<lparr>header := (header s)\<lparr>consumer_count := consumer_count (header s) + 1\<rparr>\<rparr>"

definition consumers_dec :: "'q shared_queue \<Rightarrow> 'q shared_queue" where
  "consumers_dec s = s\<lparr>header := (header s)\<lparr>consumer_count := consumer_count (header s) - 1\<rparr>\<rparr>"

text \<open>The counters are signed; \<^verbatim>\<open>size_t\<close> extends the sign.\<close>

definition get_producers_count :: "'q shared_queue \<Rightarrow> size_t" where
  "get_producers_count s = scast (producer_count (header s))"

definition get_consumers_count :: "'q shared_queue \<Rightarrow> size_t" where
  "get_consumers_count s = scast (consumer_count (header s))"

text \<open>The objects that \<^verbatim>\<open>get_producer\<close> and \<^verbatim>\<open>get_consumer\<close> return count themselves for as long as they live.\<close>

definition shared_producer :: "'q shared_queue \<Rightarrow> 'q shared_queue" where
  "shared_producer sq = producers_inc sq"

definition shared_producer_end :: "'q shared_queue \<Rightarrow> 'q shared_queue" where
  "shared_producer_end sq = producers_dec sq"

definition shared_consumer :: "'q shared_queue \<Rightarrow> 'q shared_queue" where
  "shared_consumer sq = consumers_inc sq"

definition shared_consumer_end :: "'q shared_queue \<Rightarrow> 'q shared_queue" where
  "shared_consumer_end sq = consumers_dec sq"

definition get_producer :: "'q shared_queue \<Rightarrow> 'q shared_queue" where
  "get_producer sq = shared_producer sq"

definition get_consumer :: "'q shared_queue \<Rightarrow> 'q shared_queue" where
  "get_consumer sq = shared_consumer sq"

definition shared_push ::
  "('v \<Rightarrow> 'q \<Rightarrow> (bool \<times> 'q) option) \<Rightarrow> 'v \<Rightarrow> 'q shared_queue \<Rightarrow> (bool \<times> 'q shared_queue) option" where
  "shared_push q_push d s = map_option (\<lambda>(b, q'). (b, s\<lparr>qp := q'\<rparr>)) (q_push d (qp s))"

definition shared_push_index ::
  "('v \<Rightarrow> 'i \<Rightarrow> 'q \<Rightarrow> (bool \<times> 'i \<times> 'q) option) \<Rightarrow> 'v \<Rightarrow> 'i \<Rightarrow> 'q shared_queue
     \<Rightarrow> (bool \<times> 'i \<times> 'q shared_queue) option" where
  "shared_push_index q_push d i s = map_option (\<lambda>(b, i', q'). (b, i', s\<lparr>qp := q'\<rparr>)) (q_push d i (qp s))"

definition shared_push_keep_n ::
  "('v \<Rightarrow> 'q \<Rightarrow> (bool \<times> 'q) option) \<Rightarrow> 'v \<Rightarrow> 'q shared_queue \<Rightarrow> (bool \<times> 'q shared_queue) option" where
  "shared_push_keep_n q_push_keep_n d s = map_option (\<lambda>(b, q'). (b, s\<lparr>qp := q'\<rparr>)) (q_push_keep_n d (qp s))"

definition shared_push_keep_n_index ::
  "('v \<Rightarrow> 'i \<Rightarrow> 'q \<Rightarrow> (bool \<times> 'i \<times> 'q) option) \<Rightarrow> 'v \<Rightarrow> 'i \<Rightarrow> 'q shared_queue
     \<Rightarrow> (bool \<times> 'i \<times> 'q shared_queue) option" where
  "shared_push_keep_n_index q_push_keep_n d i s =
     map_option (\<lambda>(b, i', q'). (b, i', s\<lparr>qp := q'\<rparr>)) (q_push_keep_n d i (qp s))"

definition shared_pop ::
  "('v \<Rightarrow> 'q \<Rightarrow> (bool \<times> 'v \<times> 'q) option) \<Rightarrow> 'v \<Rightarrow> 'q shared_queue \<Rightarrow> (bool \<times> 'v \<times> 'q shared_queue) option" where
  "shared_pop q_pop d s = map_option (\<lambda>(b, d', q'). (b, d', s\<lparr>qp := q'\<rparr>)) (q_pop d (qp s))"

definition shared_pop_index ::
  "('v \<Rightarrow> 'i \<Rightarrow> 'q \<Rightarrow> (bool \<times> 'v \<times> 'i \<times> 'q) option) \<Rightarrow> 'v \<Rightarrow> 'i \<Rightarrow> 'q shared_queue
     \<Rightarrow> (bool \<times> 'v \<times> 'i \<times> 'q shared_queue) option" where
  "shared_pop_index q_pop d i s = map_option (\<lambda>(b, d', i', q'). (b, d', i', s\<lparr>qp := q'\<rparr>)) (q_pop d i (qp s))"

section \<open>The header survives the file\<close>

lemma field_at:
  assumes "bs = xs @ le_bytes k (w :: 'l::len word) @ ys" and "length xs = off" and "LENGTH('l) \<le> 8 * k"
  shows "field off k bs = w"
  using assms by (simp add: field_def le_word_bytes)

lemma field_append: "off + k \<le> length bs \<Longrightarrow> field off k (bs @ zs) = field off k bs"
  by (simp add: field_def)

lemma array_field:
  assumes "i < length ws"
  shows "field (4 * i) 4 (concat (map (le_bytes 4) ws)) = (ws ! i :: u32)"
  using assms
proof (induction ws arbitrary: i)
  case (Cons w ws)
  show ?case
  proof (cases i)
    case 0
    then show ?thesis by (simp add: field_def le_word_bytes)
  next
    case (Suc j)
    then have "field (4 * i) 4 (concat (map (le_bytes 4) (w # ws))) =
        (field (4 * j) 4 (concat (map (le_bytes 4) ws)) :: u32)"
      by (simp add: field_def)
    with Cons.IH [of j] Cons.prems Suc show ?thesis by simp
  qed
qed simp

lemma field_drop: "field (off + k) j bs = field k j (drop off bs)"
  by (simp add: field_def add.commute)

lemma array_length: "length (concat (map (le_bytes 4) ws)) = 4 * length ws"
  by (induction ws) auto

lemma header_bytes_length: "header_wf h \<Longrightarrow> length (header_bytes h) = header_size"
  by (simp add: header_bytes_def header_size_def header_wf_def array_length)

lemma header_roundtrip:
  assumes wf: "header_wf h"
  shows "header_of (header_bytes h @ zs) = h"
proof -
  let ?bs = "header_bytes h @ zs"
  have len: "length (producer_ids h) = 16" "length (consumer_ids h) = 16" using wf by (simp_all add: header_wf_def)
  have p: "field (40 + 4 * k) 4 ?bs = producer_ids h ! k" if "k < 16" for k
  proof -
    have "drop 40 ?bs = concat (map (le_bytes 4) (producer_ids h)) @ concat (map (le_bytes 4) (consumer_ids h)) @ zs"
      by (simp add: header_bytes_def)
    then show ?thesis
      using that len array_field [of k "producer_ids h"]
      by (simp add: field_drop field_append array_length)
  qed
  have c: "field (104 + 4 * k) 4 ?bs = consumer_ids h ! k" if "k < 16" for k
  proof -
    have "drop 104 ?bs = concat (map (le_bytes 4) (consumer_ids h)) @ zs"
      using len by (simp add: header_bytes_def array_length)
    then show ?thesis
      using that len array_field [of k "consumer_ids h"]
      by (simp add: field_drop field_append array_length)
  qed
  have "map (\<lambda>k. field (40 + 4 * k) 4 ?bs) [0..<16] = producer_ids h"
    using p len by (intro nth_equalityI) simp_all
  moreover have "map (\<lambda>k. field (104 + 4 * k) 4 ?bs) [0..<16] = consumer_ids h"
    using c len by (intro nth_equalityI) simp_all
  moreover have "field 0 4 ?bs = signature h" "field 4 4 ?bs = hdr_size h" "field 8 8 ?bs = q_start h"
    "field 16 8 ?bs = q_size_elements h" "field 24 8 ?bs = q_size_bytes h" "field 32 4 ?bs = producer_count h"
    "field 36 4 ?bs = consumer_count h"
    by (simp_all add: header_bytes_def field_def le_word_bytes)
  ultimately show ?thesis by (simp add: header_of_def)
qed

lemma new_header_wf: "header_wf junk \<Longrightarrow> header_wf (new_header n bytes junk)"
  by (simp add: header_wf_def new_header_def)

lemma new_header_compatible: "compatible n' bytes' (new_header n bytes junk) \<longleftrightarrow> n' = n \<and> bytes' = bytes"
  by (simp add: compatible_def new_header_def)

definition all_ok :: syscalls where
  "all_ok = \<lparr>open_ok = True, read_ok = True, truncate_ok = True, write_ok = True\<rparr>"

lemma create_empty:
  assumes "head_bytes f = []" and "header_wf junk"
  shows "shared_mpmc_queue all_ok n bytes (Some (Inr q)) junk f =
    (Mapped \<lparr>header = new_header n bytes junk, qp = q\<rparr>,
     f\<lparr>head_bytes := header_bytes (new_header n bytes junk) @ replicate (4096 - header_size) 0, queue_pages := Some q\<rparr>)"
proof -
  note wf = new_header_wf [OF assms(2), of n bytes]
  have "file_write 0 (header_bytes (new_header n bytes junk)) (file_grow []) =
      header_bytes (new_header n bytes junk) @ replicate (4096 - header_size) 0"
    by (simp add: file_write_def file_grow_def header_bytes_length [OF wf])
  then show ?thesis
    using assms(1) by (simp add: shared_mpmc_queue_def all_ok_def file_read_def header_size_def Let_def
      header_roundtrip [OF wf])
qed

text \<open>A second process with the same queue type maps what the first one has made of it.\<close>

lemma attach_synced:
  assumes f: "length (head_bytes f) = 4096" and wf: "header_wf (header s)"
  shows "shared_mpmc_queue all_ok n bytes new_q junk (sync s f) =
    (if compatible n bytes (header s) then (Mapped s, sync s f) else (Exit_1, sync s f))"
proof -
  have hb: "head_bytes (sync s f) = header_bytes (header s) @ drop header_size (head_bytes f)"
    by (simp add: sync_def file_write_def header_bytes_length [OF wf])
  have rd: "file_read (head_bytes (sync s f)) = header_bytes (header s) @ []"
    unfolding hb by (simp add: file_read_def header_bytes_length [OF wf])
  have len: "length (file_read (head_bytes (sync s f))) = header_size"
    unfolding rd by (simp add: header_bytes_length [OF wf])
  have of: "header_of (file_read (head_bytes (sync s f))) = header s"
    unfolding rd by (rule header_roundtrip [OF wf])
  have of2: "header_of (head_bytes (sync s f)) = header s"
    unfolding hb by (rule header_roundtrip [OF wf])
  have q: "queue_pages (sync s f) = Some (qp s)" by (simp add: sync_def)
  show ?thesis
    by (simp add: shared_mpmc_queue_def all_ok_def len of of2 q Let_def)
qed

section \<open>A file shorter than the header\<close>

text \<open>
  After a short read the header is written behind the bytes that were read, not at the start: the
  file does not carry the signature, and a later process refuses it.
\<close>

lemma create_short:
  assumes "head_bytes f = bs" and "length bs < header_size" and "header_wf junk"
  shows "shared_mpmc_queue all_ok n bytes (Some (Inr q)) junk f =
    (Mapped \<lparr>header = header_of (bs @ header_bytes (new_header n bytes junk) @ replicate (4096 - header_size - length bs) 0), qp = q\<rparr>,
     f\<lparr>head_bytes := bs @ header_bytes (new_header n bytes junk) @ replicate (4096 - header_size - length bs) 0,
       queue_pages := Some q\<rparr>)"
proof -
  note wf = new_header_wf [OF assms(3), of n bytes]
  have "file_write (length bs) (header_bytes (new_header n bytes junk)) (file_grow bs) =
      bs @ header_bytes (new_header n bytes junk) @ replicate (4096 - header_size - length bs) 0"
    using assms(2)
    by (simp add: file_write_def file_grow_def header_bytes_length [OF wf] header_size_def min_def)
  then show ?thesis
    using assms(1,2) by (simp add: shared_mpmc_queue_def all_ok_def file_read_def Let_def)
qed

text \<open>Such a file, when it does not start with the signature, is refused by every later process.\<close>

lemma short_then_refused:
  assumes f: "head_bytes f = bs" "4 \<le> length bs" "length bs < header_size" and junk: "header_wf junk"
    and sig: "field 0 4 bs \<noteq> ShareMPMCQueue"
  shows "\<exists>s f'. shared_mpmc_queue all_ok n bytes (Some (Inr q)) junk f = (Mapped s, f') \<and>
    shared_mpmc_queue all_ok n' bytes' new_q junk' f' = (Exit_1, f')"
proof -
  let ?bs = "bs @ header_bytes (new_header n bytes junk) @ replicate (4096 - header_size - length bs) 0"
  let ?f = "f\<lparr>head_bytes := ?bs, queue_pages := Some q\<rparr>"
  have len: "length (file_read ?bs) = header_size"
    using header_bytes_length [OF new_header_wf [OF junk], of n bytes] by (simp add: file_read_def)
  have "signature (header_of (file_read ?bs)) = field 0 4 bs"
    using f(2,3) by (simp add: header_of_def field_def file_read_def)
  with sig have "\<not> compatible n' bytes' (header_of (file_read ?bs))" by (auto simp: compatible_def)
  with len have "shared_mpmc_queue all_ok n' bytes' new_q junk' ?f = (Exit_1, ?f)"
    by (simp add: shared_mpmc_queue_def all_ok_def Let_def)
  with create_short [OF f(1,3) junk, of n bytes q] show ?thesis by blast
qed

section \<open>The counters\<close>

lemma producers_inc_fields [simp]:
  "header_wf (header (producers_inc s)) = header_wf (header s)"
  "compatible n bytes (header (producers_inc s)) = compatible n bytes (header s)"
  "producer_count (header (producers_inc s)) = producer_count (header s) + 1"
  "qp (producers_inc s) = qp s"
  by (simp_all add: producers_inc_def header_wf_def compatible_def)

lemma producers_inc_funpow [simp]:
  "header_wf (header ((producers_inc ^^ m) s)) = header_wf (header s)"
  "compatible n bytes (header ((producers_inc ^^ m) s)) = compatible n bytes (header s)"
  "producer_count (header ((producers_inc ^^ m) s)) = producer_count (header s) + of_nat m"
  "qp ((producers_inc ^^ m) s) = qp s"
  by (induction m) auto

end
