(* ===== verification/HashSig.thy ===== *)
theory HashSig
  imports Bytes
begin

text \<open>
  The class \<^verbatim>\<open>hash_signature\<close> of \<^verbatim>\<open>src/hash_signature.h\<close>, with which the benchmarks compare the
  elements pushed and popped: its state, the two \<^verbatim>\<open>add\<close> overloads, and what an update preserves.
\<close>

section \<open>State and operations\<close>

record hash_signature =
  hs_state :: u64
  hs_count :: u64

definition new_signature :: "u64 \<Rightarrow> hash_signature" where
  "new_signature seed = \<lparr>hs_state = seed + 0xA5A5A5A5A5A5A5A5, hs_count = 0\<rparr>"

text \<open>\<^verbatim>\<open>__builtin_popcount\<close> takes an \<^verbatim>\<open>unsigned\<close>: it counts the one bits of the low half of \<^verbatim>\<open>v\<close>.\<close>

definition builtin_popcount :: "u32 \<Rightarrow> nat" where
  "builtin_popcount x = length (filter (bit x) [0..<32])"

definition adjust :: "u64 \<Rightarrow> u64" where
  "adjust v = (if builtin_popcount (ucast v) < 20 then v + 0xA500A500A5A5 else v)"

definition add_value :: "u64 \<Rightarrow> hash_signature \<Rightarrow> hash_signature" where
  "add_value v0 s =
     (let v = adjust v0
      in s\<lparr>hs_state := (v + hs_state s) * (push_bit 3 v + push_bit 1 (hs_state s) + 1), hs_count := hs_count s + 1\<rparr>)"

text \<open>\<^verbatim>\<open>memcpy\<close> of at most eight bytes into a zeroed \<^verbatim>\<open>value_type\<close>.\<close>

definition load_chunk :: "byte list \<Rightarrow> u64" where
  "load_chunk bs = le_word (take 8 bs)"

function add_string_loop :: "byte list \<Rightarrow> hash_signature \<Rightarrow> hash_signature" where
  "add_string_loop sv s =
     (if length sv > 0
      then (let s' = add_value (load_chunk sv) s
            in if length sv > 8 then add_string_loop (drop 8 sv) s' else s')
      else s)"
  by pat_completeness auto
termination
  by (relation "measure (\<lambda>(sv, s). length sv)") auto

declare add_string_loop.simps [simp del]

definition add_string :: "byte list \<Rightarrow> hash_signature \<Rightarrow> hash_signature" where
  "add_string sv s = (if length sv = 0 then add_value 0 s else add_string_loop sv s)"

definition signature_state :: "hash_signature \<Rightarrow> u64 \<times> u64" where
  "signature_state s = (hs_state s, hs_count s)"

definition same_signature :: "hash_signature \<Rightarrow> hash_signature \<Rightarrow> bool" where
  "same_signature s t \<longleftrightarrow> hs_state s = hs_state t \<and> hs_count s = hs_count t"

lemma same_signature_eq: "same_signature s t \<longleftrightarrow> s = t"
  by (auto simp: same_signature_def)

section \<open>No update loses information\<close>

text \<open>Multiplication by an odd word is injective, so \<open>\<lambda>x. a * x\<^sup>2 + b * x\<close> is, for even \<open>a\<close> and odd \<open>b\<close>.\<close>

lemma odd_mult_0:
  fixes c z :: "'l::len word"
  assumes "odd c" and "c * z = 0"
  shows "z = 0"
proof -
  have "2 ^ LENGTH('l) dvd unat c * unat z"
    using assms(2) by (metis mod_0_imp_dvd unat_0 unat_word_ariths(2))
  moreover have "coprime (2 ^ LENGTH('l)) (unat c)"
    using assms(1) by (simp add: bit_unsigned_iff flip: bit_0)
  ultimately have "2 ^ LENGTH('l) dvd unat z" by (simp add: coprime_dvd_mult_right_iff)
  moreover have "unat z < 2 ^ LENGTH('l)" by (rule unsigned_less)
  ultimately have "unat z = 0" by (metis dvd_imp_le gr0I not_le)
  then show ?thesis by (simp add: unat_eq_zero)
qed

lemma quadratic_injective:
  fixes x y :: "'l::len word"
  assumes eq: "a * x * x + b * x = a * y * y + b * y" and "even a" and "odd b"
  shows "x = y"
proof -
  have "(a * (x + y) + b) * (x - y) = (a * x * x + b * x) - (a * y * y + b * y)"
    by (simp add: algebra_simps)
  with eq have "(a * (x + y) + b) * (x - y) = 0" by simp
  moreover have "odd (a * (x + y) + b)" using assms(2,3) by simp
  ultimately have "x - y = 0" by (rule odd_mult_0 [rotated])
  then show ?thesis by simp
qed

lemma add_value_state:
  "hs_state (add_value v s) = (adjust v + hs_state s) * (8 * adjust v + 2 * hs_state s + 1)"
  by (simp add: add_value_def Let_def push_bit_eq_mult mult.commute)

lemma add_value_count: "hs_count (add_value v s) = hs_count s + 1"
  by (simp add: add_value_def Let_def)

lemma add_value_injective_state:
  assumes "add_value v s = add_value v t"
  shows "s = t"
proof -
  let ?v = "adjust v" and ?x = "hs_state s" and ?y = "hs_state t"
  have "(?v + ?x) * (8 * ?v + 2 * ?x + 1) = (?v + ?y) * (8 * ?v + 2 * ?y + 1)"
    using arg_cong [OF assms, of hs_state] by (simp only: add_value_state)
  then have "2 * ?x * ?x + (10 * ?v + 1) * ?x = 2 * ?y * ?y + (10 * ?v + 1) * ?y"
    by (simp add: algebra_simps)
  then have "?x = ?y" by (rule quadratic_injective) simp_all
  moreover have "hs_count s = hs_count t"
    using arg_cong [OF assms, of hs_count] by (simp add: add_value_count)
  ultimately show ?thesis by simp
qed

lemma add_value_injective_value:
  assumes "add_value v s = add_value w s"
  shows "adjust v = adjust w"
proof -
  let ?x = "hs_state s" and ?v = "adjust v" and ?w = "adjust w"
  have "(?v + ?x) * (8 * ?v + 2 * ?x + 1) = (?w + ?x) * (8 * ?w + 2 * ?x + 1)"
    using arg_cong [OF assms, of hs_state] by (simp only: add_value_state)
  then have "8 * ?v * ?v + (10 * ?x + 1) * ?v = 8 * ?w * ?w + (10 * ?x + 1) * ?w"
    by (simp add: algebra_simps)
  then show ?thesis by (rule quadratic_injective) simp_all
qed

lemma add_string_loop_injective: "add_string_loop sv s = add_string_loop sv t \<Longrightarrow> s = t"
proof (induction sv s arbitrary: t rule: add_string_loop.induct)
  case (1 sv s)
  from 1(2) show ?case
    using 1(1) [OF _ refl, of "add_value (load_chunk sv) t"]
    by (subst (asm) (1 2) add_string_loop.simps)
      (auto simp: Let_def dest: add_value_injective_state split: if_splits)
qed

section \<open>The count\<close>

lemma add_string_loop_count:
  "hs_count (add_string_loop sv s) = hs_count s + of_nat ((length sv + 7) div 8)"
proof (induction sv s rule: add_string_loop.induct)
  case (1 sv s)
  show ?case
  proof (cases "length sv > 8")
    case True
    then have "hs_count (add_string_loop sv s) =
        hs_count s + 1 + of_nat ((length sv - 8 + 7) div 8)"
      using 1 [OF _ refl] by (subst add_string_loop.simps) (auto simp: Let_def add_value_count)
    moreover have "(length sv + 7) div 8 = Suc ((length sv - 8 + 7) div 8)" using True by simp
    ultimately show ?thesis by simp
  next
    case False
    then have "0 < length sv \<Longrightarrow> (length sv + 7) div 8 = 1" by presburger
    with False show ?thesis
      by (subst add_string_loop.simps) (auto simp: Let_def add_value_count)
  qed
qed

text \<open>A string counts as one addition for every eight bytes begun, an empty one as one.\<close>

lemma add_string_count: "hs_count (add_string sv s) = hs_count s + of_nat (max 1 ((length sv + 7) div 8))"
proof (cases "sv = []")
  case True
  then show ?thesis by (simp add: add_string_def add_value_count)
next
  case False
  then have "1 \<le> (length sv + 7) div 8" by (cases sv) auto
  with False show ?thesis by (simp add: add_string_def add_string_loop_count max_def)
qed

end
