(* ===== verification/Bandwidth.thy ===== *)
theory Bandwidth
  imports Linearize
begin

text \<open>
  The bandwidth measurement \<^verbatim>\<open>QBandwidth\<close> of \<^verbatim>\<open>src/mpmc_queue_timing.h\<close>: a main thread starts producers
  and consumers, lets them run, stops the producers, waits until the consumers have drained the
  queue, and compares the number of pushes with the number of pops. Every access to a shared
  variable is a step of its thread, and any interleaving of the steps is a run. The queue under
  test is the abstract one that the events of the concurrent queue follow. Reading the clock is the choice of the
  scheduler: a main step carries whether the time is up, a step of a consumer what \<^verbatim>\<open>empty\<close> answers,
  which may be false on an empty queue and never true on one that is not.
\<close>

section \<open>The queue under test\<close>

definition q_push :: "nat \<Rightarrow> 'v \<Rightarrow> 'v list \<Rightarrow> bool \<times> 'v list" where
  "q_push n d xs = (if length xs < n then (True, xs @ [d]) else (False, xs))"

definition q_pop :: "'v list \<Rightarrow> bool \<times> 'v list" where
  "q_pop xs = (case xs of [] \<Rightarrow> (False, []) | x # ys \<Rightarrow> (True, ys))"

definition q_empty :: "bool \<Rightarrow> 'v list \<Rightarrow> bool option" where
  "q_empty answer xs = (if answer \<longrightarrow> xs = [] then Some answer else None)"

text \<open>These are the calls of the abstract queue of the concurrent model.\<close>

lemma q_push_spec:
  "length xs \<le> n \<Longrightarrow> q_push n d xs = (b, ys) \<Longrightarrow>
   spec_step n (h, xs) (if b then Pushed (of_nat (h + length xs) :: 'l::len word) d else Push_full) = Some (h, ys)"
  by (auto simp: q_push_def split: if_splits)

lemma q_pop_spec:
  "q_pop xs = (b, ys) \<Longrightarrow>
   spec_step n (h, xs) (if b then Popped (of_nat h :: 'l::len word) (hd xs) else Pop_empty) = Some (if b then h + 1 else h, ys)"
  by (auto simp: q_pop_def split: list.splits)

lemma q_empty_spec:
  "q_empty answer xs = Some b \<Longrightarrow> spec_step n (h, xs) (Saw_empty b :: ('v, 'l::len word) event) = Some (h, xs)"
  by (auto simp: q_empty_def split: if_splits)

section \<open>The threads\<close>

datatype producer_pc = P_start | P_wait | P_check | P_push | P_store | P_leave | P_done

datatype consumer_pc =
  C_start | C_wait | C_state | C_producers | C_empty | C_pop | C_store | C_leave | C_done

datatype main_pc =
  M_reset | M_consumers | M_producers | M_run | M_stop | M_wait_producers | M_four
  | M_wait_consumers | M_join | M_report | M_aborted

record 'v bench =
  under_test :: "'v list"
  producer_threads :: "(producer_pc \<times> u64) list"
  consumer_threads :: "(consumer_pc \<times> u64) list"
  push_counter :: "u64 list"
  pop_counter :: "u64 list"
  producers_counter :: u32
  consumers_counter :: u32
  bench_state :: u32
  main_thread :: main_pc

text \<open>The first lines of \<^verbatim>\<open>run\<close>: everything is 0, and the threads have been created.\<close>

definition bench_start :: "u32 \<Rightarrow> u32 \<Rightarrow> 'v bench" where
  "bench_start p c =
     \<lparr>under_test = [], producer_threads = replicate (unat p) (P_start, 0), consumer_threads = replicate (unat c) (C_start, 0),
      push_counter = replicate (unat p) 0, pop_counter = replicate (unat c) 0, producers_counter = 0,
      consumers_counter = 0, bench_state = 0, main_thread = M_reset\<rparr>"

text \<open>One step of a producer: the new place and counter of the thread, and what it does to the shared variables.\<close>

definition producer_step :: "nat \<Rightarrow> (u64 \<Rightarrow> 'v) \<Rightarrow> nat \<Rightarrow> 'v bench \<Rightarrow> 'v bench option" where
  "producer_step n conv i s =
     (let (pc, counter) = producer_threads s ! i;
          go = (\<lambda>pc' counter' s'. Some (s'\<lparr>producer_threads := (producer_threads s')[i := (pc', counter')]\<rparr>))
      in case pc of
           P_start \<Rightarrow> go P_wait counter (s\<lparr>producers_counter := producers_counter s + 1\<rparr>)
         | P_wait \<Rightarrow> go (if bench_state s < 1 then P_wait else P_check) counter s
         | P_check \<Rightarrow> go (if bench_state s = 1 then P_push else P_store) counter s
         | P_push \<Rightarrow>
             (case q_push n (conv counter) (under_test s) of
                (b, ys) \<Rightarrow> go P_check (if b then counter + 1 else counter) (s\<lparr>under_test := ys\<rparr>))
         | P_store \<Rightarrow> go P_leave counter (s\<lparr>push_counter := (push_counter s)[i := counter]\<rparr>)
         | P_leave \<Rightarrow> go P_done counter (s\<lparr>producers_counter := producers_counter s - 1\<rparr>)
         | P_done \<Rightarrow> None)"

definition consumer_step :: "bool \<Rightarrow> nat \<Rightarrow> 'v bench \<Rightarrow> 'v bench option" where
  "consumer_step answer j s =
     (let (pc, counter) = consumer_threads s ! j;
          go = (\<lambda>pc' counter' s'. Some (s'\<lparr>consumer_threads := (consumer_threads s')[j := (pc', counter')]\<rparr>))
      in case pc of
           C_start \<Rightarrow> go C_wait counter (s\<lparr>consumers_counter := consumers_counter s + 1\<rparr>)
         | C_wait \<Rightarrow> go (if bench_state s < 1 then C_wait else C_state) counter s
         | C_state \<Rightarrow> go (if bench_state s < 3 then C_pop else C_producers) counter s
         | C_producers \<Rightarrow> go (if 0 < producers_counter s then C_pop else C_empty) counter s
         | C_empty \<Rightarrow>
             (case q_empty answer (under_test s) of
                None \<Rightarrow> None
              | Some b \<Rightarrow> go (if b then C_store else C_pop) counter s)
         | C_pop \<Rightarrow>
             (case q_pop (under_test s) of
                (b, ys) \<Rightarrow> go (if b then C_pop else C_state) (if b then counter + 1 else counter) (s\<lparr>under_test := ys\<rparr>))
         | C_store \<Rightarrow> go C_leave counter (s\<lparr>pop_counter := (pop_counter s)[j := counter]\<rparr>)
         | C_leave \<Rightarrow> go C_done counter (s\<lparr>consumers_counter := consumers_counter s - 1\<rparr>)
         | C_done \<Rightarrow> None)"

text \<open>
  The main thread after the creation of the others. \<open>M_consumers\<close> and \<open>M_producers\<close> are the two
  operands of the condition it waits for; \<open>late\<close> is the answer of the clock.
\<close>

definition main_step :: "bool \<Rightarrow> 'v bench \<Rightarrow> 'v bench option" where
  "main_step late s =
     (let go = (\<lambda>pc' s'. Some (s'\<lparr>main_thread := pc'\<rparr>))
      in case main_thread s of
           M_reset \<Rightarrow> go M_consumers
             (s\<lparr>push_counter := replicate (length (push_counter s)) 0, pop_counter := replicate (length (pop_counter s)) 0\<rparr>)
         | M_consumers \<Rightarrow>
             go (if (ucast (consumers_counter s) :: size_t) < of_nat (length (consumer_threads s))
                 then M_consumers else M_producers) s
         | M_producers \<Rightarrow>
             go (if (ucast (producers_counter s) :: size_t) < of_nat (length (producer_threads s))
                 then M_consumers else M_run) s
         | M_run \<Rightarrow> go M_stop (s\<lparr>bench_state := 1\<rparr>)
         | M_stop \<Rightarrow> if late then go M_wait_producers (s\<lparr>bench_state := 2\<rparr>) else Some s
         | M_wait_producers \<Rightarrow> go (if 0 < producers_counter s \<and> \<not> late then M_wait_producers else M_four) s
         | M_four \<Rightarrow> go M_wait_consumers (s\<lparr>bench_state := 4\<rparr>)
         | M_wait_consumers \<Rightarrow>
             go (if 0 < consumers_counter s then (if late then M_aborted else M_wait_consumers) else M_join) s
         | M_join \<Rightarrow>
             if (\<forall>x \<in> set (producer_threads s). fst x = P_done) \<and> (\<forall>x \<in> set (consumer_threads s). fst x = C_done)
             then go M_report s else Some s
         | M_report \<Rightarrow> None
         | M_aborted \<Rightarrow> None)"

datatype bench_act = Main bool | Producer nat | Consumer nat bool

definition bench_step :: "nat \<Rightarrow> (u64 \<Rightarrow> 'v) \<Rightarrow> bench_act \<Rightarrow> 'v bench \<Rightarrow> 'v bench option" where
  "bench_step n conv a s =
     (if main_thread s = M_aborted then None
      else case a of
             Main late \<Rightarrow> main_step late s
           | Producer i \<Rightarrow> if i < length (producer_threads s) then producer_step n conv i s else None
           | Consumer j answer \<Rightarrow> if j < length (consumer_threads s) then consumer_step answer j s else None)"

fun bench_run :: "nat \<Rightarrow> (u64 \<Rightarrow> 'v) \<Rightarrow> bench_act list \<Rightarrow> 'v bench \<Rightarrow> 'v bench option" where
  "bench_run n conv [] s = Some s"
| "bench_run n conv (a # as) s = Option.bind (bench_step n conv a s) (bench_run n conv as)"

text \<open>What \<^verbatim>\<open>run\<close> prints: the two totals.\<close>

definition total_push :: "'v bench \<Rightarrow> u64" where "total_push s = sum_list (push_counter s)"

definition total_pop :: "'v bench \<Rightarrow> u64" where "total_pop s = sum_list (pop_counter s)"

section \<open>The invariant\<close>

definition p_running :: "producer_pc \<times> u64 \<Rightarrow> bool" where
  "p_running x \<longleftrightarrow> fst x \<noteq> P_start \<and> fst x \<noteq> P_done"

definition c_running :: "consumer_pc \<times> u64 \<Rightarrow> bool" where
  "c_running x \<longleftrightarrow> fst x \<noteq> C_start \<and> fst x \<noteq> C_done"

definition settled :: "'v bench \<Rightarrow> bool" where
  "settled s \<longleftrightarrow> (\<forall>i < length (producer_threads s). fst (producer_threads s ! i) = P_done)"

fun state_at :: "main_pc \<Rightarrow> u32" where
  "state_at M_reset = 0"
| "state_at M_consumers = 0"
| "state_at M_producers = 0"
| "state_at M_run = 0"
| "state_at M_stop = 1"
| "state_at M_wait_producers = 2"
| "state_at M_four = 2"
| "state_at _ = 4"

text \<open>What holds of a producer, of a consumer, and of all together.\<close>

definition producer_ok :: "'v bench \<Rightarrow> nat \<Rightarrow> bool" where
  "producer_ok s i \<longleftrightarrow>
     (let (pc, counter) = producer_threads s ! i
      in (pc \<notin> {P_start, P_wait} \<longrightarrow> bench_state s \<noteq> 0) \<and>
         (main_thread s \<notin> {M_reset, M_consumers, M_producers} \<longrightarrow> pc \<noteq> P_start) \<and>
         (pc \<in> {P_leave, P_done} \<longrightarrow> push_counter s ! i = counter) \<and>
         (main_thread s = M_report \<longrightarrow> pc = P_done))"

definition consumer_ok :: "'v bench \<Rightarrow> nat \<Rightarrow> bool" where
  "consumer_ok s j \<longleftrightarrow>
     (let (pc, counter) = consumer_threads s ! j
      in (pc \<notin> {C_start, C_wait} \<longrightarrow> bench_state s \<noteq> 0) \<and>
         (main_thread s \<notin> {M_reset, M_consumers} \<longrightarrow> pc \<noteq> C_start) \<and>
         (pc \<in> {C_producers, C_empty, C_store, C_leave, C_done} \<longrightarrow> bench_state s = 4) \<and>
         (pc \<in> {C_empty, C_store, C_leave, C_done} \<longrightarrow> settled s) \<and>
         (pc \<in> {C_store, C_leave, C_done} \<longrightarrow> under_test s = []) \<and>
         (pc \<in> {C_leave, C_done} \<longrightarrow> pop_counter s ! j = counter) \<and>
         (main_thread s = M_report \<longrightarrow> pc = C_done))"

definition counts_ok :: "u32 \<Rightarrow> u32 \<Rightarrow> 'v bench \<Rightarrow> bool" where
  "counts_ok p c s \<longleftrightarrow>
     length (producer_threads s) = unat p \<and> length (push_counter s) = unat p \<and>
     length (consumer_threads s) = unat c \<and> length (pop_counter s) = unat c \<and>
     producers_counter s = of_nat (length (filter p_running (producer_threads s))) \<and>
     consumers_counter s = of_nat (length (filter c_running (consumer_threads s))) \<and>
     bench_state s = state_at (main_thread s) \<and>
     sum_list (map snd (producer_threads s)) = sum_list (map snd (consumer_threads s)) + of_nat (length (under_test s))"

definition bench_ok :: "u32 \<Rightarrow> u32 \<Rightarrow> 'v bench \<Rightarrow> bool" where
  "bench_ok p c s \<longleftrightarrow>
     counts_ok p c s \<and> (\<forall>i < unat p. producer_ok s i) \<and> (\<forall>j < unat c. consumer_ok s j)"

lemma bench_start_ok: "bench_ok p c (bench_start p c)"
  by (auto simp: bench_ok_def counts_ok_def producer_ok_def consumer_ok_def bench_start_def p_running_def c_running_def
      sum_list_replicate map_replicate_const)

lemma all_running:
  assumes "length (filter f xs) = length xs" and "i < length xs"
  shows "f (xs ! i)"
proof -
  have "filter f xs = xs" using assms(1) by (metis filter_id_conv filter_True length_filter_less less_irrefl)
  then show ?thesis using assms(2) by (metis filter_id_conv nth_mem)
qed

text \<open>A counter that is not below the number of threads says that all are running.\<close>

lemma counter_full:
  fixes p :: u32
  assumes "\<not> (ucast (of_nat (length (filter f xs)) :: u32) :: size_t) < of_nat (length xs)" and "length xs = unat p"
    and "i < length xs"
  shows "f (xs ! i)"
proof (rule all_running [OF _ assms(3)])
  have le: "length (filter f xs) \<le> length xs" by simp
  have "unat p < 2 ^ 32" using unsigned_less [of p] by simp
  with le assms(2) have b: "length (filter f xs) < 2 ^ 32" "length xs < 2 ^ 32" by simp_all
  have "unat (ucast (of_nat (length (filter f xs)) :: u32) :: size_t) = length (filter f xs)"
    using b by (simp add: unsigned_ucast_eq unsigned_of_nat take_bit_nat_eq_self)
  moreover have "unat (of_nat (length xs) :: size_t) = length xs"
    using b by (simp add: unsigned_of_nat take_bit_nat_eq_self)
  ultimately show "length (filter f xs) = length xs" using assms(1) le by (simp add: word_less_nat_alt)
qed

text \<open>A counter of 0 says that none is running.\<close>

lemma counter_zero:
  fixes p :: u32
  assumes "(of_nat (length (filter f xs)) :: u32) = 0" and "length xs = unat p" and "i < length xs"
  shows "\<not> f (xs ! i)"
proof -
  have "unat p < 2 ^ 32" using unsigned_less [of p] by simp
  with assms(2) length_filter_le [of f xs] have b: "length (filter f xs) < 2 ^ 32" by simp
  have "unat (of_nat (length (filter f xs)) :: u32) = length (filter f xs)"
    using b by (simp add: unsigned_of_nat take_bit_nat_eq_self)
  then have "length (filter f xs) = 0" using assms(1) by simp
  then show ?thesis using assms(3) by (metis filter_empty_conv length_0_conv nth_mem)
qed


text \<open>Every step keeps the invariant. What a step of the main thread changes:\<close>

lemma main_step_frame:
  assumes "main_step late s = Some s'"
  shows "producer_threads s' = producer_threads s" and "consumer_threads s' = consumer_threads s"
    and "under_test s' = under_test s" and "producers_counter s' = producers_counter s"
    and "consumers_counter s' = consumers_counter s"
    and "length (push_counter s') = length (push_counter s)" and "length (pop_counter s') = length (pop_counter s)"
    and "main_thread s \<noteq> M_reset \<Longrightarrow> push_counter s' = push_counter s \<and> pop_counter s' = pop_counter s"
  using assms by (cases "main_thread s"; auto simp: main_step_def Let_def split: if_splits)+

lemma main_step_state:
  assumes "main_step late s = Some s'" and "bench_state s = state_at (main_thread s)"
  shows "bench_state s' = state_at (main_thread s')"
  using assms by (cases "main_thread s"; auto simp: main_step_def Let_def split: if_splits)

lemma main_step_order:
  assumes "main_step late s = Some s'"
  shows "state_at (main_thread s) \<noteq> 0 \<Longrightarrow> state_at (main_thread s') \<noteq> 0"
    and "state_at (main_thread s) = 4 \<Longrightarrow> state_at (main_thread s') = 4"
    and "main_thread s' \<notin> {M_reset, M_consumers, M_producers} \<Longrightarrow>
      main_thread s \<notin> {M_reset, M_consumers, M_producers} \<or> main_thread s = M_producers \<and> main_thread s' = M_run"
    and "main_thread s' \<notin> {M_reset, M_consumers} \<Longrightarrow>
      main_thread s \<notin> {M_reset, M_consumers} \<or> main_thread s = M_consumers \<and> main_thread s' = M_producers"
    and "main_thread s' = M_report \<Longrightarrow> main_thread s = M_join"
  using assms by (cases "main_thread s"; auto simp: main_step_def Let_def split: if_splits)+

lemma main_step_waits:
  assumes "main_step late s = Some s'"
  shows "main_thread s = M_consumers \<Longrightarrow> main_thread s' = M_producers \<Longrightarrow>
      \<not> (ucast (consumers_counter s) :: size_t) < of_nat (length (consumer_threads s))"
    and "main_thread s = M_producers \<Longrightarrow> main_thread s' = M_run \<Longrightarrow>
      \<not> (ucast (producers_counter s) :: size_t) < of_nat (length (producer_threads s))"
    and "main_thread s = M_join \<Longrightarrow> main_thread s' = M_report \<Longrightarrow>
      (\<forall>x \<in> set (producer_threads s). fst x = P_done) \<and> (\<forall>x \<in> set (consumer_threads s). fst x = C_done)"
  using assms by (auto simp: main_step_def Let_def split: if_splits)

lemma main_step_ok:
  assumes ok: "bench_ok p c s" and step: "main_step late s = Some s'"
  shows "bench_ok p c s'"
proof -
  note frame = main_step_frame [OF step] and order = main_step_order [OF step]
  have counts: "counts_ok p c s" and P: "\<And>i. i < unat p \<Longrightarrow> producer_ok s i" and C: "\<And>j. j < unat c \<Longrightarrow> consumer_ok s j"
    using ok by (auto simp: bench_ok_def)
  have lens: "length (producer_threads s) = unat p" "length (consumer_threads s) = unat c"
    and at: "bench_state s = state_at (main_thread s)"
    and pc: "producers_counter s = of_nat (length (filter p_running (producer_threads s)))"
    and cc: "consumers_counter s = of_nat (length (filter c_running (consumer_threads s)))"
    using counts by (simp_all add: counts_ok_def)
  note at' = main_step_state [OF step at]
  have "counts_ok p c s'" using counts frame at' by (simp add: counts_ok_def)
  moreover have "producer_ok s' i" if i: "i < unat p" for i
  proof -
    have "main_thread s = M_producers \<Longrightarrow> main_thread s' = M_run \<Longrightarrow> p_running (producer_threads s ! i)"
      using main_step_waits(2) [OF step] counter_full [of p_running "producer_threads s" p i] pc lens i by simp
    moreover have "main_thread s = M_join \<Longrightarrow> main_thread s' = M_report \<Longrightarrow> fst (producer_threads s ! i) = P_done"
      using main_step_waits(3) [OF step] lens i by simp
    moreover have "bench_state s \<noteq> 0 \<Longrightarrow> bench_state s' \<noteq> 0 \<and> push_counter s' = push_counter s"
      using order(1) at at' frame(8) by (cases "main_thread s = M_reset") simp_all
    moreover obtain pc k where at_pc: "producer_threads s ! i = (pc, k)" by fastforce
    moreover have "pc \<in> {P_leave, P_done} \<Longrightarrow> pc \<notin> {P_start, P_wait}" by auto
    ultimately show ?thesis
      using P [OF i] order(3,5)
      unfolding producer_ok_def frame(1) at_pc Let_def prod.case p_running_def fst_conv by (intro conjI impI; metis)
  qed
  moreover have "consumer_ok s' j" if j: "j < unat c" for j
  proof -
    have "main_thread s = M_consumers \<Longrightarrow> main_thread s' = M_producers \<Longrightarrow> c_running (consumer_threads s ! j)"
      using main_step_waits(1) [OF step] counter_full [of c_running "consumer_threads s" c j] cc lens j by simp
    moreover have "main_thread s = M_join \<Longrightarrow> main_thread s' = M_report \<Longrightarrow> fst (consumer_threads s ! j) = C_done"
      using main_step_waits(3) [OF step] lens j by simp
    moreover have "bench_state s \<noteq> 0 \<Longrightarrow> bench_state s' \<noteq> 0 \<and> pop_counter s' = pop_counter s"
      using order(1) at at' frame(8) by (cases "main_thread s = M_reset") simp_all
    moreover have "bench_state s = 4 \<Longrightarrow> bench_state s' = 4" using order(2) at at' by simp
    moreover obtain pc k where at_pc: "consumer_threads s ! j = (pc, k)" by fastforce
    moreover have "pc \<in> {C_leave, C_done} \<Longrightarrow> pc \<notin> {C_start, C_wait}" by auto
    ultimately show ?thesis
      using C [OF j] order(4,5)
      unfolding consumer_ok_def settled_def frame(1,2,3) at_pc Let_def prod.case c_running_def fst_conv by (intro conjI impI; metis)
  qed
  ultimately show ?thesis by (simp add: bench_ok_def)
qed

text \<open>A thread that moves from \<open>pc\<close> to \<open>pc'\<close> keeps the invariant of all, if it keeps its own.\<close>

lemma producer_moved:
  assumes ok: "bench_ok p c s" and i: "i < unat p" and at_pc: "producer_threads s ! i = (pc, k)"
    and frame: "producer_threads s' = (producer_threads s)[i := (pc', k')]" "consumer_threads s' = consumer_threads s"
      "pop_counter s' = pop_counter s" "consumers_counter s' = consumers_counter s" "bench_state s' = bench_state s"
      "main_thread s' = main_thread s"
    and count: "producers_counter s' =
      producers_counter s + (if p_running (pc', k') then 1 else 0) - (if p_running (pc, k) then 1 else 0)"
    and queue: "k' + of_nat (length (under_test s)) = k + of_nat (length (under_test s'))"
    and stored: "length (push_counter s') = length (push_counter s)" "\<And>i'. i' \<noteq> i \<Longrightarrow> push_counter s' ! i' = push_counter s ! i'"
    and moving: "pc \<noteq> P_done" and own: "producer_ok s' i"
  shows "bench_ok p c s'"
proof -
  have counts: "counts_ok p c s" and P: "\<And>i. i < unat p \<Longrightarrow> producer_ok s i" and C: "\<And>j. j < unat c \<Longrightarrow> consumer_ok s j"
    using ok by (auto simp: bench_ok_def)
  have len: "i < length (producer_threads s)" using counts i by (simp add: counts_ok_def)
  have "\<not> settled s" using len at_pc moving by (auto simp: settled_def)
  then have C': "consumer_ok s' j" if "j < unat c" for j
    using C [OF that] frame unfolding consumer_ok_def by (cases "consumer_threads s ! j") auto
  have P': "producer_ok s' i'" if "i' < unat p" for i'
  proof (cases "i' = i")
    case False
    then show ?thesis using P [OF that] frame stored(2) [OF False] by (simp add: producer_ok_def)
  qed (simp add: own)
  have sums: "sum_list (map snd (producer_threads s')) = sum_list (map snd (producer_threads s)) + k' - k"
    using sum_update [OF len, of snd "(pc', k')"] at_pc frame(1) by simp
  have "of_nat (length (under_test s')) = (k + of_nat (length (under_test s'))) - k" by simp
  also have "\<dots> = of_nat (length (under_test s)) + k' - k" by (simp only: queue [symmetric] add.commute)
  finally have left: "(of_nat (length (under_test s')) :: u64) = of_nat (length (under_test s)) + k' - k" .
  have running: "(of_nat (length (filter p_running (producer_threads s'))) :: u32) =
      of_nat (length (filter p_running (producer_threads s))) + (if p_running (pc', k') then 1 else 0) -
      (if p_running (pc, k) then 1 else 0)"
    using count_word_update [OF len, of p_running "(pc', k')"] at_pc frame(1) by simp
  have "counts_ok p c s'"
    using counts count stored(1) frame(2-) sums left running unfolding counts_ok_def frame(1)
    by (simp del: of_nat_add)
  with C' P' show ?thesis by (simp add: bench_ok_def)
qed

lemma producer_step_ok:
  assumes ok: "bench_ok p c s" and i: "i < unat p" and step: "producer_step n conv i s = Some s'"
  shows "bench_ok p c s'"
proof -
  obtain pc k where at_pc: "producer_threads s ! i = (pc, k)" by fastforce
  have lens: "i < length (producer_threads s)" "i < length (push_counter s)" and own: "producer_ok s i"
    using ok i by (auto simp: bench_ok_def counts_ok_def)
  note moved = producer_moved [OF ok i at_pc]
  show ?thesis
  proof (cases pc)
    case P_push
    then show ?thesis
      using step at_pc own lens
      by (cases "length (under_test s) < n")
        (auto simp: producer_step_def q_push_def producer_ok_def p_running_def intro!: moved)
  next
    case P_wait
    then show ?thesis
      using step at_pc own lens
      by (cases "bench_state s < 1") (auto simp: producer_step_def producer_ok_def p_running_def intro!: moved)
  next
    case P_check
    then show ?thesis
      using step at_pc own lens
      by (cases "bench_state s = 1") (auto simp: producer_step_def producer_ok_def p_running_def intro!: moved)
  qed (use step at_pc own lens in \<open>auto simp: producer_step_def producer_ok_def p_running_def intro!: moved\<close>)
qed

lemma consumer_moved:
  assumes ok: "bench_ok p c s" and j: "j < unat c" and at_pc: "consumer_threads s ! j = (pc, k)"
    and frame: "consumer_threads s' = (consumer_threads s)[j := (pc', k')]" "producer_threads s' = producer_threads s"
      "push_counter s' = push_counter s" "producers_counter s' = producers_counter s" "bench_state s' = bench_state s"
      "main_thread s' = main_thread s"
    and count: "consumers_counter s' =
      consumers_counter s + (if c_running (pc', k') then 1 else 0) - (if c_running (pc, k) then 1 else 0)"
    and queue: "k' + of_nat (length (under_test s')) = k + of_nat (length (under_test s))"
    and drained: "under_test s = [] \<Longrightarrow> under_test s' = []"
    and stored: "length (pop_counter s') = length (pop_counter s)" "\<And>j'. j' \<noteq> j \<Longrightarrow> pop_counter s' ! j' = pop_counter s ! j'"
    and own: "consumer_ok s' j"
  shows "bench_ok p c s'"
proof -
  have counts: "counts_ok p c s" and P: "\<And>i. i < unat p \<Longrightarrow> producer_ok s i" and C: "\<And>j. j < unat c \<Longrightarrow> consumer_ok s j"
    using ok by (auto simp: bench_ok_def)
  have len: "j < length (consumer_threads s)" using counts j by (simp add: counts_ok_def)
  have P': "producer_ok s' i" if "i < unat p" for i
    using P [OF that] frame by (simp add: producer_ok_def)
  have C': "consumer_ok s' j'" if "j' < unat c" for j'
  proof (cases "j' = j")
    case False
    then show ?thesis
      using C [OF that] frame stored(2) [OF False] drained unfolding consumer_ok_def settled_def
      by (cases "consumer_threads s ! j'") auto
  qed (simp add: own)
  have sums: "sum_list (map snd (consumer_threads s')) = sum_list (map snd (consumer_threads s)) + k' - k"
    using sum_update [OF len, of snd "(pc', k')"] at_pc frame(1) by simp
  have "k' + (of_nat (length (under_test s')) :: u64) - k = of_nat (length (under_test s))" using queue by simp
  then have left: "(of_nat (length (under_test s)) :: u64) = k' - k + of_nat (length (under_test s'))"
    by (simp add: algebra_simps)
  have running: "(of_nat (length (filter c_running (consumer_threads s'))) :: u32) =
      of_nat (length (filter c_running (consumer_threads s))) + (if c_running (pc', k') then 1 else 0) -
      (if c_running (pc, k) then 1 else 0)"
    using count_word_update [OF len, of c_running "(pc', k')"] at_pc frame(1) by simp
  have "counts_ok p c s'"
    using counts count stored(1) frame(2-) sums left running unfolding counts_ok_def frame(1)
    by (simp del: of_nat_add)
  with C' P' show ?thesis by (simp add: bench_ok_def)
qed

lemma consumer_step_ok:
  assumes ok: "bench_ok p c s" and j: "j < unat c" and step: "consumer_step answer j s = Some s'"
  shows "bench_ok p c s'"
proof -
  obtain pc k where at_pc: "consumer_threads s ! j = (pc, k)" by fastforce
  have lens: "j < length (consumer_threads s)" "j < length (pop_counter s)" and own: "consumer_ok s j"
    and counts: "counts_ok p c s" and P: "\<And>i. i < unat p \<Longrightarrow> producer_ok s i"
    using ok j by (auto simp: bench_ok_def counts_ok_def)
  note moved = consumer_moved [OF ok j at_pc]
  show ?thesis
  proof (cases pc)
    case C_wait
    then show ?thesis
      using step at_pc own lens
      by (cases "bench_state s < 1") (auto simp: consumer_step_def consumer_ok_def c_running_def intro!: moved)
  next
    case C_state
    have four: "bench_state s = 4" if "\<not> bench_state s < 3"
      using that counts by (cases "main_thread s") (auto simp: counts_ok_def)
    show ?thesis
      using C_state step at_pc own lens four
      by (cases "bench_state s < 3") (auto simp: consumer_step_def consumer_ok_def c_running_def intro!: moved)
  next
    case C_producers
    have "settled s" if "producers_counter s = 0" "bench_state s = 4"
      unfolding settled_def
    proof (intro allI impI)
      fix i assume i: "i < length (producer_threads s)"
      then have "\<not> p_running (producer_threads s ! i)"
        using counter_zero [of p_running "producer_threads s" p i] that(1) counts by (simp add: counts_ok_def)
      moreover have "fst (producer_threads s ! i) \<noteq> P_start"
        using P [of i] i that(2) counts by (cases "main_thread s") (auto simp: producer_ok_def counts_ok_def)
      ultimately show "fst (producer_threads s ! i) = P_done" by (simp add: p_running_def)
    qed
    then show ?thesis
      using C_producers step at_pc own lens
      by (cases "producers_counter s = 0")
        (auto simp: consumer_step_def consumer_ok_def c_running_def settled_def word_neq_0_conv intro!: moved)
  next
    case C_empty
    then show ?thesis
      using step at_pc own lens
      by (cases answer) (auto simp: consumer_step_def consumer_ok_def c_running_def settled_def q_empty_def
          split: if_splits intro!: moved)
  next
    case C_pop
    then show ?thesis
      using step at_pc own lens
      by (cases "under_test s") (auto simp: consumer_step_def consumer_ok_def c_running_def q_pop_def intro!: moved)
  qed (use step at_pc own lens in \<open>auto simp: consumer_step_def consumer_ok_def c_running_def settled_def intro!: moved\<close>)
qed

lemma bench_step_ok:
  assumes "bench_ok p c s" and "bench_step n conv a s = Some s'"
  shows "bench_ok p c s'"
proof -
  have "length (producer_threads s) = unat p" "length (consumer_threads s) = unat c"
    using assms(1) by (simp_all add: bench_ok_def counts_ok_def)
  then show ?thesis
    using assms main_step_ok producer_step_ok consumer_step_ok
    by (auto simp: bench_step_def split: bench_act.splits if_splits)
qed

lemma bench_run_ok: "bench_ok p c s \<Longrightarrow> bench_run n conv as s = Some s' \<Longrightarrow> bench_ok p c s'"
proof (induction as arbitrary: s)
  case (Cons a as)
  then show ?case by (auto simp: bind_eq_Some_conv intro: bench_step_ok)
qed simp

lemma bench_report:
  assumes ok: "bench_ok p c s" and report: "main_thread s = M_report" and c: "0 < c"
  shows "total_push s = total_pop s \<and> under_test s = []"
proof -
  have counts: "counts_ok p c s" and P: "\<And>i. i < unat p \<Longrightarrow> producer_ok s i" and C: "\<And>j. j < unat c \<Longrightarrow> consumer_ok s j"
    using ok by (auto simp: bench_ok_def)
  have "0 < unat c" using c by (simp add: word_less_nat_alt)
  then have empty: "under_test s = []" using C report by (auto simp: consumer_ok_def Let_def split: prod.splits)
  have lens: "length (producer_threads s) = unat p" "length (push_counter s) = unat p"
    "length (consumer_threads s) = unat c" "length (pop_counter s) = unat c"
    and moved: "sum_list (map snd (producer_threads s)) = sum_list (map snd (consumer_threads s)) + of_nat (length (under_test s))"
    using counts by (simp_all add: counts_ok_def)
  have "push_counter s ! i = snd (producer_threads s ! i)" if "i < unat p" for i
    using P [OF that] report by (cases "producer_threads s ! i") (simp add: producer_ok_def)
  then have pushes: "push_counter s = map snd (producer_threads s)" by (intro nth_equalityI) (simp_all add: lens)
  have "pop_counter s ! j = snd (consumer_threads s ! j)" if "j < unat c" for j
    using C [OF that] report by (cases "consumer_threads s ! j") (simp add: consumer_ok_def)
  then have pops: "pop_counter s = map snd (consumer_threads s)" by (intro nth_equalityI) (simp_all add: lens)
  show ?thesis using moved by (simp add: total_push_def total_pop_def pushes pops empty)
qed

end
