(* ===== verification/PackSteps.thy ===== *)
theory PackSteps
  imports QueuePack
begin

text \<open>
  The operations of \<^verbatim>\<open>mpmc_queue_pack.h\<close> cut at their accesses to the queues, for threads that share a pack: a push is
  one push of the producer's queue, a pop goes through a sequence of queues. The accessor types of the end of that file let a
  single queue be used where a pack is.
\<close>

section \<open>The pop of a consumer, queue by queue\<close>

text \<open>
  \<open>Pop_first\<close> is the pop of the current queue, \<open>Pop_scan k\<close> the pop in the loop at counter \<open>k\<close>, when the consumer has
  already moved to the next queue.
\<close>

datatype pop_stage = Pop_first | Pop_scan u32

definition scan_from :: "u32 \<Rightarrow> u32 \<Rightarrow> consumer \<Rightarrow> (bool + pop_stage) \<times> consumer" where
  "scan_from G k c = (if k < G then (Inr (Pop_scan k), next_queue G c) else (Inl False, c))"

text \<open>What follows the answer \<open>b\<close> of the queue: the result of the pop, or the next queue to ask.\<close>

definition pop_turn :: "u32 \<Rightarrow> u32 \<Rightarrow> pop_stage \<Rightarrow> bool \<Rightarrow> consumer \<Rightarrow> (bool + pop_stage) \<times> consumer" where
  "pop_turn G K st b c =
     (case st of
        Pop_first \<Rightarrow>
          if b
          then (let c' = c\<lparr>pop_count := pop_count c + 1\<rparr>
                in (Inl True, if pop_count c' \<ge> K then next_queue G (c'\<lparr>pop_count := 0\<rparr>) else c'))
          else scan_from G 1 (c\<lparr>pop_count := 0\<rparr>)
      | Pop_scan k \<Rightarrow> if b then (Inl True, c) else scan_from G (k + 1) c)"

definition staged_body ::
  "u32 \<Rightarrow> u32 \<Rightarrow> ('v \<Rightarrow> 'q \<Rightarrow> (bool \<times> 'v \<times> 'q) option) \<Rightarrow> pop_stage \<times> consumer \<times> 'v \<times> 'q pack
     \<Rightarrow> (bool \<times> consumer \<times> 'v \<times> 'q pack, pop_stage \<times> consumer \<times> 'v \<times> 'q pack) turn option" where
  "staged_body G K q_pop s =
     (let (st, c, d, p) = s
      in case pop_current q_pop c d p of
           None \<Rightarrow> None
         | Some (b, d', p') \<Rightarrow>
             (case pop_turn G K st b c of
                (Inl r, c') \<Rightarrow> Some (Return (r, c', d', p'))
              | (Inr st', c') \<Rightarrow> Some (Loop (st', c', d', p'))))"

text \<open>Run without interruption, the stages are the pop of \<open>QueuePack\<close>.\<close>

lemma scan_stages:
  "spin (scan_body G q_pop) (k, c, d, p) =
     (case scan_from G k c of
        (Inl r, c') \<Rightarrow> Some (r, c', d, p)
      | (Inr st, c') \<Rightarrow> spin (staged_body G K q_pop) (st, c', d, p))"
proof (induction "unat G - unat k" arbitrary: k c d p)
  case 0
  then have "\<not> k < G" by (simp add: word_less_nat_alt)
  then show ?case by (simp add: scan_from_def scan_body_def spin_Return)
next
  case (Suc m)
  then have k: "k < G" by (simp add: word_less_nat_alt)
  then have "m = unat G - unat (k + 1)"
    using Suc.hyps(2) word_increment [of k "unat G"] unat_bound [of G] by (simp add: word_less_nat_alt)
  note IH = Suc.hyps(1) [OF this]
  let ?c = "next_queue G c"
  show ?case
  proof (cases "pop_current q_pop ?c d p")
    case None
    with k show ?thesis by (simp add: scan_from_def scan_body_def staged_body_def spin_None Let_def)
  next
    case (Some r)
    obtain b d' p' where r: "r = (b, d', p')" by (metis prod.exhaust)
    show ?thesis
    proof (cases b)
      case True
      with Some r k show ?thesis
        by (simp add: scan_from_def scan_body_def staged_body_def pop_turn_def spin_Return Let_def)
    next
      case False
      with Some r k have "spin (scan_body G q_pop) (k, c, d, p) = spin (scan_body G q_pop) (k + 1, ?c, d', p')"
        by (intro spin_Loop) (simp add: scan_body_def Let_def)
      moreover have "spin (staged_body G K q_pop) (Pop_scan k, ?c, d, p) =
          (case scan_from G (k + 1) ?c of
             (Inl r, c') \<Rightarrow> Some (r, c', d', p') | (Inr st, c') \<Rightarrow> spin (staged_body G K q_pop) (st, c', d', p'))"
        using False Some r by (auto simp: staged_body_def pop_turn_def spin_Loop spin_Return split: prod.splits sum.splits)
      ultimately show ?thesis using k IH [of ?c d' p'] by (simp add: scan_from_def)
    qed
  qed
qed

theorem staged_pop: "consumer_pop G K q_pop c d p = spin (staged_body G K q_pop) (Pop_first, c, d, p)"
proof (cases "pop_current q_pop c d p")
  case None
  then show ?thesis by (simp add: consumer_pop_def staged_body_def spin_None)
next
  case (Some r)
  obtain b d' p' where r: "r = (b, d', p')" by (metis prod.exhaust)
  show ?thesis
  proof (cases b)
    case True
    with Some r show ?thesis by (simp add: consumer_pop_def staged_body_def pop_turn_def spin_Return Let_def)
  next
    case False
    have "spin (staged_body G K q_pop) (Pop_first, c, d, p) =
        (case scan_from G 1 (c\<lparr>pop_count := 0\<rparr>) of
           (Inl r, c') \<Rightarrow> Some (r, c', d', p') | (Inr st, c') \<Rightarrow> spin (staged_body G K q_pop) (st, c', d', p'))"
      using False Some r by (auto simp: staged_body_def pop_turn_def spin_Loop spin_Return split: prod.splits sum.splits)
    with False Some r scan_stages [of G q_pop 1 "c\<lparr>pop_count := 0\<rparr>" d' p' K] show ?thesis
      by (simp add: consumer_pop_def)
  qed
qed

section \<open>The queues a consumer asks\<close>

definition reads_in :: "u32 \<Rightarrow> consumer \<Rightarrow> bool" where
  "reads_in G c \<longleftrightarrow> unat (read_queue_index c) < unat G"

lemma next_reads: "0 < G \<Longrightarrow> reads_in G (next_queue G c)"
  by (simp add: reads_in_def next_queue_def unat_mod unat_gt_0 word_gt_0)

lemma turn_reads: "reads_in G c \<Longrightarrow> 0 < G \<Longrightarrow> reads_in G (snd (pop_turn G K st b c))"
  by (auto simp: pop_turn_def scan_from_def Let_def next_reads split: pop_stage.split) (simp_all add: reads_in_def)

lemma accessor_below: "0 < (G :: u32) \<Longrightarrow> unat (ucast ((w :: u64) mod ucast G) :: u32) < unat G"
  using accessor_index [of G "unat w"] unat_bound [of w] by (simp add: unat_gt_0 word_gt_0)

lemma producer_new_index: "0 < G \<Longrightarrow> unat (queue_index (fst (producer_new G p))) < unat G"
  by (simp add: producer_new_def accessor_below)

lemma consumer_new_reads: "0 < G \<Longrightarrow> reads_in G (fst (consumer_new G p))"
  by (simp add: consumer_new_def reads_in_def accessor_below)

lemma new_queues [simp]: "queues (snd (producer_new G p)) = queues p" "queues (snd (consumer_new G p)) = queues p"
  by (simp_all add: producer_new_def consumer_new_def)

section \<open>Accessors\<close>

text \<open>
  \<^verbatim>\<open>producer_accessor\<close> and \<^verbatim>\<open>consumer_accessor\<close>: a pack has accessors of its own, the accessor of a single queue is a reference to it.
  A single queue is a pack of one queue here.
\<close>

datatype tested_queue = Single_queue | Queue_pack u32 u32

fun groups :: "tested_queue \<Rightarrow> u32" where
  "groups Single_queue = 1"
| "groups (Queue_pack G K) = G"

fun producer_accessor :: "tested_queue \<Rightarrow> 'q pack \<Rightarrow> producer \<times> 'q pack" where
  "producer_accessor Single_queue p = (\<lparr>queue_index = 0\<rparr>, p)"
| "producer_accessor (Queue_pack G K) p = producer_new G p"

fun consumer_accessor :: "tested_queue \<Rightarrow> 'q pack \<Rightarrow> consumer \<times> 'q pack" where
  "consumer_accessor Single_queue p = (\<lparr>read_queue_index = 0, pop_count = 0\<rparr>, p)"
| "consumer_accessor (Queue_pack G K) p = consumer_new G p"

fun accessor_turn :: "tested_queue \<Rightarrow> pop_stage \<Rightarrow> bool \<Rightarrow> consumer \<Rightarrow> (bool + pop_stage) \<times> consumer" where
  "accessor_turn Single_queue st b c = (Inl b, c)"
| "accessor_turn (Queue_pack G K) st b c = pop_turn G K st b c"

lemma accessor_queues [simp]:
  "queues (snd (producer_accessor u p)) = queues p" "queues (snd (consumer_accessor u p)) = queues p"
  by (cases u; simp)+

lemma accessor_new:
  assumes "0 < groups u"
  shows "unat (queue_index (fst (producer_accessor u p))) < unat (groups u)" and "reads_in (groups u) (fst (consumer_accessor u p))"
proof -
  show "unat (queue_index (fst (producer_accessor u p))) < unat (groups u)"
    using assms producer_new_index by (cases u) auto
  show "reads_in (groups u) (fst (consumer_accessor u p))"
    using assms consumer_new_reads by (cases u) (auto simp: reads_in_def)
qed

lemma accessor_reads: "reads_in (groups u) c \<Longrightarrow> 0 < groups u \<Longrightarrow> reads_in (groups u) (snd (accessor_turn u st b c))"
  by (cases u) (simp_all add: turn_reads)

text \<open>A pop succeeds only with the answer of a queue.\<close>

lemma turn_result: "fst (accessor_turn u st b c) = Inl r \<Longrightarrow> r = b"
  by (cases u) (auto simp: pop_turn_def scan_from_def Let_def split: pop_stage.splits if_splits)

lemma turn_success: "\<exists>c'. accessor_turn u st True c = (Inl True, c')"
  by (cases u; cases st) (simp_all add: pop_turn_def Let_def)

end
