(* ===== verification/PackBench.thy ===== *)
theory PackBench
  imports Bandwidth PackSteps
begin

text \<open>
  The benchmark \<^verbatim>\<open>bw_benchmark\<close> of \<^verbatim>\<open>src/pack_benchmark.cpp\<close>, on a single queue or a pack: every producer pushes
  \<open>N\<close> values and adds them up, every consumer adds up what it pops, and the program reports whether
  the two sums agree. The queues are abstract here, every access to a queue or to a shared variable is a step, and the
  scheduler chooses the order. \<open>conv\<close> makes the pushed value out of the 32-bit arithmetic of the loop,
  \<open>num\<close> is its value when it is added to the 64-bit sum.
\<close>

section \<open>The threads\<close>

text \<open>\<open>K_pop st\<close> is in the pop of the accessor, at its stage \<open>st\<close>.\<close>

datatype pk_producer_pc = A_start | A_wait | A_open | A_push | A_sum | A_leave | A_done

datatype pk_consumer_pc = K_open | K_start | K_pop pop_stage | K_check | K_sum | K_pops | K_leave | K_done

datatype pk_main_pc = W_producers | W_consumers | W_start | W_wait | W_join | W_report

record pk_producer =
  a_pc :: pk_producer_pc
  a_pro :: producer
  a_x :: u32
  a_m :: u64

record 'v pk_consumer =
  k_pc :: pk_consumer_pc
  k_con :: consumer
  k_v :: 'v
  k_m :: u64
  k_n :: u64

record 'v pack_bench =
  qpack :: "'v list pack"
  pk_producers :: "pk_producer list"
  pk_consumers :: "'v pk_consumer list"
  prod_sum :: u64
  cons_sum :: u64
  active_producers :: u64
  active_consumers :: u64
  benchmark_state :: u32
  consumers_pops :: "u64 list"
  pk_main :: pk_main_pc

text \<open>The accessors are set by the first step of their threads, before any use.\<close>

definition new_producer :: pk_producer where
  "new_producer = \<lparr>a_pc = A_start, a_pro = \<lparr>queue_index = 0\<rparr>, a_x = 0, a_m = 0\<rparr>"

definition new_consumer :: "'v::zero pk_consumer" where
  "new_consumer = \<lparr>k_pc = K_open, k_con = \<lparr>read_queue_index = 0, pop_count = 0\<rparr>, k_v = 0, k_m = 0, k_n = 0\<rparr>"

definition pack_bench_start :: "tested_queue \<Rightarrow> u32 \<Rightarrow> u32 \<Rightarrow> 'v pack_bench" where
  "pack_bench_start u P C =
     \<lparr>qpack = \<lparr>queues = replicate (unat (groups u)) [], writers_count = 0, readers_count = 0\<rparr>,
      pk_producers = replicate (unat P) new_producer, pk_consumers = [],
      prod_sum = 0, cons_sum = 0, active_producers = 0, active_consumers = 0, benchmark_state = 0,
      consumers_pops = replicate (unat C) 0, pk_main = W_producers\<rparr>"

text \<open>The operations of an abstract queue in the form that the pack uses.\<close>

definition list_push :: "nat \<Rightarrow> 'v \<Rightarrow> 'v list \<Rightarrow> (bool \<times> 'v list) option" where
  "list_push n d xs = Some (q_push n d xs)"

definition list_pop :: "'v \<Rightarrow> 'v list \<Rightarrow> (bool \<times> 'v \<times> 'v list) option" where
  "list_pop d xs = Some (case xs of [] \<Rightarrow> (False, d, []) | x # ys \<Rightarrow> (True, x, ys))"

text \<open>The thread \<open>i\<close> of the producers runs with \<open>producer_id\<close> equal to \<open>i\<close>.\<close>

definition pk_value :: "(u32 \<Rightarrow> 'v) \<Rightarrow> u32 \<Rightarrow> nat \<Rightarrow> u32 \<Rightarrow> 'v" where
  "pk_value conv N i x = conv (x + 10 * N * of_nat i)"

text \<open>What a producer does with the answer of its push: it goes to the next value or tries again.\<close>

definition pushed_turn :: "('v \<Rightarrow> u64) \<Rightarrow> 'v \<Rightarrow> bool \<Rightarrow> pk_producer \<Rightarrow> pk_producer" where
  "pushed_turn num v b p = (if b then p\<lparr>a_x := a_x p + 1, a_m := a_m p + num v\<rparr> else p)"

definition pk_producer_step ::
  "tested_queue \<Rightarrow> nat \<Rightarrow> (u32 \<Rightarrow> 'v) \<Rightarrow> ('v \<Rightarrow> u64) \<Rightarrow> u32 \<Rightarrow> nat \<Rightarrow> 'v pack_bench \<Rightarrow> 'v pack_bench option" where
  "pk_producer_step u n conv num N i s =
     (let p = pk_producers s ! i;
          go = (\<lambda>p' s'. Some (s'\<lparr>pk_producers := (pk_producers s')[i := p']\<rparr>))
      in case a_pc p of
           A_start \<Rightarrow> go (p\<lparr>a_pc := A_wait\<rparr>) (s\<lparr>active_producers := active_producers s + 1\<rparr>)
         | A_wait \<Rightarrow> go (if benchmark_state s \<noteq> 0 then p else p\<lparr>a_pc := A_open\<rparr>) s
         | A_open \<Rightarrow> (case producer_accessor u (qpack s) of (pro, qp) \<Rightarrow> go (p\<lparr>a_pc := A_push, a_pro := pro\<rparr>) (s\<lparr>qpack := qp\<rparr>))
         | A_push \<Rightarrow>
             if a_x p < N
             then (let v = pk_value conv N i (a_x p)
                   in case producer_push (list_push n) (a_pro p) v (qpack s) of
                        None \<Rightarrow> None
                      | Some (b, qp) \<Rightarrow> go (pushed_turn num v b p) (s\<lparr>qpack := qp\<rparr>))
             else go (p\<lparr>a_pc := A_sum\<rparr>) s
         | A_sum \<Rightarrow> go (p\<lparr>a_pc := A_leave\<rparr>) (s\<lparr>prod_sum := prod_sum s + a_m p\<rparr>)
         | A_leave \<Rightarrow> go (p\<lparr>a_pc := A_done\<rparr>) (s\<lparr>active_producers := active_producers s - 1\<rparr>)
         | A_done \<Rightarrow> None)"

text \<open>
  What a consumer does with the answer of a queue: \<open>v\<close> is what the queue left in the variable \<^verbatim>\<open>v\<close>. A pop that succeeds is added
  up and followed by another, one that fails ends the inner loop, and otherwise the accessor asks the next queue.
\<close>

definition popped_turn :: "tested_queue \<Rightarrow> ('v \<Rightarrow> u64) \<Rightarrow> pop_stage \<Rightarrow> bool \<Rightarrow> 'v \<Rightarrow> 'v pk_consumer \<Rightarrow> 'v pk_consumer" where
  "popped_turn u num st b v k =
     (case accessor_turn u st b (k_con k) of
        (Inl r, c) \<Rightarrow>
          if r then k\<lparr>k_pc := K_pop Pop_first, k_con := c, k_v := v, k_m := k_m k + num v, k_n := k_n k + 1\<rparr>
          else k\<lparr>k_pc := K_check, k_con := c, k_v := v\<rparr>
      | (Inr st', c) \<Rightarrow> k\<lparr>k_pc := K_pop st', k_con := c, k_v := v\<rparr>)"

definition pk_consumer_step ::
  "tested_queue \<Rightarrow> ('v \<Rightarrow> u64) \<Rightarrow> nat \<Rightarrow> 'v pack_bench \<Rightarrow> 'v pack_bench option" where
  "pk_consumer_step u num j s =
     (let k = pk_consumers s ! j;
          go = (\<lambda>k' s'. Some (s'\<lparr>pk_consumers := (pk_consumers s')[j := k']\<rparr>))
      in case k_pc k of
           K_open \<Rightarrow> (case consumer_accessor u (qpack s) of (con, qp) \<Rightarrow> go (k\<lparr>k_pc := K_start, k_con := con\<rparr>) (s\<lparr>qpack := qp\<rparr>))
         | K_start \<Rightarrow> go (k\<lparr>k_pc := K_pop Pop_first\<rparr>) (s\<lparr>active_consumers := active_consumers s + 1\<rparr>)
         | K_pop st \<Rightarrow>
             (case pop_current list_pop (k_con k) (k_v k) (qpack s) of
                None \<Rightarrow> None
              | Some (b, v, qp) \<Rightarrow> go (popped_turn u num st b v k) (s\<lparr>qpack := qp\<rparr>))
         | K_check \<Rightarrow> go (k\<lparr>k_pc := if active_producers s \<noteq> 0 then K_pop Pop_first else K_sum\<rparr>) s
         | K_sum \<Rightarrow> go (k\<lparr>k_pc := K_pops\<rparr>) (s\<lparr>cons_sum := cons_sum s + k_m k\<rparr>)
         | K_pops \<Rightarrow> go (k\<lparr>k_pc := K_leave\<rparr>) (s\<lparr>consumers_pops := (consumers_pops s)[j := k_n k]\<rparr>)
         | K_leave \<Rightarrow> go (k\<lparr>k_pc := K_done\<rparr>) (s\<lparr>active_consumers := active_consumers s - 1\<rparr>)
         | K_done \<Rightarrow> None)"

text \<open>The consumers are created when the main thread has seen all producers active.\<close>

definition pk_main_step :: "u32 \<Rightarrow> u32 \<Rightarrow> 'v::zero pack_bench \<Rightarrow> 'v pack_bench option" where
  "pk_main_step P C s =
     (case pk_main s of
        W_producers \<Rightarrow>
          Some (if active_producers s \<noteq> ucast P then s
                else s\<lparr>pk_consumers := replicate (unat C) new_consumer, pk_main := W_consumers\<rparr>)
      | W_consumers \<Rightarrow> Some (if active_consumers s \<noteq> ucast C then s else s\<lparr>pk_main := W_start\<rparr>)
      | W_start \<Rightarrow> Some (s\<lparr>benchmark_state := 1, pk_main := W_wait\<rparr>)
      | W_wait \<Rightarrow> Some (if active_consumers s \<noteq> 0 then s else s\<lparr>pk_main := W_join\<rparr>)
      | W_join \<Rightarrow>
          Some (if (\<forall>p \<in> set (pk_producers s). a_pc p = A_done) \<and> (\<forall>k \<in> set (pk_consumers s). k_pc k = K_done)
                then s\<lparr>pk_main := W_report\<rparr> else s)
      | W_report \<Rightarrow> None)"

datatype pk_act = Main_act | Producer_act nat | Consumer_act nat

definition pk_step ::
  "tested_queue \<Rightarrow> nat \<Rightarrow> (u32 \<Rightarrow> 'v::zero) \<Rightarrow> ('v \<Rightarrow> u64) \<Rightarrow> u32 \<Rightarrow> u32 \<Rightarrow> u32 \<Rightarrow> pk_act \<Rightarrow> 'v pack_bench \<Rightarrow> 'v pack_bench option" where
  "pk_step u n conv num N P C a s =
     (case a of
        Main_act \<Rightarrow> pk_main_step P C s
      | Producer_act i \<Rightarrow> if i < length (pk_producers s) then pk_producer_step u n conv num N i s else None
      | Consumer_act j \<Rightarrow> if j < length (pk_consumers s) then pk_consumer_step u num j s else None)"

fun pk_run ::
  "tested_queue \<Rightarrow> nat \<Rightarrow> (u32 \<Rightarrow> 'v::zero) \<Rightarrow> ('v \<Rightarrow> u64) \<Rightarrow> u32 \<Rightarrow> u32 \<Rightarrow> u32 \<Rightarrow> pk_act list \<Rightarrow> 'v pack_bench \<Rightarrow> 'v pack_bench option" where
  "pk_run u n conv num N P C [] s = Some s"
| "pk_run u n conv num N P C (a # as) s = Option.bind (pk_step u n conv num N P C a s) (pk_run u n conv num N P C as)"

text \<open>What the program reports: whether the sums agree, and how many values were popped.\<close>

definition pk_ok :: "'v pack_bench \<Rightarrow> bool" where
  "pk_ok s \<longleftrightarrow> cons_sum s \<noteq> 0 \<and> cons_sum s = prod_sum s"

definition pk_total_pops :: "'v pack_bench \<Rightarrow> u64" where
  "pk_total_pops s = sum_list (consumers_pops s)"

section \<open>What is left in the queues\<close>

definition left_over :: "'v pack_bench \<Rightarrow> 'v list" where
  "left_over s = concat (queues (qpack s))"

definition left_sum :: "('v \<Rightarrow> u64) \<Rightarrow> 'v list pack \<Rightarrow> u64" where
  "left_sum f qp = sum_list (map f (concat (queues qp)))"

lemma left_sum_lists: "left_sum f qp = sum_list (map (\<lambda>xs. sum_list (map f xs)) (queues qp))"
proof -
  have "sum_list (map f (concat xss)) = sum_list (map (\<lambda>xs. sum_list (map f xs)) xss)" for xss by (induction xss) simp_all
  then show ?thesis by (simp add: left_sum_def)
qed

lemma ones: "(of_nat (length xs) :: u64) = sum_list (map (\<lambda>_. 1) xs)"
  by (induction xs) simp_all

lemma push_left:
  assumes "producer_push (list_push n) h v qp = Some (b, qp')" and "unat (queue_index h) < length (queues qp)"
  shows "left_sum f qp' = left_sum f qp + (if b then f v else 0)" and "length (queues qp') = length (queues qp)"
  using assms by (auto simp: producer_push_def list_push_def q_push_def left_sum_lists Let_def sum_update split: if_splits)

lemma pop_left:
  assumes "pop_current list_pop c d qp = Some (b, v, qp')" and "unat (read_queue_index c) < length (queues qp)"
  shows "left_sum f qp = left_sum f qp' + (if b then f v else 0)" and "length (queues qp') = length (queues qp)"
  using assms by (auto simp: pop_current_def list_pop_def left_sum_lists Let_def sum_update split: list.splits)

section \<open>What the report says\<close>

definition pk_producer_ok :: "tested_queue \<Rightarrow> u32 \<Rightarrow> pk_producer \<Rightarrow> bool" where
  "pk_producer_ok u N p \<longleftrightarrow> a_x p \<le> N \<and> (a_pc p \<in> {A_sum, A_leave, A_done} \<longrightarrow> a_x p = N) \<and>
     (a_pc p = A_push \<longrightarrow> unat (queue_index (a_pro p)) < unat (groups u))"

definition pk_consumer_ok :: "tested_queue \<Rightarrow> 'v pk_consumer \<Rightarrow> bool" where
  "pk_consumer_ok u k \<longleftrightarrow> k_pc k = K_open \<or> reads_in (groups u) (k_con k)"

text \<open>What a thread holds that it has not added to the shared sum yet.\<close>

definition producer_share :: "pk_producer \<Rightarrow> u64" where
  "producer_share p = (if a_pc p \<in> {A_leave, A_done} then 0 else a_m p)"

definition consumer_share :: "'v pk_consumer \<Rightarrow> u64" where
  "consumer_share k = (if k_pc k \<in> {K_pops, K_leave, K_done} then 0 else k_m k)"

definition pack_bench_ok :: "tested_queue \<Rightarrow> ('v \<Rightarrow> u64) \<Rightarrow> u32 \<Rightarrow> u32 \<Rightarrow> u32 \<Rightarrow> 'v pack_bench \<Rightarrow> bool" where
  "pack_bench_ok u num N P C s \<longleftrightarrow>
     0 < groups u \<and> length (queues (qpack s)) = unat (groups u) \<and>
     length (pk_producers s) = unat P \<and> (\<forall>p \<in> set (pk_producers s). pk_producer_ok u N p) \<and>
     length (consumers_pops s) = unat C \<and> (\<forall>k \<in> set (pk_consumers s). pk_consumer_ok u k) \<and>
     (if pk_main s = W_producers then pk_consumers s = [] else length (pk_consumers s) = unat C) \<and>
     (\<forall>j < length (pk_consumers s). k_pc (pk_consumers s ! j) \<in> {K_leave, K_done} \<longrightarrow> consumers_pops s ! j = k_n (pk_consumers s ! j)) \<and>
     prod_sum s + sum_list (map producer_share (pk_producers s)) =
       cons_sum s + sum_list (map consumer_share (pk_consumers s)) + left_sum num (qpack s) \<and>
     sum_list (map (\<lambda>p. ucast (a_x p)) (pk_producers s)) =
       sum_list (map k_n (pk_consumers s)) + left_sum (\<lambda>_. 1) (qpack s) \<and>
     (pk_main s = W_report \<longrightarrow>
        (\<forall>p \<in> set (pk_producers s). a_pc p = A_done) \<and> (\<forall>k \<in> set (pk_consumers s). k_pc k = K_done))"

lemma pack_bench_start_ok: "0 < groups u \<Longrightarrow> pack_bench_ok u num N P C (pack_bench_start u P C)"
  by (simp add: pack_bench_ok_def pack_bench_start_def new_producer_def pk_producer_ok_def producer_share_def sum_list_replicate
      map_replicate_const left_sum_lists)

lemma pk_main_step_ok:
  assumes "pack_bench_ok u num N P C s" and "pk_main_step P C s = Some s'"
  shows "pack_bench_ok u num N P C s'"
  using assms
  by (cases "pk_main s")
    (auto simp: pk_main_step_def pack_bench_ok_def new_consumer_def pk_consumer_ok_def consumer_share_def sum_list_replicate
      map_replicate_const split: if_splits)

lemma pk_producer_moved:
  assumes ok: "pack_bench_ok u num N P C s" and i: "i < length (pk_producers s)"
    and frame: "pk_producers s' = (pk_producers s)[i := p']" "pk_consumers s' = pk_consumers s" "cons_sum s' = cons_sum s"
      "consumers_pops s' = consumers_pops s" "pk_main s' = pk_main s" "length (queues (qpack s')) = length (queues (qpack s))"
    and moving: "a_pc (pk_producers s ! i) \<noteq> A_done" and own: "pk_producer_ok u N p'"
    and sums: "prod_sum s' + producer_share p' + left_sum num (qpack s) =
      prod_sum s + producer_share (pk_producers s ! i) + left_sum num (qpack s')"
    and counts: "ucast (a_x p') + left_sum (\<lambda>_. 1) (qpack s) = ucast (a_x (pk_producers s ! i)) + left_sum (\<lambda>_. 1) (qpack s')"
  shows "pack_bench_ok u num N P C s'"
proof -
  note facts = ok [unfolded pack_bench_ok_def]
  let ?p = "pk_producers s ! i"
  have "pk_main s \<noteq> W_report" using facts moving i nth_mem [OF i] by blast
  have shares: "sum_list (map producer_share (pk_producers s')) = sum_list (map producer_share (pk_producers s)) + producer_share p' - producer_share ?p"
    using sum_update [OF i, of producer_share p'] frame(1) by simp
  have xs: "sum_list (map (\<lambda>p. ucast (a_x p) :: u64) (pk_producers s')) =
      sum_list (map (\<lambda>p. ucast (a_x p)) (pk_producers s)) + ucast (a_x p') - ucast (a_x ?p)"
    using sum_update [OF i, of "\<lambda>p. ucast (a_x p) :: u64" p'] frame(1) by simp
  have sum': "prod_sum s' + producer_share p' - producer_share ?p = prod_sum s - left_sum num (qpack s) + left_sum num (qpack s')"
    using sums by (simp add: algebra_simps)
  have "prod_sum s' + sum_list (map producer_share (pk_producers s')) =
      (prod_sum s' + producer_share p' - producer_share ?p) + sum_list (map producer_share (pk_producers s))"
    by (simp add: shares)
  also have "\<dots> = (prod_sum s + sum_list (map producer_share (pk_producers s))) - left_sum num (qpack s) + left_sum num (qpack s')"
    by (simp add: sum')
  also have "\<dots> = cons_sum s + sum_list (map consumer_share (pk_consumers s)) + left_sum num (qpack s')"
    using facts by simp
  finally have 1: "prod_sum s' + sum_list (map producer_share (pk_producers s')) =
      cons_sum s + sum_list (map consumer_share (pk_consumers s)) + left_sum num (qpack s')" .
  have count': "ucast (a_x p') - ucast (a_x ?p) = left_sum (\<lambda>_. 1) (qpack s') - left_sum (\<lambda>_. 1) (qpack s)"
    using counts by (simp add: algebra_simps)
  have "sum_list (map (\<lambda>p. ucast (a_x p) :: u64) (pk_producers s')) =
      sum_list (map (\<lambda>p. ucast (a_x p)) (pk_producers s)) + (ucast (a_x p') - ucast (a_x ?p))"
    by (simp add: xs)
  also have "\<dots> = sum_list (map k_n (pk_consumers s)) + left_sum (\<lambda>_. 1) (qpack s')"
    using facts by (simp add: count')
  finally have 2: "sum_list (map (\<lambda>p. ucast (a_x p)) (pk_producers s')) = sum_list (map k_n (pk_consumers s)) + left_sum (\<lambda>_. 1) (qpack s')" .
  have "\<forall>p \<in> set (pk_producers s'). pk_producer_ok u N p" using facts frame(1) own i ball_update by metis
  with facts 1 2 \<open>pk_main s \<noteq> W_report\<close> frame show ?thesis by (simp add: pack_bench_ok_def)
qed

lemma increment_below:
  fixes x y :: u32
  assumes "x < y"
  shows "x + 1 \<le> y" and "ucast (x + 1) = (ucast x + 1 :: u64)"
proof -
  have less: "unat x < unat y" "unat y < 2 ^ 32" using assms unsigned_less [of y] by (simp_all add: word_less_nat_alt)
  then have inc: "unat (x + 1) = unat x + 1" using unat_add_lem [of x 1] by simp
  with less show "x + 1 \<le> y" by (simp add: word_le_nat_alt)
  have wide: "unat (ucast z :: u64) = unat z" for z :: u32
    by (simp add: unsigned_ucast_eq take_bit_nat_eq_self less_trans [OF unsigned_less [of z]])
  have "unat (ucast x + 1 :: u64) = unat (ucast x :: u64) + 1"
    using unat_add_lem [of "ucast x :: u64" 1] wide [of x] less by simp
  then show "ucast (x + 1) = (ucast x + 1 :: u64)" by (simp add: word_unat_eq_iff wide inc)
qed

lemma left_sum_same: "queues qp = queues qp' \<Longrightarrow> left_sum f qp = left_sum f qp'"
  by (simp add: left_sum_def)

lemma pk_producer_step_ok:
  assumes ok: "pack_bench_ok u num N P C s" and i: "i < length (pk_producers s)"
    and step: "pk_producer_step u n conv num N i s = Some s'"
  shows "pack_bench_ok u num N P C s'"
proof -
  let ?p = "pk_producers s ! i"
  have own: "pk_producer_ok u N ?p" and G: "0 < groups u" "length (queues (qpack s)) = unat (groups u)"
    using ok i by (simp_all add: pack_bench_ok_def)
  note moved = pk_producer_moved [OF ok i]
  show ?thesis
  proof (cases "a_pc ?p")
    case A_push
    show ?thesis
    proof (cases "a_x ?p < N")
      case True
      let ?v = "pk_value conv N i (a_x ?p)"
      from True step A_push obtain b qp where r: "producer_push (list_push n) (a_pro ?p) ?v (qpack s) = Some (b, qp)"
          and s': "s' = s\<lparr>qpack := qp, pk_producers := (pk_producers s)[i := pushed_turn num ?v b ?p]\<rparr>"
        by (auto simp: pk_producer_step_def Let_def split: option.splits)
      have ix: "unat (queue_index (a_pro ?p)) < length (queues (qpack s))" using own A_push G by (simp add: pk_producer_ok_def)
      note left = push_left [OF r ix]
      show ?thesis
        by (rule moved [of _ "pushed_turn num ?v b ?p"])
          (use A_push own increment_below [OF True] left in
            \<open>simp_all add: s' pushed_turn_def pk_producer_ok_def producer_share_def left(1)\<close>)
    next
      case False
      then have "pk_producer_ok u N (?p\<lparr>a_pc := A_sum\<rparr>)" using own by (simp add: pk_producer_ok_def)
      with False show ?thesis using A_push step i by (auto simp: pk_producer_step_def producer_share_def Let_def intro!: moved)
    qed
  next
    case A_open
    obtain pro qp where r: "producer_accessor u (qpack s) = (pro, qp)" by fastforce
    then have "queues qp = queues (qpack s)" "unat (queue_index pro) < unat (groups u)"
      using accessor_queues(1) [of u "qpack s"] accessor_new(1) [OF G(1), of "qpack s"] by simp_all
    with A_open step r own show ?thesis
      by (auto simp: pk_producer_step_def producer_share_def pk_producer_ok_def left_sum_def Let_def intro!: moved)
  next
    case A_sum
    then have "pk_producer_ok u N (?p\<lparr>a_pc := A_leave\<rparr>)" using own by (simp add: pk_producer_ok_def)
    with A_sum step show ?thesis by (auto simp: pk_producer_step_def producer_share_def Let_def intro!: moved)
  next
    case A_leave
    then have "pk_producer_ok u N (?p\<lparr>a_pc := A_done\<rparr>)" using own by (simp add: pk_producer_ok_def)
    with A_leave step show ?thesis by (auto simp: pk_producer_step_def producer_share_def Let_def intro!: moved)
  qed (use step own in \<open>auto simp: pk_producer_step_def producer_share_def pk_producer_ok_def Let_def intro!: moved split: if_splits\<close>)
qed

lemma pk_consumer_moved:
  assumes ok: "pack_bench_ok u num N P C s" and j: "j < length (pk_consumers s)"
    and frame: "pk_consumers s' = (pk_consumers s)[j := k']" "pk_producers s' = pk_producers s" "prod_sum s' = prod_sum s"
      "pk_main s' = pk_main s" "length (queues (qpack s')) = length (queues (qpack s))"
    and stored: "length (consumers_pops s') = length (consumers_pops s)"
      "\<And>j'. j' \<noteq> j \<Longrightarrow> consumers_pops s' ! j' = consumers_pops s ! j'"
      "k_pc k' \<in> {K_leave, K_done} \<Longrightarrow> consumers_pops s' ! j = k_n k'"
    and moving: "k_pc (pk_consumers s ! j) \<noteq> K_done" and own: "pk_consumer_ok u k'"
    and sums: "cons_sum s' + consumer_share k' + left_sum num (qpack s') =
      cons_sum s + consumer_share (pk_consumers s ! j) + left_sum num (qpack s)"
    and counts: "k_n k' + left_sum (\<lambda>_. 1) (qpack s') = k_n (pk_consumers s ! j) + left_sum (\<lambda>_. 1) (qpack s)"
  shows "pack_bench_ok u num N P C s'"
proof -
  note facts = ok [unfolded pack_bench_ok_def]
  let ?k = "pk_consumers s ! j"
  have "pk_main s \<noteq> W_report" using facts moving j nth_mem [OF j] by blast
  have shares: "sum_list (map consumer_share (pk_consumers s')) = sum_list (map consumer_share (pk_consumers s)) + consumer_share k' - consumer_share ?k"
    using sum_update [OF j, of consumer_share k'] frame(1) by simp
  have ns: "sum_list (map k_n (pk_consumers s')) = sum_list (map k_n (pk_consumers s)) + k_n k' - k_n ?k"
    using sum_update [OF j, of k_n k'] frame(1) by simp
  have "cons_sum s' + sum_list (map consumer_share (pk_consumers s')) + left_sum num (qpack s') =
      (cons_sum s' + consumer_share k' + left_sum num (qpack s')) - consumer_share ?k + sum_list (map consumer_share (pk_consumers s))"
    by (simp add: shares)
  also have "\<dots> = cons_sum s + sum_list (map consumer_share (pk_consumers s)) + left_sum num (qpack s)"
    by (simp add: sums)
  finally have 1: "cons_sum s' + sum_list (map consumer_share (pk_consumers s')) + left_sum num (qpack s') =
      cons_sum s + sum_list (map consumer_share (pk_consumers s)) + left_sum num (qpack s)" .
  have "sum_list (map k_n (pk_consumers s')) + left_sum (\<lambda>_. 1) (qpack s') =
      (k_n k' + left_sum (\<lambda>_. 1) (qpack s')) - k_n ?k + sum_list (map k_n (pk_consumers s))"
    by (simp add: ns)
  also have "\<dots> = sum_list (map k_n (pk_consumers s)) + left_sum (\<lambda>_. 1) (qpack s)"
    by (simp add: counts)
  finally have 2: "sum_list (map k_n (pk_consumers s')) + left_sum (\<lambda>_. 1) (qpack s') =
      sum_list (map k_n (pk_consumers s)) + left_sum (\<lambda>_. 1) (qpack s)" .
  have "\<forall>k \<in> set (pk_consumers s'). pk_consumer_ok u k" using facts frame(1) own j ball_update by metis
  moreover have "\<forall>j' < length (pk_consumers s'). k_pc (pk_consumers s' ! j') \<in> {K_leave, K_done} \<longrightarrow>
      consumers_pops s' ! j' = k_n (pk_consumers s' ! j')"
    using facts stored frame(1) j by (auto simp: nth_list_update)
  ultimately show ?thesis
    using facts stored(1) 1 2 \<open>pk_main s \<noteq> W_report\<close> frame by (simp add: pack_bench_ok_def split: if_splits)
qed

lemma popped_turn_share:
  assumes "k_pc k = K_pop st"
  shows "consumer_share (popped_turn u num st b v k) = k_m k + (if b then num v else 0)"
    and "k_n (popped_turn u num st b v k) = k_n k + (if b then 1 else 0)"
    and "k_pc (popped_turn u num st b v k) \<notin> {K_leave, K_done}"
    and "reads_in (groups u) (k_con k) \<Longrightarrow> 0 < groups u \<Longrightarrow> pk_consumer_ok u (popped_turn u num st b v k)"
proof -
  obtain x c where r: "accessor_turn u st b (k_con k) = (x, c)" by fastforce
  have c: "reads_in (groups u) c" if "reads_in (groups u) (k_con k)" "0 < groups u"
    using accessor_reads [OF that, of st b] r by simp
  have x: "x = Inl b \<or> (\<exists>st'. x = Inr st' \<and> \<not> b)"
    using turn_result [of u st b "k_con k"] turn_success [of u st "k_con k"] r by (cases x; cases b) auto
  from x r show "consumer_share (popped_turn u num st b v k) = k_m k + (if b then num v else 0)"
      "k_n (popped_turn u num st b v k) = k_n k + (if b then 1 else 0)"
      "k_pc (popped_turn u num st b v k) \<notin> {K_leave, K_done}"
    by (auto simp: popped_turn_def consumer_share_def split: if_splits)
  show "pk_consumer_ok u (popped_turn u num st b v k)" if "reads_in (groups u) (k_con k)" "0 < groups u"
    using x r c [OF that] by (auto simp: popped_turn_def pk_consumer_ok_def split: if_splits)
qed

lemma pk_consumer_step_ok:
  assumes ok: "pack_bench_ok u num N P C s" and j: "j < length (pk_consumers s)" and step: "pk_consumer_step u num j s = Some s'"
  shows "pack_bench_ok u num N P C s'"
proof -
  let ?k = "pk_consumers s ! j"
  have pops: "j < length (consumers_pops s)"
    and stored: "k_pc ?k \<in> {K_leave, K_done} \<longrightarrow> consumers_pops s ! j = k_n ?k"
    and own: "pk_consumer_ok u ?k" and G: "0 < groups u" "length (queues (qpack s)) = unat (groups u)"
    using ok j by (auto simp: pack_bench_ok_def split: if_splits)
  note moved = pk_consumer_moved [OF ok j]
  show ?thesis
  proof (cases "k_pc ?k")
    case K_open
    obtain con qp where r: "consumer_accessor u (qpack s) = (con, qp)" by fastforce
    then have "queues qp = queues (qpack s)" "reads_in (groups u) con"
      using accessor_queues(2) [of u "qpack s"] accessor_new(2) [OF G(1), of "qpack s"] by simp_all
    with K_open step r show ?thesis
      by (auto simp: pk_consumer_step_def consumer_share_def pk_consumer_ok_def left_sum_def Let_def intro!: moved)
  next
    case (K_pop st)
    then obtain b v qp where r: "pop_current list_pop (k_con ?k) (k_v ?k) (qpack s) = Some (b, v, qp)"
        and s': "s' = s\<lparr>qpack := qp, pk_consumers := (pk_consumers s)[j := popped_turn u num st b v ?k]\<rparr>"
      using step by (auto simp: pk_consumer_step_def Let_def split: option.splits)
    have reads: "reads_in (groups u) (k_con ?k)" using own K_pop by (simp add: pk_consumer_ok_def)
    then have ix: "unat (read_queue_index (k_con ?k)) < length (queues (qpack s))" using G by (simp add: reads_in_def)
    note left = pop_left [OF r ix] and turn = popped_turn_share [OF K_pop, of u num b v]
    show ?thesis
      by (rule moved [of _ "popped_turn u num st b v ?k"])
        (use K_pop turn(3) turn(4) [OF reads G(1)] left(2) in
          \<open>simp_all add: s' turn(1,2) left(1) consumer_share_def [of ?k]\<close>)
  qed (use step j pops stored own in \<open>auto simp: pk_consumer_step_def consumer_share_def pk_consumer_ok_def Let_def intro!: moved split: if_splits\<close>)
qed

lemma pk_run_ok:
  "pack_bench_ok u num N P C s \<Longrightarrow> pk_run u n conv num N P C as s = Some s' \<Longrightarrow> pack_bench_ok u num N P C s'"
proof (induction as arbitrary: s)
  case (Cons a as)
  from Cons.prems obtain t where t: "pk_step u n conv num N P C a s = Some t" "pk_run u n conv num N P C as t = Some s'"
    by (auto simp: bind_eq_Some_conv)
  have "pack_bench_ok u num N P C t"
    using Cons.prems(1) t(1) pk_main_step_ok pk_producer_step_ok pk_consumer_step_ok
    by (auto simp: pk_step_def split: pk_act.splits if_splits)
  with t(2) show ?case by (rule Cons.IH [rotated])
qed simp

lemma sum_list_same: "(\<And>x. x \<in> set xs \<Longrightarrow> f x = c) \<Longrightarrow> sum_list (map f xs) = of_nat (length xs) * (c :: 'a::semiring_1)"
  by (induction xs) (auto simp: algebra_simps)

text \<open>At the report the sums differ by the values that were left in the queues.\<close>

lemma pack_bench_report:
  assumes ok: "pack_bench_ok u num N P C s" and report: "pk_main s = W_report"
  shows "prod_sum s = cons_sum s + sum_list (map num (left_over s))"
    and "pk_total_pops s + of_nat (length (left_over s)) = ucast P * ucast N"
proof -
  note facts = ok [unfolded pack_bench_ok_def]
  have ended: "\<And>p. p \<in> set (pk_producers s) \<Longrightarrow> a_pc p = A_done" "\<And>k. k \<in> set (pk_consumers s) \<Longrightarrow> k_pc k = K_done"
    using facts report by blast+
  have "sum_list (map producer_share (pk_producers s)) = 0" "sum_list (map consumer_share (pk_consumers s)) = 0"
    using ended by (simp_all add: sum_list_same [where c = 0] producer_share_def consumer_share_def)
  then show "prod_sum s = cons_sum s + sum_list (map num (left_over s))" using facts by (simp add: left_sum_def left_over_def)
  have "a_x p = N" if "p \<in> set (pk_producers s)" for p
    using facts that ended by (auto simp: pk_producer_ok_def)
  then have "sum_list (map (\<lambda>p. ucast (a_x p) :: u64) (pk_producers s)) = ucast P * ucast N"
    using facts by (simp add: sum_list_same [where c = "ucast N"])
  moreover have "consumers_pops s = map k_n (pk_consumers s)"
    using facts report ended by (intro nth_equalityI) auto
  ultimately show "pk_total_pops s + of_nat (length (left_over s)) = ucast P * ucast N"
    using facts by (simp add: pk_total_pops_def left_sum_def left_over_def ones)
qed

section \<open>A producer that starts late\<close>

text \<open>
  The loop that waits for the start waits while the state is not 0: a producer that has announced
  itself but reads the state only after the main thread has set it never gets out of it.
\<close>

definition waits_forever :: "nat \<Rightarrow> 'v pack_bench \<Rightarrow> bool" where
  "waits_forever i s \<longleftrightarrow>
     i < length (pk_producers s) \<and> a_pc (pk_producers s ! i) = A_wait \<and> benchmark_state s \<noteq> 0 \<and> pk_main s \<noteq> W_report"

lemma waits_forever_step:
  assumes "waits_forever i s" and "pk_step u n conv num N P C a s = Some s'"
  shows "waits_forever i s'"
proof (cases a)
  case Main_act
  then show ?thesis
    using assms nth_mem [of i "pk_producers s"]
    by (cases "pk_main s") (auto simp: waits_forever_def pk_step_def pk_main_step_def split: if_splits)
next
  case (Producer_act i')
  then show ?thesis
    using assms
    by (cases "i' = i"; cases "a_pc (pk_producers s ! i')")
      (auto simp: waits_forever_def pk_step_def pk_producer_step_def Let_def split: if_splits option.splits prod.splits)
next
  case (Consumer_act j)
  then show ?thesis
    using assms
    by (cases "k_pc (pk_consumers s ! j)")
      (auto simp: waits_forever_def pk_step_def pk_consumer_step_def Let_def split: if_splits option.splits prod.splits)
qed

lemma waits_forever_run:
  "waits_forever i s \<Longrightarrow> pk_run u n conv num N P C as s = Some s' \<Longrightarrow> waits_forever i s'"
proof (induction as arbitrary: s)
  case (Cons a as)
  then show ?case by (auto simp: bind_eq_Some_conv dest: waits_forever_step)
qed simp

end
