(* ===== verification/TestApp.thy ===== *)
theory TestApp
  imports MpmcInit
begin

text \<open>
  The command line of the benchmark \<^verbatim>\<open>src/q_bandwidth.cpp\<close>: how \<^verbatim>\<open>TestApp\<close> turns options into a
  configuration, which queues a configuration builds (\<^verbatim>\<open>runD\<close>, \<^verbatim>\<open>run\<close>), and when the program ends
  with an error instead. The options arrive as \<^verbatim>\<open>getopt\<close> delivers them, with the value of \<^verbatim>\<open>atoi\<close> on
  their argument; \<open>boost\<close> is the build flag \<^verbatim>\<open>COMPARE_BOOST\<close>.
\<close>

section \<open>Options\<close>

record test_app =
  ta_test :: u32
  ta_q_depth :: u32
  ta_readers :: u32
  ta_writers :: u32
  ta_data_bytes :: u32
  ta_index_bytes :: u32
  ta_millis :: u32
  ta_boost_q_flag :: bool
  ta_inplace :: bool

definition default_app :: test_app where
  "default_app = \<lparr>ta_test = 0, ta_q_depth = 32, ta_readers = 2, ta_writers = 2, ta_data_bytes = 8, ta_index_bytes = 4,
     ta_millis = 1000, ta_boost_q_flag = False, ta_inplace = True\<rparr>"

datatype 'a or_exit = Exit nat | Continue 'a

text \<open>One round of the \<^verbatim>\<open>getopt\<close> loop; the second component is \<^verbatim>\<open>atoi(optarg)\<close>.\<close>

definition take_option :: "bool \<Rightarrow> char \<times> 32 word \<Rightarrow> test_app \<Rightarrow> test_app or_exit" where
  "take_option boost opt a =
     (let (c, x) = opt
      in if c = CHR ''h'' then Exit 0
         else if c = CHR ''b'' then (if boost then Continue (a\<lparr>ta_boost_q_flag := True\<rparr>) else Exit 1)
         else if c = CHR ''m'' then Continue (a\<lparr>ta_millis := x\<rparr>)
         else if c = CHR ''t'' then Continue (a\<lparr>ta_test := x\<rparr>)
         else if c = CHR ''T'' then Exit 0
         else if c = CHR ''p'' then Continue (a\<lparr>ta_writers := x\<rparr>)
         else if c = CHR ''c'' then Continue (a\<lparr>ta_readers := x\<rparr>)
         else if c = CHR ''d'' then Continue (if 0 < sint x then a\<lparr>ta_q_depth := x\<rparr> else a)
         else if c = CHR ''w'' then Continue (a\<lparr>ta_index_bytes := x\<rparr>)
         else if c = CHR ''W'' then Continue (a\<lparr>ta_data_bytes := x\<rparr>)
         else if c = CHR ''D'' then Continue (a\<lparr>ta_inplace := False\<rparr>)
         else Exit 1)"

fun args :: "bool \<Rightarrow> (char \<times> 32 word) list \<Rightarrow> test_app \<Rightarrow> test_app or_exit" where
  "args boost [] a = Continue a"
| "args boost (opt # opts) a =
     (case take_option boost opt a of Exit c \<Rightarrow> Exit c | Continue a' \<Rightarrow> args boost opts a')"

section \<open>What is measured\<close>

text \<open>The instance of \<^verbatim>\<open>test_bandwidth_mpmc_queue\<close> that runs, with its arguments.\<close>

record bandwidth_test =
  bt_data_bytes :: nat
  bt_N :: u32
  bt_index_bits :: nat
  bt_depth :: size_t
  bt_producers :: u32
  bt_consumers :: u32
  bt_millis :: u32
  bt_boost :: bool

definition bandwidth_of :: "test_app \<Rightarrow> u32 \<Rightarrow> nat \<Rightarrow> nat \<Rightarrow> bandwidth_test" where
  "bandwidth_of a N bits bytes =
     \<lparr>bt_data_bytes = bytes, bt_N = N, bt_index_bits = bits, bt_depth = ucast (ta_q_depth a), bt_producers = ta_writers a,
      bt_consumers = ta_readers a, bt_millis = ta_millis a, bt_boost = ta_boost_q_flag a\<rparr>"

definition runD :: "u32 \<Rightarrow> test_app \<Rightarrow> bandwidth_test or_exit" where
  "runD N a =
     (if ta_index_bytes a = 4
      then (if ta_data_bytes a \<in> {1, 2, 4, 8, 12} then Continue (bandwidth_of a N 32 (unat (ta_data_bytes a))) else Exit 1)
      else if ta_index_bytes a = 8
      then (if ta_data_bytes a \<in> {1, 2, 4, 8} then Continue (bandwidth_of a N 64 (unat (ta_data_bytes a))) else Exit 1)
      else Exit 1)"

text \<open>The table of built-in tests: five places, of which three are filled.\<close>

definition builtin_test :: "nat \<Rightarrow> bandwidth_test" where
  "builtin_test bytes =
     \<lparr>bt_data_bytes = bytes, bt_N = 32, bt_index_bits = 32, bt_depth = 32, bt_producers = 1, bt_consumers = 1,
      bt_millis = 1000, bt_boost = False\<rparr>"

definition tests :: "bandwidth_test option list" where
  "tests = [Some (builtin_test 4), Some (builtin_test 8), Some (builtin_test 12), None, None]"

text \<open>An empty place holds a null function, whose call throws; \<^verbatim>\<open>main\<close> catches it and exits with 1.\<close>

definition run :: "test_app \<Rightarrow> bandwidth_test or_exit" where
  "run a =
     (if ta_test a \<noteq> 0
      then (if unat (ta_test a) > length tests then Exit 1
            else (case tests ! (unat (ta_test a) - 1) of None \<Rightarrow> Exit 1 | Some bt \<Rightarrow> Continue bt))
      else if ta_inplace a
      then (if ta_q_depth a = 1 then runD 1 a
            else if ta_q_depth a = 2 then runD 2 a
            else if ta_q_depth a = 16 then runD 16 a
            else if ta_q_depth a = 64 then runD 64 a
            else runD 0 a)
      else runD 0 a)"

text \<open>
  \<^verbatim>\<open>test_bandwidth_mpmc_queue\<close> without the comparison: it constructs one queue for each of the four
  lazy variants, one after the other; an \<^verbatim>\<open>invalid_argument\<close> ends the program with 1.
\<close>

definition constructor_of ::
  "bandwidth_test \<Rightarrow> 'v itself \<Rightarrow> 'l::len itself \<Rightarrow> (ctor_error + ('v::zero, 'l) queue) option" where
  "constructor_of bt _ _ = mpmc_queue (ucast (bt_N bt)) (bt_depth bt)"

datatype 'q measured = Exit_with nat | No_return | Queues "'q list"

fun build_four :: "(ctor_error + 'q) option \<Rightarrow> nat \<Rightarrow> 'q measured" where
  "build_four new 0 = Queues []"
| "build_four new (Suc k) =
     (case new of
        None \<Rightarrow> No_return
      | Some (Inl err) \<Rightarrow> Exit_with 1
      | Some (Inr q) \<Rightarrow> (case build_four new k of Queues qs \<Rightarrow> Queues (q # qs) | m \<Rightarrow> m))"

definition test_bandwidth_mpmc_queue ::
  "bandwidth_test \<Rightarrow> 'v itself \<Rightarrow> 'l::len itself \<Rightarrow> ('v::zero, 'l) queue measured" where
  "test_bandwidth_mpmc_queue bt v l = build_four (constructor_of bt v l) 4"

text \<open>
  \<^verbatim>\<open>main\<close> of a build without the comparison: an exception of a constructor, or of the call of an empty place, ends it with 1.
  \<open>Measures\<close> says that all queues could be built, so that the measurements run.
\<close>

datatype main_outcome = Exits nat | Measures bandwidth_test | Never_returns

fun started :: "bandwidth_test \<Rightarrow> 'q measured \<Rightarrow> main_outcome" where
  "started bt (Exit_with c) = Exits c"
| "started bt No_return = Never_returns"
| "started bt (Queues qs) = Measures bt"

definition q_bandwidth_main :: "(char \<times> 32 word) list \<Rightarrow> 'v::zero itself \<Rightarrow> main_outcome" where
  "q_bandwidth_main opts v =
     (case args False opts default_app of
        Exit c \<Rightarrow> Exits c
      | Continue a \<Rightarrow>
          (case run a of
             Exit c \<Rightarrow> Exits c
           | Continue bt \<Rightarrow>
               if bt_index_bits bt = 64 then started bt (test_bandwidth_mpmc_queue bt v TYPE(64))
               else started bt (test_bandwidth_mpmc_queue bt v TYPE(32))))"

section \<open>Properties\<close>

text \<open>The sizes of a configuration agree: the compile time size is 0 or the depth asked for.\<close>

lemma run_sizes:
  assumes "run a = Continue bt"
  shows "bt_N bt = 0 \<or> (ucast (bt_N bt) :: size_t) = bt_depth bt"
proof -
  have D: "(N = 0 \<or> N = ta_q_depth a) \<Longrightarrow> runD N a = Continue bt \<Longrightarrow>
      bt_N bt = 0 \<or> (ucast (bt_N bt) :: size_t) = bt_depth bt" for N
    by (auto simp: runD_def bandwidth_of_def split: if_splits)
  show ?thesis
  proof (cases "ta_test a = 0")
    case True
    with assms D [of 0] D [of "ta_q_depth a"] show ?thesis by (auto simp: run_def split: if_splits)
  next
    case False
    then have "1 \<le> unat (ta_test a)" by (metis One_nat_def Suc_leI unat_gt_0)
    moreover have "unat (ta_test a) \<le> 5" using assms False by (auto simp: run_def tests_def split: if_splits)
    ultimately have "unat (ta_test a) - 1 \<in> {0, 1, 2, 3, 4}" by auto
    with assms False show ?thesis
      by (auto simp: run_def tests_def builtin_test_def split: if_splits)
  qed
qed

lemma build_four_same:
  "new = Some (Inr q) \<Longrightarrow> build_four new k = Queues (replicate k q)"
  "new = Some (Inl err) \<Longrightarrow> 0 < k \<Longrightarrow> build_four new k = Exit_with 1"
  by (induction k) auto

text \<open>The depth of an accepted configuration is a positive \<^verbatim>\<open>int\<close>.\<close>

definition depth_ok :: "test_app \<Rightarrow> bool" where
  "depth_ok a \<longleftrightarrow> 0 < unat (ta_q_depth a) \<and> unat (ta_q_depth a) < 2 ^ 31"

lemma sint_pos_bounds:
  fixes x :: u32
  assumes "0 < sint x"
  shows "0 < unat x \<and> unat x < 2 ^ 31"
proof -
  have lt: "sint x < 2 ^ 31" using sint_lt [of x] by simp
  then have "uint x = sint x" using assms by (simp add: uint_sint take_bit_int_eq_self)
  with lt assms show ?thesis by (simp add: unat_eq_nat_uint nat_less_iff)
qed

lemma take_option_depth: "depth_ok a \<Longrightarrow> take_option boost opt a = Continue a' \<Longrightarrow> depth_ok a'"
  using sint_pos_bounds [of "snd opt"]
  by (cases opt) (auto simp: take_option_def depth_ok_def Let_def split: if_splits)

lemma args_depth: "depth_ok a \<Longrightarrow> args boost opts a = Continue a' \<Longrightarrow> depth_ok a'"
  by (induction boost opts a rule: args.induct) (auto split: or_exit.splits intro: take_option_depth)

lemma runD_depth: "runD N a = Continue bt \<Longrightarrow> bt_depth bt = ucast (ta_q_depth a) \<and> bt_index_bits bt \<in> {32, 64}"
  by (auto simp: runD_def bandwidth_of_def split: if_splits)

lemma builtin_run:
  assumes "run a = Continue bt" and "ta_test a \<noteq> 0"
  obtains bytes where "bt = builtin_test bytes"
proof -
  have "1 \<le> unat (ta_test a)" using assms(2) by (metis One_nat_def Suc_leI unat_gt_0)
  moreover have "unat (ta_test a) \<le> 5" using assms by (auto simp: run_def tests_def split: if_splits)
  ultimately have "unat (ta_test a) - 1 \<in> {0, 1, 2, 3, 4}" by auto
  then obtain bytes where "tests ! (unat (ta_test a) - 1) = None \<or> tests ! (unat (ta_test a) - 1) = Some (builtin_test bytes)"
    by (auto simp: tests_def)
  with assms that show ?thesis by (auto simp: run_def split: if_splits)
qed

lemma run_static:
  assumes "run a = Continue bt"
  shows "bt_N bt \<in> {0, 1, 2, 16, 32, 64}"
proof (cases "ta_test a = 0")
  case True
  then obtain N where "runD N a = Continue bt" "N \<in> {0, 1, 2, 16, 64}" using assms by (auto simp: run_def split: if_splits)
  then show ?thesis by (auto simp: runD_def bandwidth_of_def split: if_splits)
next
  case False
  obtain bytes where "bt = builtin_test bytes" using builtin_run [OF assms False] .
  then show ?thesis by (simp add: builtin_test_def)
qed

lemma run_depth:
  assumes "depth_ok a" and "run a = Continue bt"
  shows "0 < unat (bt_depth bt)" and "unat (bt_depth bt) < 2 ^ 31" and "bt_index_bits bt \<in> {32, 64}"
proof -
  have wide: "unat (ucast (ta_q_depth a) :: size_t) = unat (ta_q_depth a)"
    by (simp add: unsigned_ucast_eq take_bit_nat_eq_self less_trans [OF unsigned_less [of "ta_q_depth a"]])
  have "0 < unat (bt_depth bt) \<and> unat (bt_depth bt) < 2 ^ 31 \<and> bt_index_bits bt \<in> {32, 64}"
  proof (cases "ta_test a = 0")
    case True
    then obtain N where "runD N a = Continue bt" using assms(2) by (auto simp: run_def split: if_splits)
    from runD_depth [OF this] wide assms(1) show ?thesis by (auto simp: depth_ok_def)
  next
    case False
    obtain bytes where "bt = builtin_test bytes" using builtin_run [OF assms(2) False] .
    then show ?thesis by (simp add: builtin_test_def)
  qed
  then show "0 < unat (bt_depth bt)" and "unat (bt_depth bt) < 2 ^ 31" and "bt_index_bits bt \<in> {32, 64}" by auto
qed

text \<open>So the constructor decides by the power of two alone.\<close>

lemma accepted_queues:
  assumes "depth_ok a" and "run a = Continue bt" and "LENGTH('l::len) = bt_index_bits bt"
  shows "if \<exists>k. unat (bt_depth bt) = 2 ^ k
    then \<exists>q :: ('v::zero, 'l) queue. test_bandwidth_mpmc_queue bt TYPE('v) TYPE('l) = Queues (replicate 4 q) \<and>
      rep q (unat (bt_depth bt)) 0 0 0 []
    else test_bandwidth_mpmc_queue bt TYPE('v) TYPE('l) = Exit_with 1"
proof -
  note depth = run_depth [OF assms(1,2)]
  have w: "LENGTH('l) \<in> {32, 64}" "LENGTH('l) \<le> 64" using depth(3) assms(3) by auto
  have N: "ucast (bt_N bt) = (0 :: size_t) \<or> (ucast (bt_N bt) :: size_t) = bt_depth bt" using run_sizes [OF assms(2)] by auto
  show ?thesis
  proof (cases "\<exists>k. unat (bt_depth bt) = 2 ^ k")
    case True
    then obtain k where k: "unat (bt_depth bt) = 2 ^ k" by blast
    then have "(2::nat) ^ k < 2 ^ 31" using depth(2) by simp
    then have "k < 31" by (rule power_less_imp_less_exp [rotated]) simp
    then have room: "k + 2 \<le> LENGTH('l)" "k < LENGTH(64)" using w by auto
    have "bt_depth bt AND (bt_depth bt - 1) = 0" using and_pred_pow2(2) [OF room(2) k] by simp
    then have "inplace_static_assert (bt_depth bt)" using depth(1) by (auto simp: inplace_static_assert_def word_gt_0)
    then obtain q :: "('v, 'l) queue" where "constructor_of bt TYPE('v) TYPE('l) = Some (Inr q)" "rep q (2 ^ k) 0 0 0 []"
      using N ctor_runtime [OF k room(1) w(2), where 'v = 'v] ctor_static [OF _ k room(1) w(2), where 'v = 'v]
      by (auto simp: constructor_of_def)
    with k show ?thesis using build_four_same(1) [of "constructor_of bt TYPE('v) TYPE('l)" q 4]
      by (auto simp: test_bandwidth_mpmc_queue_def)
  next
    case False
    have "ucast (bt_N bt) = (0 :: size_t)"
    proof (rule ccontr)
      assume "ucast (bt_N bt) \<noteq> (0 :: size_t)"
      then have "bt_depth bt \<in> {1, 2, 16, 32, 64}" using N run_static [OF assms(2)] by auto
      then have "unat (bt_depth bt) \<in> {2 ^ 0, 2 ^ 1, 2 ^ 4, 2 ^ 5, 2 ^ 6}" by auto
      with False show False by blast
    qed
    moreover have "bt_depth bt \<noteq> 0" using depth(1) by auto
    then have "bt_depth bt AND (bt_depth bt - 1) \<noteq> 0" using False word_pow2_and [of "bt_depth bt"] by blast
    ultimately have "constructor_of bt TYPE('v) TYPE('l) = (Some (Inl Invalid_argument) :: (ctor_error + ('v, 'l) queue) option)"
      using ctor_refuses(2) by (simp add: constructor_of_def)
    from build_four_same(2) [OF this, of 4] False show ?thesis by (simp add: test_bandwidth_mpmc_queue_def)
  qed
qed

lemma main_outcomes:
  assumes "args False opts default_app = Continue a" and "run a = Continue bt"
  shows "q_bandwidth_main opts TYPE('v::zero) = (if \<exists>k. unat (bt_depth bt) = 2 ^ k then Measures bt else Exits 1)"
proof -
  have ok: "depth_ok a" by (rule args_depth [OF _ assms(1)]) (simp add: depth_ok_def default_app_def)
  from run_depth(3) [OF ok assms(2)] consider "bt_index_bits bt = 32" | "bt_index_bits bt = 64" by auto
  then show ?thesis
  proof cases
    case 1
    with accepted_queues [OF ok assms(2), where 'l = 32 and 'v = 'v] assms show ?thesis
      by (auto simp: q_bandwidth_main_def split: if_splits)
  next
    case 2
    with accepted_queues [OF ok assms(2), where 'l = 64 and 'v = 'v] assms show ?thesis
      by (auto simp: q_bandwidth_main_def split: if_splits)
  qed
qed

end
