(* ===== verification/TestSuite.thy ===== *)
theory TestSuite
  imports MpmcInit HashSig "HOL-Library.Monad_Syntax"
begin

text \<open>
  The sequential tests of \<^verbatim>\<open>src/gtest_mpmc_queue.cpp\<close> as definitions over the model: a test is a
  computation that returns whether all its expectations hold, \<open>None\<close> if a call in it does not return.
  The helper templates are shown to pass on every queue of the model that is empty at the start, not only on the sizes
  that the tests choose. A queue of \<^verbatim>\<open>int\<close> with an \<^verbatim>\<open>unsigned\<close> index is an \<open>int_queue\<close>; \<open>lp\<close> and
  \<open>lo\<close> are the two flags of its type.
\<close>

type_synonym int_queue = "(32 word, 32) queue"

section \<open>The helper templates\<close>

definition testPushPop :: "bool \<Rightarrow> bool \<Rightarrow> int_queue \<Rightarrow> (bool \<times> int_queue) option" where
  "testPushPop lp lo qut = do {
     let w = 199; let r = 0;
     (_, qut) \<leftarrow> push lp w qut;
     (_, r, qut) \<leftarrow> pop lo r qut;
     let ok = (w = r);
     let wq = 199; let rq = 0;
     (_, qut) \<leftarrow> enqueue lp wq qut;
     (_, rq, qut) \<leftarrow> dequeue lo rq qut;
     Some (ok \<and> wq = rq, qut)
   }"

text \<open>The loops: \<^verbatim>\<open>for (wloop = 0; qut.push(w); wloop++) w++\<close>, and popping while the values count up.\<close>

definition fill_body ::
  "bool \<Rightarrow> 32 word \<times> u32 \<times> int_queue \<Rightarrow> (32 word \<times> u32 \<times> int_queue, 32 word \<times> u32 \<times> int_queue) turn option" where
  "fill_body lp s = (case s of (w, wloop, qut) \<Rightarrow> do {
     (ok, qut) \<leftarrow> push lp w qut;
     Some (if ok then Loop (w + 1, wloop + 1, qut) else Return (w, wloop, qut))
   })"

definition count_body ::
  "bool \<Rightarrow> size_t \<Rightarrow> 32 word \<times> u32 \<times> int_queue \<Rightarrow> (32 word \<times> u32 \<times> int_queue, 32 word \<times> u32 \<times> int_queue) turn option" where
  "count_body lo off s = (case s of (r, rloop, qut) \<Rightarrow> do {
     (ok, r, qut) \<leftarrow> pop lo r qut;
     Some (if ok \<and> r = ucast (ucast rloop + off) then Loop (r, rloop + 1, qut) else Return (r, rloop, qut))
   })"

definition testFullEmpty1 :: "bool \<Rightarrow> bool \<Rightarrow> int_queue \<Rightarrow> (bool \<times> int_queue) option" where
  "testFullEmpty1 lp lo qut = do {
     (w, _, qut) \<leftarrow> spin (fill_body lp) (0, 0, qut);
     (r, _, qut) \<leftarrow> spin (count_body lo 0) (0, 0, qut);
     (w, wloop, qut) \<leftarrow> spin (fill_body lp) (w, 0, qut);
     (r, rloop, qut) \<leftarrow> spin (count_body lo (capacity qut)) (r, 0, qut);
     Some (wloop = rloop \<and> ucast wloop = capacity qut, qut)
   }"

text \<open>The same with the indexed calls, and a \<^verbatim>\<open>peek\<close> before each pop; \<open>&&\<close> stops at the first failure.\<close>

definition fill_index_body ::
  "bool \<Rightarrow> size_t \<Rightarrow> 32 word \<times> 32 word \<times> u32 \<times> int_queue
     \<Rightarrow> (32 word \<times> 32 word \<times> u32 \<times> int_queue, 32 word \<times> 32 word \<times> u32 \<times> int_queue) turn option" where
  "fill_index_body lp off s = (case s of (w, wi, wloop, qut) \<Rightarrow> do {
     (ok, wi, qut) \<leftarrow> push_index lp w wi qut;
     Some (if ok \<and> ucast wi = ucast wloop + off then Loop (w + 1, wi, wloop + 1, qut) else Return (w, wi, wloop, qut))
   })"

definition peek_pop ::
  "bool \<Rightarrow> 32 word \<Rightarrow> size_t \<Rightarrow> 32 word \<Rightarrow> 32 word \<Rightarrow> int_queue \<Rightarrow> (bool \<times> 32 word \<times> 32 word \<times> int_queue) option" where
  "peek_pop lo val pos r ri qut = do {
     (ok, r, qut) \<leftarrow> peek r qut;
     if ok \<and> r = val
     then do {
       (ok, r, ri, qut) \<leftarrow> pop_index lo r ri qut;
       Some (ok \<and> r = val \<and> ucast ri = pos, r, ri, qut)
     }
     else Some (False, r, ri, qut)
   }"

definition count_index_body ::
  "bool \<Rightarrow> size_t \<Rightarrow> 32 word \<times> 32 word \<times> u32 \<times> int_queue
     \<Rightarrow> (32 word \<times> 32 word \<times> u32 \<times> int_queue, 32 word \<times> 32 word \<times> u32 \<times> int_queue) turn option" where
  "count_index_body lo off s = (case s of (r, ri, rloop, qut) \<Rightarrow> do {
     (ok, r, ri, qut) \<leftarrow> peek_pop lo (ucast (ucast rloop + off)) (ucast rloop + off) r ri qut;
     Some (if ok then Loop (r, ri, rloop + 1, qut) else Return (r, ri, rloop, qut))
   })"

definition testFullEmptyIndex :: "bool \<Rightarrow> bool \<Rightarrow> int_queue \<Rightarrow> (bool \<times> int_queue) option" where
  "testFullEmptyIndex lp lo qut = do {
     (w, wi, _, qut) \<leftarrow> spin (fill_index_body lp 0) (0, 0, 0, qut);
     (r, ri, _, qut) \<leftarrow> spin (count_index_body lo 0) (0, 0, 0, qut);
     (w, wi, wloop, qut) \<leftarrow> spin (fill_index_body lp (capacity qut)) (w, wi, 0, qut);
     (r, ri, rloop, qut) \<leftarrow> spin (count_index_body lo (capacity qut)) (r, ri, 0, qut);
     Some (wloop = rloop \<and> ucast wloop = capacity qut, qut)
   }"

text \<open>\<open>junk\<close> is the uninitialised variable of \<^verbatim>\<open>push_keep_n\<close>.\<close>

definition keep_n_loop_body ::
  "bool \<Rightarrow> bool \<Rightarrow> 32 word \<Rightarrow> 32 word \<times> 32 word \<times> u32 \<times> int_queue
     \<Rightarrow> (32 word \<times> 32 word \<times> u32 \<times> int_queue, 32 word \<times> 32 word \<times> u32 \<times> int_queue) turn option" where
  "keep_n_loop_body lp lo junk s = (case s of (w, wi, wloop, qut) \<Rightarrow>
     if ucast wloop < capacity qut
     then do {
       (ok, wi, qut) \<leftarrow> push_keep_n_index lp lo junk w wi qut;
       Some (if ok \<and> ucast wi = ucast wloop + capacity qut then Loop (w + 1, wi, wloop + 1, qut)
             else Return (w, wi, wloop, qut))
     }
     else Some (Return (w, wi, wloop, qut)))"

definition keep_n_count_body ::
  "bool \<Rightarrow> u32 \<Rightarrow> bool \<times> 32 word \<times> 32 word \<times> u32 \<times> int_queue
     \<Rightarrow> (bool \<times> 32 word \<times> 32 word \<times> u32 \<times> int_queue, bool \<times> 32 word \<times> 32 word \<times> u32 \<times> int_queue) turn option" where
  "keep_n_count_body lo z s = (case s of (good, r, ri, rloop, qut) \<Rightarrow>
     if ucast rloop < capacity qut
     then do {
       (ok, r, ri, qut) \<leftarrow> peek_pop lo (rloop + z) (ucast rloop + capacity qut) r ri qut;
       Some (if ok then Loop (good \<and> r = rloop + z, r, ri, rloop + 1, qut) else Return (good, r, ri, rloop, qut))
     }
     else Some (Return (good, r, ri, rloop, qut)))"

definition testFullEmptyKeepN :: "32 word \<Rightarrow> bool \<Rightarrow> bool \<Rightarrow> int_queue \<Rightarrow> (bool \<times> int_queue) option" where
  "testFullEmptyKeepN junk lp lo qut = do {
     let z = 93;
     (w, wi, _, qut) \<leftarrow> spin (fill_index_body lp 0) (0, 0, 0, qut);
     let w = z;
     (w, wi, wloop, qut) \<leftarrow> spin (keep_n_loop_body lp lo junk) (w, wi, 0, qut);
     (good, r, ri, rloop, qut) \<leftarrow> spin (keep_n_count_body lo z) (True, 0, 0, 0, qut);
     Some (good \<and> wloop = rloop \<and> ucast wloop = capacity qut, qut)
   }"

definition push_pop_index_expect ::
  "bool \<Rightarrow> bool \<Rightarrow> 32 word \<Rightarrow> 32 word \<Rightarrow> 32 word \<times> 32 word \<times> 32 word \<times> int_queue
     \<Rightarrow> (bool \<times> 32 word \<times> 32 word \<times> 32 word \<times> int_queue) option" where
  "push_pop_index_expect lp lo v pos s = (case s of (r, wi, ri, qut) \<Rightarrow> do {
     (ok, wi, qut) \<leftarrow> push_index lp v wi qut;
     if ok \<and> wi = pos
     then do {
       (ok, r, ri, qut) \<leftarrow> pop_index lo r ri qut;
       Some (ok \<and> r = v \<and> ri = pos, r, wi, ri, qut)
     }
     else Some (False, r, wi, ri, qut)
   })"

definition push_pop_expect ::
  "bool \<Rightarrow> bool \<Rightarrow> 32 word \<Rightarrow> 32 word \<times> int_queue \<Rightarrow> (bool \<times> 32 word \<times> int_queue) option" where
  "push_pop_expect lp lo v s = (case s of (r, qut) \<Rightarrow> do {
     (ok, qut) \<leftarrow> push lp v qut;
     if ok
     then do {
       (ok, r, qut) \<leftarrow> pop lo r qut;
       Some (ok \<and> r = v, r, qut)
     }
     else Some (False, r, qut)
   })"

definition testPushPopOne :: "bool \<Rightarrow> bool \<Rightarrow> int_queue \<Rightarrow> (bool \<times> int_queue) option" where
  "testPushPopOne lp lo qut = do {
     (ok1, r, wi, ri, qut) \<leftarrow> push_pop_index_expect lp lo 11 0 (0, 0, 0, qut);
     (ok2, r, wi, ri, qut) \<leftarrow> push_pop_index_expect lp lo 22 1 (r, wi, ri, qut);
     (ok3, r, qut) \<leftarrow> push_pop_expect lp lo 33 (r, qut);
     (ok4, r, qut) \<leftarrow> push_pop_expect lp lo 44 (r, qut);
     (ok5, r, qut) \<leftarrow> push_pop_expect lp lo 55 (r, qut);
     Some (ok1 \<and> ok2 \<and> ok3 \<and> ok4 \<and> ok5, qut)
   }"

section \<open>They pass on every empty queue\<close>

text \<open>Counting values from \<open>v\<close> on.\<close>

fun count_from :: "32 word \<Rightarrow> nat \<Rightarrow> 32 word list" where
  "count_from v 0 = []"
| "count_from v (Suc m) = v # count_from (v + 1) m"

lemma length_count_from [simp]: "length (count_from v m) = m"
  by (induction v m rule: count_from.induct) simp_all

lemma holds_capacity: "holds q n h xs \<Longrightarrow> capacity q = of_nat n"
  by (auto simp: holds_def dest: shape_bounds(5) [OF rep_shape])

lemma holds_small:
  fixes q :: int_queue
  assumes "holds q n h xs"
  shows "n \<le> 2 ^ 30"
  using assms shape_bounds(2) [OF rep_shape, of q n] by (auto simp: holds_def half_range_def)

lemma widen_small: "k < 2 ^ 32 \<Longrightarrow> (ucast (of_nat k :: u32) :: size_t) = of_nat k"
  by (simp add: widen_of_nat)

lemma testPushPop_passes:
  assumes "holds qut n h []"
  shows "\<exists>qut'. testPushPop lp lo qut = Some (True, qut') \<and> holds qut' n (h + 2) []"
proof -
  have n: "0 < n" using holds_bound [OF assms] by simp
  obtain q1 where q1: "push lp 199 qut = Some (True, q1)" "holds q1 n h [199]"
    using mpmc.push_room [OF assms, of lp 199] n by auto
  obtain q2 where q2: "pop lo 0 q1 = Some (True, 199, q2)" "holds q2 n (h + 1) []"
    using mpmc.pop_some [OF q1(2), of lo 0] by auto
  obtain q3 where q3: "push lp 199 q2 = Some (True, q3)" "holds q3 n (h + 1) [199]"
    using mpmc.push_room [OF q2(2), of lp 199] n by auto
  obtain q4 where q4: "pop lo 0 q3 = Some (True, 199, q4)" "holds q4 n (h + 2) []"
    using mpmc.pop_some [OF q3(2), of lo 0] by auto
  show ?thesis using q1 q2 q3 q4 by (simp add: testPushPop_def enqueue_def dequeue_def)
qed

lemma fill_passes:
  assumes "holds qut n h xs"
  shows "\<exists>qut'. spin (fill_body lp) (w, k, qut) = Some (w + of_nat (n - length xs), k + of_nat (n - length xs), qut') \<and>
    holds qut' n h (xs @ count_from w (n - length xs))"
  using assms
proof (induction "n - length xs" arbitrary: w k qut xs)
  case 0
  then have "length xs = n" using holds_bound by fastforce
  with mpmc.push_full [OF "0.prems" this, of lp w] obtain q1 where
    q1: "push lp w qut = Some (False, q1)" "holds q1 n h xs" and len: "length xs = n" by blast
  have "spin (fill_body lp) (w, k, qut) = Some (w, k, q1)"
    using q1(1) by (intro spin_Return) (simp add: fill_body_def)
  with q1(2) len show ?case by simp
next
  case (Suc m)
  then have lt: "length xs < n" by simp
  obtain q1 where q1: "push lp w qut = Some (True, q1)" "holds q1 n h (xs @ [w])"
    using mpmc.push_room [OF Suc.prems lt, of lp w] by blast
  have loop: "spin (fill_body lp) (w, k, qut) = spin (fill_body lp) (w + 1, k + 1, q1)"
    using q1(1) by (intro spin_Loop) (simp add: fill_body_def)
  have m: "m = n - length (xs @ [w])" using Suc.hyps(2) by simp
  have count: "xs @ count_from w (n - length xs) = (xs @ [w]) @ count_from (w + 1) (n - length (xs @ [w]))"
    unfolding Suc.hyps(2) [symmetric] m [symmetric] by simp
  from Suc.hyps(1) [OF m q1(2), of "w + 1" "k + 1", folded m] obtain q2 where
    q2: "spin (fill_body lp) (w + 1, k + 1, q1) = Some (w + 1 + of_nat m, k + 1 + of_nat m, q2)"
      "holds q2 n h ((xs @ [w]) @ count_from (w + 1) m)" by blast
  have "(w + 1 + of_nat m :: 32 word) = w + of_nat (Suc m)" "(k + 1 + of_nat m :: u32) = k + of_nat (Suc m)" by simp_all
  with q2 show ?case unfolding loop count Suc.hyps(2) [symmetric] m [symmetric] by auto
qed

lemma expected_value: "(ucast (ucast (of_nat k :: u32) + of_nat off :: size_t) :: 32 word) = of_nat (k + off)"
  using narrow_widen_add [where 'l = 32] by (simp add: ac_simps)

lemma count_passes:
  assumes "holds qut n h (count_from (of_nat (k + off)) m)"
  shows "\<exists>r' qut'. spin (count_body lo (of_nat off)) (r, of_nat k, qut) = Some (r', of_nat (k + m), qut') \<and>
    holds qut' n (h + m) []"
  using assms
proof (induction m arbitrary: r k qut h)
  case 0
  then have "holds qut n h []" by simp
  from mpmc.pop_none [OF this, of lo r] obtain q1 where q1: "pop lo r qut = Some (False, r, q1)" "holds q1 n h []" by blast
  then have "spin (count_body lo (of_nat off)) (r, of_nat k, qut) = Some (r, of_nat k, q1)"
    by (intro spin_Return) (simp add: count_body_def)
  with q1(2) show ?case by auto
next
  case (Suc m)
  then have "holds qut n h (of_nat (k + off) # count_from (of_nat (Suc k + off)) m)" by (simp add: ac_simps)
  from mpmc.pop_some [OF this, of lo r] obtain q1 where
    q1: "pop lo r qut = Some (True, of_nat (k + off), q1)" "holds q1 n (h + 1) (count_from (of_nat (Suc k + off)) m)" by blast
  have "spin (count_body lo (of_nat off)) (r, of_nat k, qut) = spin (count_body lo (of_nat off)) (of_nat (k + off), of_nat (Suc k), q1)"
    using q1(1) expected_value [of k off] by (intro spin_Loop) (simp add: count_body_def ac_simps)
  with Suc.IH [OF q1(2), of "of_nat (k + off)"] show ?case by simp
qed

lemma testFullEmpty1_passes:
  assumes q: "holds qut n h []"
  shows "\<exists>qut'. testFullEmpty1 lp lo qut = Some (True, qut') \<and> holds qut' n (h + 2 * n) []"
proof -
  obtain q1 where q1: "spin (fill_body lp) (0, 0, qut) = Some (of_nat n, of_nat n, q1)" "holds q1 n h (count_from 0 n)"
    using fill_passes [OF q, of lp 0 0] by auto
  obtain r2 q2 where q2: "spin (count_body lo 0) (0, 0, q1) = Some (r2, of_nat n, q2)" "holds q2 n (h + n) []"
    using count_passes [of q1 n h 0 0 n lo 0] q1(2) by auto
  obtain q3 where q3: "spin (fill_body lp) (of_nat n, 0, q2) = Some (of_nat n + of_nat n, of_nat n, q3)"
      "holds q3 n (h + n) (count_from (of_nat n) n)"
    using fill_passes [OF q2(2), of lp "of_nat n" 0] by auto
  have cap: "capacity q3 = of_nat n" using holds_capacity [OF q3(2)] by simp
  obtain r4 q4 where q4: "spin (count_body lo (of_nat n)) (r2, 0, q3) = Some (r4, of_nat n, q4)" "holds q4 n (h + n + n) []"
    using count_passes [of q3 n "h + n" 0 n n lo r2] q3(2) by auto
  have wide: "(ucast (of_nat n :: u32) :: size_t) = of_nat n" using holds_small [OF q] by (intro widen_small) simp
  have "testFullEmpty1 lp lo qut = Some (True, q4)"
    using wide holds_capacity [OF q4(2)] by (simp add: testFullEmpty1_def q1(1) q2(1) q3(1) q4(1) cap)
  moreover have "holds q4 n (h + 2 * n) []" using q4(2) by (simp add: mult_2 add.assoc)
  ultimately show ?thesis by blast
qed

text \<open>\<open>peek\<close> returns on a queue that is in the lower half of its index range.\<close>

lemma peek_holds:
  fixes q :: "('v::zero, 'l::len) queue"
  assumes "holds q n h xs" and "h + n \<le> half_range TYPE('l)"
  shows "\<exists>q'. peek d q = Some (if xs = [] then (False, d, q') else (True, hd xs, q')) \<and> holds q' n h xs"
proof -
  obtain w r where rep: "rep q n w r h xs" using assms(1) by (auto simp: holds_def)
  have "lag_visible TYPE('l) n r h"
  proof (cases "r = h")
    case False
    then have "r + n < half_range TYPE('l)" using rep_indexes [OF rep] assms(2) by simp
    then show ?thesis by (simp add: lag_visible_def)
  qed (simp add: lag_visible_def)
  from peek_correct [OF rep this] show ?thesis unfolding holds_def by blast
qed

lemma peek_pop_some:
  fixes q :: int_queue
  assumes q: "holds q n h (v # xs)" and h: "h + n \<le> 2 ^ 31"
  shows "\<exists>q'. peek_pop lo v (of_nat h) r ri q = Some (True, v, of_nat h, q') \<and> holds q' n (h + 1) xs"
proof -
  obtain q1 where q1: "peek r q = Some (True, v, q1)" "holds q1 n h (v # xs)"
    using peek_holds [OF q, of r] h by (auto simp: half_range_def)
  obtain q2 where q2: "pop_index lo v ri q1 = Some (True, v, of_nat h, q2)" "holds q2 n (h + 1) xs"
    using mpmc.pop_index_some [OF q1(2), of lo v ri] by blast
  have "(ucast (of_nat h :: u32) :: size_t) = of_nat h" using h by (intro widen_small) simp
  with q1(1) q2 show ?thesis by (auto simp: peek_pop_def)
qed

lemma peek_pop_none:
  fixes q :: int_queue
  assumes q: "holds q n h []" and h: "h + n \<le> 2 ^ 31"
  shows "\<exists>q'. peek_pop lo v pos r ri q = Some (False, r, ri, q') \<and> holds q' n h []"
  using peek_holds [OF q, of r] h by (auto simp: peek_pop_def half_range_def)

lemma widen_add: "k + off < 2 ^ 32 \<Longrightarrow> (ucast (of_nat k :: u32) + of_nat off :: size_t) = of_nat (k + off)"
  using widen_small [of k] by simp

lemma widen_less: "k < n \<Longrightarrow> n < 2 ^ 32 \<Longrightarrow> (ucast (of_nat k :: u32) :: size_t) < of_nat n"
  using widen_small [of k] by (simp add: word_less_nat_alt unsigned_of_nat take_bit_nat_eq_self)

lemma fill_index_passes:
  assumes "holds qut n h xs" and "k + off = h + length xs" and "h + n < 2 ^ 32"
  shows "\<exists>wi' qut'. spin (fill_index_body lp (of_nat off)) (w, wi, of_nat k, qut) =
      Some (w + of_nat (n - length xs), wi', of_nat (k + (n - length xs)), qut') \<and>
    holds qut' n h (xs @ count_from w (n - length xs))"
  using assms(1,2)
proof (induction "n - length xs" arbitrary: w wi k qut xs)
  case 0
  then have "length xs = n" using holds_bound by fastforce
  with mpmc.push_index_full [OF "0.prems"(1) this, of lp w wi] obtain q1 where
    q1: "push_index lp w wi qut = Some (False, wi, q1)" "holds q1 n h xs" and len: "length xs = n" by blast
  have "spin (fill_index_body lp (of_nat off)) (w, wi, of_nat k, qut) = Some (w, wi, of_nat k, q1)"
    using q1(1) by (intro spin_Return) (simp add: fill_index_body_def)
  with q1(2) len show ?case by simp
next
  case (Suc m)
  then have lt: "length xs < n" by simp
  obtain q1 where q1: "push_index lp w wi qut = Some (True, of_nat (h + length xs), q1)" "holds q1 n h (xs @ [w])"
    using mpmc.push_index_room [OF Suc.prems(1) lt, of lp w wi] by blast
  have small: "h + length xs < 2 ^ 32" using assms(3) lt by simp
  have "(ucast (of_nat (h + length xs) :: u32) :: size_t) = of_nat (h + length xs)" by (rule widen_small [OF small])
  moreover have "(ucast (of_nat k :: u32) + of_nat off :: size_t) = of_nat (h + length xs)"
    using widen_add [of k off] small Suc.prems(2) by simp
  ultimately have loop: "spin (fill_index_body lp (of_nat off)) (w, wi, of_nat k, qut) =
      spin (fill_index_body lp (of_nat off)) (w + 1, of_nat (h + length xs), of_nat (Suc k), q1)"
    using q1(1) by (intro spin_Loop) (simp add: fill_index_body_def ac_simps)
  have m: "m = n - length (xs @ [w])" using Suc.hyps(2) by simp
  have k: "Suc k + off = h + length (xs @ [w])" using Suc.prems(2) by simp
  have count: "xs @ count_from w (n - length xs) = (xs @ [w]) @ count_from (w + 1) (n - length (xs @ [w]))"
    unfolding Suc.hyps(2) [symmetric] m [symmetric] by simp
  from Suc.hyps(1) [OF m q1(2) k, of "w + 1" "of_nat (h + length xs)", folded m] obtain wi' q2 where
    q2: "spin (fill_index_body lp (of_nat off)) (w + 1, of_nat (h + length xs), of_nat (Suc k), q1) =
        Some (w + 1 + of_nat m, wi', of_nat (Suc k + m), q2)"
      "holds q2 n h ((xs @ [w]) @ count_from (w + 1) m)" by blast
  have "(w + 1 + of_nat m :: 32 word) = w + of_nat (Suc m)" "Suc k + m = k + Suc m" by simp_all
  with q2 show ?case unfolding loop count Suc.hyps(2) [symmetric] m [symmetric] by auto
qed

lemma count_index_passes:
  assumes "holds qut n h (count_from (of_nat h) m)" and "k + off = h" and "h + m + n \<le> 2 ^ 31"
  shows "\<exists>r' ri' qut'. spin (count_index_body lo (of_nat off)) (r, ri, of_nat k, qut) = Some (r', ri', of_nat (k + m), qut') \<and>
    holds qut' n (h + m) []"
  using assms
proof (induction m arbitrary: r ri k qut h)
  case 0
  then have "holds qut n h []" "h + n \<le> 2 ^ 31" by simp_all
  from peek_pop_none [OF this, of lo "ucast (ucast (of_nat k :: u32) + of_nat off :: size_t)" "ucast (of_nat k :: u32) + of_nat off" r ri]
  obtain q1 where "peek_pop lo (ucast (ucast (of_nat k :: u32) + of_nat off :: size_t)) (ucast (of_nat k :: u32) + of_nat off) r ri qut =
      Some (False, r, ri, q1)" "holds q1 n h []" by blast
  moreover from this have "spin (count_index_body lo (of_nat off)) (r, ri, of_nat k, qut) = Some (r, ri, of_nat k, q1)"
    by (intro spin_Return) (simp add: count_index_body_def)
  ultimately show ?case by auto
next
  case (Suc m)
  have q: "holds qut n h (of_nat h # count_from (of_nat (h + 1)) m)" and h: "h + n \<le> 2 ^ 31"
    using Suc.prems(1,3) by (simp_all add: ac_simps)
  from peek_pop_some [OF this, of lo r ri] obtain q1 where
    q1: "peek_pop lo (of_nat h) (of_nat h) r ri qut = Some (True, of_nat h, of_nat h, q1)"
      "holds q1 n (h + 1) (count_from (of_nat (h + 1)) m)" by blast
  have pos: "(ucast (of_nat k :: u32) + of_nat off :: size_t) = of_nat h" using widen_add [of k off] Suc.prems(2,3) by simp
  have val: "(ucast (of_nat h :: size_t) :: 32 word) = of_nat h" by (rule narrow_of_nat) simp
  have "spin (count_index_body lo (of_nat off)) (r, ri, of_nat k, qut) =
      spin (count_index_body lo (of_nat off)) (of_nat h, of_nat h, of_nat (Suc k), q1)"
    using q1(1) by (intro spin_Loop) (simp add: count_index_body_def pos val add.commute [of 1])
  with Suc.IH [OF q1(2), of "Suc k" "of_nat h" "of_nat h"] Suc.prems(2,3) show ?case by simp
qed

lemma testFullEmptyIndex_passes:
  assumes q: "holds qut n 0 []" and n: "3 * n \<le> 2 ^ 31"
  shows "\<exists>qut'. testFullEmptyIndex lp lo qut = Some (True, qut') \<and> holds qut' n (2 * n) []"
proof -
  obtain wi1 q1 where q1: "spin (fill_index_body lp 0) (0, 0, 0, qut) = Some (of_nat n, wi1, of_nat n, q1)"
      "holds q1 n 0 (count_from 0 n)"
    using fill_index_passes [OF q, of 0 0 lp 0 0] n by auto
  obtain r2 ri2 q2 where q2: "spin (count_index_body lo 0) (0, 0, 0, q1) = Some (r2, ri2, of_nat n, q2)" "holds q2 n n []"
    using count_index_passes [of q1 n 0 n 0 0 lo 0 0] q1(2) n by auto
  obtain wi3 q3 where q3: "spin (fill_index_body lp (of_nat n)) (of_nat n, wi1, 0, q2) = Some (of_nat n + of_nat n, wi3, of_nat n, q3)"
      "holds q3 n n (count_from (of_nat n) n)"
    using fill_index_passes [OF q2(2), of 0 n lp "of_nat n" wi1] n by auto
  obtain r4 ri4 q4 where q4: "spin (count_index_body lo (of_nat n)) (r2, ri2, 0, q3) = Some (r4, ri4, of_nat n, q4)" "holds q4 n (n + n) []"
    using count_index_passes [of q3 n n n 0 n lo r2 ri2] q3(2) n by auto
  have wide: "(ucast (of_nat n :: u32) :: size_t) = of_nat n" using holds_small [OF q] by (intro widen_small) simp
  have cap: "capacity q2 = of_nat n" "capacity q3 = of_nat n" "capacity q4 = of_nat n"
    using holds_capacity q2(2) q3(2) q4(2) by blast+
  have "testFullEmptyIndex lp lo qut = Some (True, q4)"
    by (simp add: testFullEmptyIndex_def q1(1) q2(1) q3(1) q4(1) cap wide)
  moreover have "holds q4 n (2 * n) []" using q4(2) by (simp add: mult_2)
  ultimately show ?thesis by blast
qed

lemma testPushPopOne_passes:
  assumes q: "holds qut n 0 []"
  shows "\<exists>qut'. testPushPopOne lp lo qut = Some (True, qut') \<and> holds qut' n 5 []"
proof -
  have n: "0 < n" using holds_bound [OF q] by simp
  have ix: "\<exists>q2. push_pop_index_expect lp lo v (of_nat h) (r, wi, ri, q1) = Some (True, v, of_nat h, of_nat h, q2) \<and> holds q2 n (h + 1) []"
    if "holds q1 n h []" for q1 h v r wi ri
    using mpmc.push_index_room [OF that, of lp v wi] mpmc.pop_index_some [where lo = lo and d = r and i = ri] n
    by (fastforce simp: push_pop_index_expect_def)
  have pl: "\<exists>q2. push_pop_expect lp lo v (r, q1) = Some (True, v, q2) \<and> holds q2 n (h + 1) []"
    if "holds q1 n h []" for q1 h v r
    using mpmc.push_room [OF that, of lp v] mpmc.pop_some [where lo = lo and d = r] n
    by (fastforce simp: push_pop_expect_def)
  from ix [OF q, of 11 0 0 0] obtain q1 where
    q1: "push_pop_index_expect lp lo 11 0 (0, 0, 0, qut) = Some (True, 11, 0, 0, q1)" "holds q1 n 1 []" by auto
  from ix [OF q1(2), of 22 11 0 0] obtain q2 where
    q2: "push_pop_index_expect lp lo 22 1 (11, 0, 0, q1) = Some (True, 22, 1, 1, q2)" "holds q2 n 2 []"
    by (auto simp: numeral_2_eq_2)
  from pl [OF q2(2), of 33 22] obtain q3 where
    q3: "push_pop_expect lp lo 33 (22, q2) = Some (True, 33, q3)" "holds q3 n 3 []" by (auto simp: numeral_3_eq_3)
  from pl [OF q3(2), of 44 33] obtain q4 where
    q4: "push_pop_expect lp lo 44 (33, q3) = Some (True, 44, q4)" "holds q4 n 4 []" by auto
  from pl [OF q4(2), of 55 44] obtain q5 where
    q5: "push_pop_expect lp lo 55 (44, q4) = Some (True, 55, q5)" "holds q5 n 5 []" by auto
  show ?thesis using q5(2) by (simp add: testPushPopOne_def q1(1) q2(1) q3(1) q4(1) q5(1))
qed

lemma keep_n_loop_passes:
  assumes "holds qut n k xs" and "length xs = n" and "k + m = n"
  shows "\<exists>wi' qut'. spin (keep_n_loop_body lp lo junk) (w, wi, of_nat k, qut) =
      Some (w + of_nat m, wi', of_nat n, qut') \<and> holds qut' n n (drop m xs @ count_from w m)"
  using assms
proof (induction m arbitrary: w wi k qut xs)
  case 0
  have "n < 2 ^ 32" using holds_small [OF "0.prems"(1)] by simp
  then have "spin (keep_n_loop_body lp lo junk) (w, wi, of_nat k, qut) = Some (w, wi, of_nat k, qut)"
    using "0.prems"(3) holds_capacity [OF "0.prems"(1)] widen_small [of n]
    by (intro spin_Return) (simp add: keep_n_loop_body_def)
  with 0 show ?case by auto
next
  case (Suc m)
  have small: "n \<le> 2 ^ 30" by (rule holds_small [OF Suc.prems(1)])
  have cap: "capacity qut = of_nat n" by (rule holds_capacity [OF Suc.prems(1)])
  obtain x ys where xs: "xs = x # ys" using Suc.prems(2,3) by (cases xs) auto
  obtain q1 where q1: "push_keep_n_index lp lo junk w wi qut = Some (True, of_nat (k + n), q1)" "holds q1 n (Suc k) (ys @ [w])"
    using push_keep_n_index_holds [OF Suc.prems(1), of lp lo junk w wi] Suc.prems(2) xs by auto
  have "k < n" "k + n < 2 ^ 32" using Suc.prems(3) small by simp_all
  then have pos: "(ucast (of_nat (k + n) :: u32) :: size_t) = ucast (of_nat k :: u32) + of_nat n"
    using widen_small [of "k + n"] widen_add [of k n] by simp
  have "(ucast (of_nat k :: u32) :: size_t) < of_nat n" using small \<open>k < n\<close> by (intro widen_less) simp_all
  with pos have loop: "spin (keep_n_loop_body lp lo junk) (w, wi, of_nat k, qut) =
      spin (keep_n_loop_body lp lo junk) (w + 1, of_nat (k + n), of_nat (Suc k), q1)"
    using q1(1) holds_capacity [OF q1(2)]
    by (intro spin_Loop) (simp add: keep_n_loop_body_def cap add.commute [of 1])
  have "length (ys @ [w]) = n" "Suc k + m = n" using Suc.prems(2,3) xs by simp_all
  from Suc.IH [OF q1(2) this, of "w + 1" "of_nat (k + n)"] obtain wi' q2 where
    q2: "spin (keep_n_loop_body lp lo junk) (w + 1, of_nat (k + n), of_nat (Suc k), q1) = Some (w + 1 + of_nat m, wi', of_nat n, q2)"
      "holds q2 n n (drop m (ys @ [w]) @ count_from (w + 1) m)" by blast
  have "drop m (ys @ [w]) @ count_from (w + 1) m = drop (Suc m) xs @ count_from w (Suc m)"
    using xs Suc.prems(2,3) by simp
  moreover have "(w + 1 + of_nat m :: 32 word) = w + of_nat (Suc m)" by simp
  ultimately show ?case using q2 unfolding loop by auto
qed

lemma keep_n_count_passes:
  assumes "holds qut n (n + k) (count_from (of_nat k + z) m)" and "k + m = n" and "3 * n \<le> 2 ^ 31"
  shows "\<exists>r' ri' qut'. spin (keep_n_count_body lo z) (good, r, ri, of_nat k, qut) =
      Some (good, r', ri', of_nat n, qut') \<and> holds qut' n (2 * n) []"
  using assms(1,2)
proof (induction m arbitrary: r ri k qut)
  case 0
  have "spin (keep_n_count_body lo z) (good, r, ri, of_nat k, qut) = Some (good, r, ri, of_nat k, qut)"
    using "0.prems"(2) assms(3) holds_capacity [OF "0.prems"(1)] widen_small [of n]
    by (intro spin_Return) (simp add: keep_n_count_body_def)
  with 0 show ?case by (auto simp: mult_2)
next
  case (Suc m)
  have cap: "capacity qut = of_nat n" by (rule holds_capacity [OF Suc.prems(1)])
  have lt: "k < n" using Suc.prems(2) by simp
  have q: "holds qut n (n + k) ((of_nat k + z) # count_from (of_nat (Suc k) + z) m)" and h: "(n + k) + n \<le> 2 ^ 31"
    using Suc.prems(1) lt assms(3) by (simp_all add: ac_simps)
  from peek_pop_some [OF this, of lo r ri] obtain q1 where
    q1: "peek_pop lo (of_nat k + z) (of_nat (n + k)) r ri qut = Some (True, of_nat k + z, of_nat (n + k), q1)"
      "holds q1 n (n + Suc k) (count_from (of_nat (Suc k) + z) m)" by auto
  have pos: "(ucast (of_nat k :: u32) + of_nat n :: size_t) = of_nat (n + k)"
    using lt assms(3) widen_add [of k n] by (simp add: add.commute [of n])
  have less: "(ucast (of_nat k :: u32) :: size_t) < of_nat n" using lt assms(3) by (intro widen_less) simp_all
  have "spin (keep_n_count_body lo z) (good, r, ri, of_nat k, qut) =
      spin (keep_n_count_body lo z) (good, of_nat k + z, of_nat (n + k), of_nat (Suc k), q1)"
    using q1(1) by (intro spin_Loop) (simp add: keep_n_count_body_def cap pos less holds_capacity [OF q1(2)] add.commute [of 1] del: of_nat_add)
  with Suc.IH [OF q1(2), of "of_nat k + z" "of_nat (n + k)"] Suc.prems(2) show ?case by simp
qed

lemma testFullEmptyKeepN_passes:
  assumes q: "holds qut n 0 []" and n: "3 * n \<le> 2 ^ 31"
  shows "\<exists>qut'. testFullEmptyKeepN junk lp lo qut = Some (True, qut') \<and> holds qut' n (2 * n) []"
proof -
  obtain wi1 q1 where q1: "spin (fill_index_body lp 0) (0, 0, 0, qut) = Some (of_nat n, wi1, of_nat n, q1)"
      "holds q1 n 0 (count_from 0 n)"
    using fill_index_passes [OF q, of 0 0 lp 0 0] n by auto
  obtain wi2 q2 where q2: "spin (keep_n_loop_body lp lo junk) (93, wi1, 0, q1) = Some (93 + of_nat n, wi2, of_nat n, q2)"
      "holds q2 n n (count_from 93 n)"
    using keep_n_loop_passes [OF q1(2), of n lp lo junk 93 wi1] by auto
  obtain r3 ri3 q3 where q3: "spin (keep_n_count_body lo 93) (True, 0, 0, 0, q2) = Some (True, r3, ri3, of_nat n, q3)"
      "holds q3 n (2 * n) []"
    using keep_n_count_passes [of q2 n 0 93 n lo True 0 0] q2(2) n by auto
  have wide: "(ucast (of_nat n :: u32) :: size_t) = of_nat n" using holds_small [OF q] by (intro widen_small) simp
  show ?thesis using q3(2) by (simp add: testFullEmptyKeepN_def q1(1) q2(1) q3(1) wide holds_capacity [OF q3(2)])
qed

section \<open>The tests\<close>

text \<open>
  A test on a queue that it constructs with \<open>N\<close> and \<open>n\<close> and destroys at the end; an exception fails the
  test. The queues of one test are independent objects, so their calls can be grouped by the queue.
\<close>

definition on_new ::
  "size_t \<Rightarrow> u64 \<Rightarrow> bool \<Rightarrow> 'v \<Rightarrow> (('v::zero, 'l::len) queue \<Rightarrow> (bool \<times> ('v, 'l) queue) option) \<Rightarrow> bool option" where
  "on_new N n lo junk test =
     (case mpmc_queue N n of
        None \<Rightarrow> None
      | Some (Inl err) \<Rightarrow> Some False
      | Some (Inr q) \<Rightarrow> do {
          (ok, q) \<leftarrow> test q;
          _ \<leftarrow> destroy lo junk q;
          Some ok
        })"

text \<open>The four queues \<open>q0\<close> to \<open>q3\<close>.\<close>

definition four_queues :: "32 word \<Rightarrow> u64 \<Rightarrow> (bool \<Rightarrow> bool \<Rightarrow> int_queue \<Rightarrow> (bool \<times> int_queue) option) \<Rightarrow> bool option" where
  "four_queues junk n test = do {
     a \<leftarrow> on_new 0 n False junk (test False False);
     b \<leftarrow> on_new 0 n True junk (test False True);
     c \<leftarrow> on_new 0 n False junk (test True False);
     d \<leftarrow> on_new 0 n True junk (test True True);
     Some (a \<and> b \<and> c \<and> d)
   }"

definition push_one :: "32 word \<Rightarrow> bool \<Rightarrow> bool \<Rightarrow> int_queue \<Rightarrow> (bool \<times> int_queue) option" where
  "push_one v lp lo q = do {
     (ok, q) \<leftarrow> testPushPop lp lo q;
     (_, q) \<leftarrow> push lp v q;
     (_, a, q) \<leftarrow> pop lo 0 q;
     Some (ok \<and> a = v, q)
   }"

definition PushOne :: "32 word \<Rightarrow> bool option" where
  "PushOne junk = do {
     a \<leftarrow> on_new 0 8 False junk (push_one 3 False False);
     b \<leftarrow> on_new 0 8 True junk (push_one 4 False True);
     c \<leftarrow> on_new 0 8 False junk (push_one 5 True False);
     d \<leftarrow> on_new 0 8 True junk (push_one 6 True True);
     Some (a \<and> b \<and> c \<and> d)
   }"

text \<open>\<^verbatim>\<open>for (unsigned s = 1; s < 2048; s *= 2)\<close>\<close>

definition sizes_body :: "(u32 \<Rightarrow> bool option) \<Rightarrow> u32 \<times> bool \<Rightarrow> (bool, u32 \<times> bool) turn option" where
  "sizes_body test s = (case s of (sz, ok) \<Rightarrow>
     if sz < 2048 then do { good \<leftarrow> test sz; Some (Loop (sz * 2, ok \<and> good)) } else Some (Return ok))"

definition FillEmpty :: "32 word \<Rightarrow> bool option" where
  "FillEmpty junk = spin (sizes_body (\<lambda>s. four_queues junk (ucast s) testFullEmpty1)) (1, True)"

definition FillEmptyIndex :: "32 word \<Rightarrow> bool option" where
  "FillEmptyIndex junk = spin (sizes_body (\<lambda>s. four_queues junk (ucast s) testFullEmptyIndex)) (1, True)"

definition FillKeepN :: "32 word \<Rightarrow> bool option" where
  "FillKeepN junk = spin (sizes_body (\<lambda>s. four_queues junk (ucast s) (testFullEmptyKeepN junk))) (1, True)"

text \<open>\<^verbatim>\<open>PushOne_f_f\<close>, \<^verbatim>\<open>PushOne_f_t\<close>, \<^verbatim>\<open>PushOne_t_f\<close> and \<^verbatim>\<open>PushOne_t_t\<close>.\<close>

definition PushOne_flags :: "32 word \<Rightarrow> bool \<Rightarrow> bool \<Rightarrow> bool option" where
  "PushOne_flags junk lp lo = on_new 0 8 lo junk (testPushPopOne lp lo)"

text \<open>The caught exceptions of \<^verbatim>\<open>different_sizes\<close> are only printed.\<close>

definition push_x_body :: "u32 \<times> int_queue \<Rightarrow> (u32 \<times> int_queue, u32 \<times> int_queue) turn option" where
  "push_x_body s = (case s of (x, q) \<Rightarrow> do {
     (ok, q) \<leftarrow> push False x q;
     Some (if ok then Loop (x + 1, q) else Return (x, q))
   })"

definition push_until_full :: "int_queue \<Rightarrow> (bool \<times> int_queue) option" where
  "push_until_full q = do { (x, q) \<leftarrow> spin push_x_body (0, q); Some (ucast x = capacity q, q) }"

fun different_sizes :: "32 word \<Rightarrow> u32 list \<Rightarrow> bool option" where
  "different_sizes junk [] = Some True"
| "different_sizes junk (n # szs) = do {
     ok \<leftarrow> (if mpmc_queue 0 (ucast n) = (Some (Inl Invalid_argument) :: (ctor_error + int_queue) option) then Some True
           else on_new 0 (ucast n) False junk push_until_full);
     rest \<leftarrow> different_sizes junk szs;
     Some (ok \<and> rest)
   }"

definition szs :: "u32 list" where
  "szs = [1, 2, 4, 8, 16, 32, 64, 128, 256, 512, 1024, 2048, 4096, 8192, 16 * 1024, 32 * 1024, 64 * 1024, 128 * 1024,
     256 * 1024, 512 * 1024]"

text \<open>Pointers are addresses; the four literals have the addresses \<open>hello\<close>, \<open>world\<close>, \<open>whats\<close>, \<open>up\<close>.\<close>

definition push_pop_pointer :: "u64 \<Rightarrow> bool \<Rightarrow> bool \<Rightarrow> (u64, 32) queue \<Rightarrow> (bool \<times> (u64, 32) queue) option" where
  "push_pop_pointer s lp lo q = do {
     (_, q) \<leftarrow> push lp s q;
     (_, a, q) \<leftarrow> pop lo 0 q;
     Some (a \<noteq> 0 \<and> s = a, q)
   }"

definition PushCharPointer :: "u64 \<Rightarrow> u64 \<Rightarrow> u64 \<Rightarrow> u64 \<Rightarrow> u64 \<Rightarrow> bool option" where
  "PushCharPointer junk hello world whats up = do {
     a \<leftarrow> on_new 2 2 False junk (push_pop_pointer hello False False);
     b \<leftarrow> on_new 4 4 True junk (push_pop_pointer world False True);
     c \<leftarrow> on_new 32 32 False junk (push_pop_pointer whats True False);
     d \<leftarrow> on_new 64 64 True junk (push_pop_pointer up True True);
     Some (a \<and> b \<and> c \<and> d)
   }"

text \<open>Three indexed pushes and three indexed pops, joined by \<^verbatim>\<open>&&\<close>.\<close>

fun and_pushes :: "nat \<Rightarrow> 32 word \<Rightarrow> 32 word \<times> int_queue \<Rightarrow> (bool \<times> 32 word \<times> int_queue) option" where
  "and_pushes 0 v (i, q) = Some (True, i, q)"
| "and_pushes (Suc k) v (i, q) = do {
     (ok, i, q) \<leftarrow> push_index False v i q;
     if ok then and_pushes k v (i, q) else Some (False, i, q)
   }"

fun and_pops :: "nat \<Rightarrow> 32 word \<times> 32 word \<times> int_queue \<Rightarrow> (bool \<times> 32 word \<times> 32 word \<times> int_queue) option" where
  "and_pops 0 (a, i, q) = Some (True, a, i, q)"
| "and_pops (Suc k) (a, i, q) = do {
     (ok, a, i, q) \<leftarrow> pop_index False a i q;
     if ok then and_pops k (a, i, q) else Some (False, a, i, q)
   }"

definition push_pop_index_chain :: "int_queue \<Rightarrow> (bool \<times> int_queue) option" where
  "push_pop_index_chain q = do {
     (ok, push_ix, q) \<leftarrow> and_pushes 3 33 (0, q);
     (ok, a, pop_ix, q) \<leftarrow> (if ok then and_pops 3 (0, 0, q) else Some (False, 0, 0, q));
     Some (ok \<and> pop_ix = 2 \<and> push_ix = 2, q)
   }"

definition PushPopIndex :: "32 word \<Rightarrow> bool option" where
  "PushPopIndex junk = on_new 0 4 False junk push_pop_index_chain"

text \<open>A value of twelve bytes.\<close>

datatype data12 = Data12 (d12_a: u64) (d12_b: "16 word") (d12_c: "16 word")

instantiation data12 :: zero
begin

definition zero_data12 :: data12 where "0 = Data12 0 0 0"

instance ..

end

definition data12_roundtrip :: "(data12, 32) queue \<Rightarrow> (bool \<times> (data12, 32) queue) option" where
  "data12_roundtrip q = do {
     (_, q) \<leftarrow> push False (Data12 1 2 3) q;
     (_, y, q) \<leftarrow> pop True (Data12 0 0 0) q;
     Some (d12_a y = 1 \<and> d12_b y = 2 \<and> d12_c y = 3, q)
   }"

definition Data12_test :: "data12 \<Rightarrow> bool option" where
  "Data12_test junk = on_new 16 16 True junk data12_roundtrip"

text \<open>\<^verbatim>\<open>Exchange32\<close> and \<^verbatim>\<open>Exchange64\<close> differ in the widths of the value and of the index only.\<close>

definition exchange_third :: "('w::len word, 'l::len) queue \<Rightarrow> (bool \<times> ('w word, 'l) queue) option" where
  "exchange_third q0 = do {
     (_, q0) \<leftarrow> push False 1 q0;
     (_, q0) \<leftarrow> push False 2 q0;
     (_, ix, q0) \<leftarrow> push_index False 3 0 q0;
     (_, q0) \<leftarrow> push False 4 q0;
     (bt, q0) \<leftarrow> exchange ix 3 17 q0;
     (bf, q0) \<leftarrow> exchange ix 3 99 q0;
     (_, a, q0) \<leftarrow> pop False 0 q0;
     (_, b, q0) \<leftarrow> pop False 0 q0;
     (_, c, q0) \<leftarrow> pop False 0 q0;
     (_, d, q0) \<leftarrow> pop False 0 q0;
     Some (a = 1 \<and> b = 2 \<and> c = 17 \<and> d = 4 \<and> bt = True \<and> bf = False, q0)
   }"

definition Exchange32 :: "32 word \<Rightarrow> bool option" where
  "Exchange32 junk = on_new 0 4 False junk (exchange_third :: (32 word, 32) queue \<Rightarrow> _)"

definition Exchange64 :: "64 word \<Rightarrow> bool option" where
  "Exchange64 junk = on_new 0 4 False junk (exchange_third :: (64 word, 64) queue \<Rightarrow> _)"

text \<open>The tests of the signatures; the bytes of the string are its characters.\<close>

definition IntStringHash :: bool where
  "IntStringHash =
     (let a = new_signature 1;
          a = add_value 234 a; a = add_value 456 a; a = add_value 456 a;
          a = add_string (map (\<lambda>c. of_nat (of_char c)) ''abcdefghijjklmnop'') a;
          a = add_string [] a; a = add_string [] a;
          (v, c) = signature_state a
      in c = 8)"

definition HashWrap :: bool where
  "HashWrap =
     (let hs = new_signature (- 1); (v, c) = signature_state hs
      in 0xa5a5a5a5a5a5a5a4 = v \<and> 0 = c \<and> hs_count hs = 0)"

section \<open>They pass\<close>

lemma on_new_passes:
  fixes test :: "('v::zero, 'l::len) queue \<Rightarrow> (bool \<times> ('v, 'l) queue) option"
  assumes n: "unat n = 2 ^ k" "k + 2 \<le> LENGTH('l)" "LENGTH('l) \<le> 64" and N: "N = 0 \<or> N = n \<and> inplace_static_assert n"
    and test: "\<And>q. holds q (2 ^ k) 0 [] \<Longrightarrow> \<exists>q' h xs. test q = Some (True, q') \<and> holds q' (2 ^ k) h xs"
  shows "on_new N n lo junk test = Some True"
proof -
  obtain q :: "('v, 'l) queue" where q: "mpmc_queue N n = Some (Inr q)" "rep q (2 ^ k) 0 0 0 []"
    using N ctor_runtime [OF n, where 'v = 'v] ctor_static [OF _ n, where 'v = 'v] by blast
  from test [OF rep_holds [OF q(2)]] obtain q' h xs where q': "test q = Some (True, q')" "holds q' (2 ^ k) h xs" by blast
  obtain q'' where "destroy lo junk q' = Some q''" using destroy_holds [OF q'(2)] by blast
  with q q' show ?thesis by (simp add: on_new_def)
qed

lemma four_queues_pass:
  assumes "unat n = 2 ^ k" and "k \<le> 30"
    and "\<And>lp lo q. holds q (2 ^ k) 0 [] \<Longrightarrow> \<exists>q' h xs. test lp lo q = Some (True, q') \<and> holds q' (2 ^ k) h xs"
  shows "four_queues junk n test = Some True"
  using assms by (simp add: four_queues_def on_new_passes [where k = k])

lemma pow2_u32:
  assumes "k < 32"
  shows "unat ((2::u32) ^ k) = 2 ^ k" and "unat (ucast ((2::u32) ^ k) :: u64) = 2 ^ k"
proof -
  have "(2::nat) ^ k < 2 ^ 32" using assms by (intro power_strict_increasing) simp_all
  moreover have "(2::u32) ^ k = of_nat (2 ^ k)" by simp
  ultimately show "unat ((2::u32) ^ k) = 2 ^ k" using assms by (simp only: unsigned_of_nat) (simp add: take_bit_nat_eq_self)
  then show "unat (ucast ((2::u32) ^ k) :: u64) = 2 ^ k"
    using assms by (simp add: unsigned_ucast_eq take_bit_nat_eq_self)
qed

lemma sizes_pass:
  assumes "\<And>k. k \<le> 10 \<Longrightarrow> test (2 ^ k) = Some True"
  shows "spin (sizes_body test) (1, True) = Some True"
proof -
  have step: "spin (sizes_body test) (2 ^ k, True) = spin (sizes_body test) (2 ^ Suc k, True)" if "k \<le> 10" for k
  proof (rule spin_Loop)
    have "(2::nat) ^ k \<le> 2 ^ 10" using that by (intro power_increasing) simp_all
    then have "unat ((2::u32) ^ k) < 2048" using that by (simp add: pow2_u32)
    then have "(2::u32) ^ k < 2048" by (simp add: word_less_nat_alt)
    then show "sizes_body test (2 ^ k, True) = Some (Loop (2 ^ Suc k, True))"
      using assms [OF that] by (simp add: sizes_body_def mult.commute)
  qed
  have "spin (sizes_body test) (1, True) = spin (sizes_body test) (2 ^ m, True)" if "m \<le> 11" for m
    using that
  proof (induction m)
    case (Suc m)
    then show ?case using step [of m] by simp
  qed simp
  from this [of 11] show ?thesis by (simp add: spin_Return sizes_body_def)
qed

lemma PushOne_passes: "PushOne junk = Some True"
proof -
  have push_one: "\<exists>q' h xs. push_one v lp lo q = Some (True, q') \<and> holds q' 8 h xs" if q: "holds q 8 0 []" for v lp lo and q :: int_queue
  proof -
    obtain q1 where q1: "testPushPop lp lo q = Some (True, q1)" "holds q1 8 2 []" using testPushPop_passes [OF q, of lp lo] by (auto simp: numeral_2_eq_2)
    obtain q2 where q2: "push lp v q1 = Some (True, q2)" "holds q2 8 2 [v]" using mpmc.push_room [OF q1(2), of lp v] by auto
    obtain q3 where q3: "pop lo 0 q2 = Some (True, v, q3)" "holds q3 8 3 []" using mpmc.pop_some [OF q2(2), of lo 0] by auto
    from q1(1) q2(1) q3 show ?thesis by (auto simp: push_one_def)
  qed
  have "on_new 0 8 lo' junk (push_one v lp lo) = Some True" for lo' v lp lo
    using push_one by (intro on_new_passes [where k = 3]) simp_all
  then show ?thesis by (simp add: PushOne_def)
qed

lemma size_room: "k \<le> 10 \<Longrightarrow> 3 * 2 ^ k \<le> (2::nat) ^ 31"
proof -
  assume "k \<le> 10"
  then have "(2::nat) ^ k \<le> 2 ^ 10" by (intro power_increasing) simp_all
  then show ?thesis by simp
qed

lemma FillEmpty_passes: "FillEmpty junk = Some True"
  unfolding FillEmpty_def
proof (rule sizes_pass, rule four_queues_pass)
  fix k :: nat and lp lo q
  assume "k \<le> 10"
  then show "unat (ucast ((2::u32) ^ k) :: u64) = 2 ^ k" and "k \<le> 30" by (simp_all add: pow2_u32)
  show "\<exists>q' h xs. testFullEmpty1 lp lo q = Some (True, q') \<and> holds q' (2 ^ k) h xs" if "holds q (2 ^ k) 0 []"
    using testFullEmpty1_passes [OF that] by blast
qed

lemma FillEmptyIndex_passes: "FillEmptyIndex junk = Some True"
  unfolding FillEmptyIndex_def
proof (rule sizes_pass, rule four_queues_pass)
  fix k :: nat and lp lo q
  assume k: "k \<le> 10"
  then show "unat (ucast ((2::u32) ^ k) :: u64) = 2 ^ k" and "k \<le> 30" by (simp_all add: pow2_u32)
  show "\<exists>q' h xs. testFullEmptyIndex lp lo q = Some (True, q') \<and> holds q' (2 ^ k) h xs" if "holds q (2 ^ k) 0 []"
    using testFullEmptyIndex_passes [OF that size_room [OF k]] by blast
qed

lemma FillKeepN_passes: "FillKeepN junk = Some True"
  unfolding FillKeepN_def
proof (rule sizes_pass, rule four_queues_pass)
  fix k :: nat and lp lo q
  assume k: "k \<le> 10"
  then show "unat (ucast ((2::u32) ^ k) :: u64) = 2 ^ k" and "k \<le> 30" by (simp_all add: pow2_u32)
  show "\<exists>q' h xs. testFullEmptyKeepN junk lp lo q = Some (True, q') \<and> holds q' (2 ^ k) h xs" if "holds q (2 ^ k) 0 []"
    using testFullEmptyKeepN_passes [OF that size_room [OF k]] by blast
qed

lemma PushOne_flags_passes: "PushOne_flags junk lp lo = Some True"
  unfolding PushOne_flags_def by (rule on_new_passes [where k = 3]) (use testPushPopOne_passes in \<open>force+\<close>)

lemma push_until_full_passes:
  assumes "holds q n 0 []"
  shows "\<exists>q' h xs. push_until_full q = Some (True, q') \<and> holds q' n h xs"
proof -
  obtain q1 where q1: "spin (fill_body False) (0, 0, q) = Some (of_nat n, of_nat n, q1)" "holds q1 n 0 (count_from 0 n)"
    using fill_passes [OF assms, of False 0 0] by auto
  let ?R = "\<lambda>s t. fst s = fst t \<and> snd (snd s) = snd t"
  have "\<exists>r'. spin push_x_body (0, q) = Some r' \<and> ?R (of_nat n :: 32 word, of_nat n :: u32, q1) r'"
  proof (rule spin_sim_Some [OF q1(1), where R = ?R])
    fix s :: "32 word \<times> u32 \<times> int_queue" and t :: "u32 \<times> int_queue"
    assume "?R s t"
    then obtain x k q where "s = (x, k, q)" "t = (x, q)" by (cases s, cases t) auto
    then show "rel_option (rel_turn ?R ?R) (fill_body False s) (push_x_body t)"
      by (cases "push False x q") (auto simp: fill_body_def push_x_body_def)
  qed simp
  then have "spin push_x_body (0, q) = Some (of_nat n, q1)" by auto
  moreover have "(ucast (of_nat n :: u32) :: size_t) = of_nat n" using holds_small [OF assms] by (intro widen_small) simp
  ultimately have "push_until_full q = Some (True, q1)" by (simp add: push_until_full_def holds_capacity [OF q1(2)])
  with q1(2) show ?thesis by blast
qed

lemma different_sizes_pass:
  assumes "\<forall>n \<in> set ns. \<exists>k \<le> 30. unat (ucast n :: u64) = 2 ^ k"
  shows "different_sizes junk ns = Some True"
  using assms
proof (induction ns)
  case (Cons n ns)
  then obtain k where k: "k \<le> 30" "unat (ucast n :: u64) = 2 ^ k" by auto
  have "on_new 0 (ucast n) False junk push_until_full = Some True"
    using k push_until_full_passes by (intro on_new_passes [where k = k]) simp_all
  with Cons show ?case by simp
qed simp

lemma szs_pass: "different_sizes junk szs = Some True"
proof (rule different_sizes_pass)
  have "szs = map (\<lambda>k. 2 ^ k) [0..<20]" by code_simp
  then have szs: "set szs = set (map (\<lambda>k. 2 ^ k) [0..<20])" by (rule arg_cong)
  show "\<forall>n \<in> set szs. \<exists>k \<le> 30. unat (ucast n :: u64) = 2 ^ k"
  proof
    fix n assume "n \<in> set szs"
    then obtain k where k: "k < 20" "n = 2 ^ k" by (auto simp: szs)
    then show "\<exists>k \<le> 30. unat (ucast n :: u64) = 2 ^ k" by (intro exI [of _ k]) (simp add: pow2_u32)
  qed
qed

lemma PushCharPointer_passes:
  assumes "hello \<noteq> 0" and "world \<noteq> 0" and "whats \<noteq> 0" and "up \<noteq> 0"
  shows "PushCharPointer junk hello world whats up = Some True"
proof -
  have pp: "\<exists>q' h xs. push_pop_pointer s lp lo q = Some (True, q') \<and> holds q' n h xs"
    if q: "holds q n 0 []" and "s \<noteq> 0" for s lp lo n and q :: "(u64, 32) queue"
  proof -
    have "0 < n" using holds_bound [OF q] by simp
    then obtain q1 where q1: "push lp s q = Some (True, q1)" "holds q1 n 0 [s]" using mpmc.push_room [OF q, of lp s] by auto
    obtain q2 where q2: "pop lo 0 q1 = Some (True, s, q2)" "holds q2 n 1 []" using mpmc.pop_some [OF q1(2), of lo 0] by auto
    from q1(1) q2 \<open>s \<noteq> 0\<close> show ?thesis by (auto simp: push_pop_pointer_def)
  qed
  have "on_new N N lo' junk (push_pop_pointer s lp lo) = Some True"
    if "unat N = 2 ^ k" "k \<le> 30" "inplace_static_assert N" "s \<noteq> 0" for N k lo' s lp lo
    using that pp by (intro on_new_passes [where k = k]) simp_all
  from this [of 2 1] this [of 4 2] this [of 32 5] this [of 64 6] assms show ?thesis
    by (simp add: PushCharPointer_def inplace_static_assert_def)
qed

lemma PushPopIndex_passes: "PushPopIndex junk = Some True"
proof -
  have chain: "\<exists>q' h xs. push_pop_index_chain q = Some (True, q') \<and> holds q' 4 h xs" if q: "holds q 4 0 []" for q :: int_queue
  proof -
    obtain q1 where q1: "push_index False 33 0 q = Some (True, 0, q1)" "holds q1 4 0 [33]"
      using mpmc.push_index_room [OF q, of False 33 0] by auto
    obtain q2 where q2: "push_index False 33 0 q1 = Some (True, 1, q2)" "holds q2 4 0 [33, 33]"
      using mpmc.push_index_room [OF q1(2), of False 33 0] by auto
    obtain q3 where q3: "push_index False 33 1 q2 = Some (True, 2, q3)" "holds q3 4 0 [33, 33, 33]"
      using mpmc.push_index_room [OF q2(2), of False 33 1] by (auto simp: numeral_2_eq_2)
    obtain q4 where q4: "pop_index False 0 0 q3 = Some (True, 33, 0, q4)" "holds q4 4 1 [33, 33]"
      using mpmc.pop_index_some [OF q3(2), of False 0 0] by auto
    obtain q5 where q5: "pop_index False 33 0 q4 = Some (True, 33, 1, q5)" "holds q5 4 2 [33]"
      using mpmc.pop_index_some [OF q4(2), of False 33 0] by (auto simp: numeral_2_eq_2)
    obtain q6 where q6: "pop_index False 33 1 q5 = Some (True, 33, 2, q6)" "holds q6 4 3 []"
      using mpmc.pop_index_some [OF q5(2), of False 33 1] by (auto simp: numeral_3_eq_3)
    show ?thesis using q6(2) by (auto simp: push_pop_index_chain_def numeral_3_eq_3 q1(1) q2(1) q3(1) q4(1) q5(1) q6(1))
  qed
  then show ?thesis unfolding PushPopIndex_def by (intro on_new_passes [where k = 2]) simp_all
qed

lemma Data12_test_passes: "Data12_test junk = Some True"
proof -
  have "\<exists>q' h xs. data12_roundtrip q = Some (True, q') \<and> holds q' 16 h xs" if q: "holds q 16 0 []" for q
  proof -
    obtain q1 where q1: "push False (Data12 1 2 3) q = Some (True, q1)" "holds q1 16 0 [Data12 1 2 3]"
      using mpmc.push_room [OF q, of False "Data12 1 2 3"] by auto
    obtain q2 where q2: "pop True (Data12 0 0 0) q1 = Some (True, Data12 1 2 3, q2)" "holds q2 16 1 []"
      using mpmc.pop_some [OF q1(2), of True "Data12 0 0 0"] by auto
    from q1(1) q2 show ?thesis by (auto simp: data12_roundtrip_def)
  qed
  then show ?thesis unfolding Data12_test_def
    by (intro on_new_passes [where k = 4]) (simp_all add: inplace_static_assert_def)
qed

text \<open>Exchanging the third of four elements, for any widths: the second exchange finds the value changed.\<close>

lemma exchange_third_passes:
  fixes q :: "('w::len word, 'l::len) queue"
  assumes q: "holds q 4 0 []" and w: "5 \<le> LENGTH('w)"
  shows "\<exists>q' h xs. exchange_third q = Some (True, q') \<and> holds q' 4 h xs"
proof -
  obtain q1 where q1: "push False 1 q = Some (True, q1)" "holds q1 4 0 [1]"
    using mpmc.push_room [OF q, of False 1] by auto
  obtain q2 where q2: "push False 2 q1 = Some (True, q2)" "holds q2 4 0 [1, 2]"
    using mpmc.push_room [OF q1(2), of False 2] by auto
  obtain q3 where q3: "push_index False 3 0 q2 = Some (True, 2, q3)" "holds q3 4 0 [1, 2, 3]"
    using mpmc.push_index_room [OF q2(2), of False 3 0] by (auto simp: numeral_2_eq_2)
  obtain q4 where q4: "push False 4 q3 = Some (True, q4)" "holds q4 4 0 [1, 2, 3, 4]"
    using mpmc.push_room [OF q3(2), of False 4] by auto
  have neq: "(17 :: 'w word) \<noteq> 3" "(3 :: 'w word) \<noteq> 17"
  proof -
    have "(2::nat) ^ 5 \<le> 2 ^ LENGTH('w)" using w by (intro power_increasing) simp_all
    then have "unat (17 :: 'w word) = 17" "unat (3 :: 'w word) = 3"
      by (simp_all add: unsigned_numeral take_bit_nat_eq_self)
    then have "unat (17 :: 'w word) \<noteq> unat (3 :: 'w word)" by simp
    then show "(17 :: 'w word) \<noteq> 3" "(3 :: 'w word) \<noteq> 17" by metis+
  qed
  have at2: "addresses (2 :: 'l word) (0 + 2)" using addresses_mod [of 2 2, where 'l = 'l] by (simp add: numeral_2_eq_2)
  obtain q5 where q5: "exchange 2 3 17 q4 = Some (True, q5)" "holds q5 4 0 [1, 2, 17, 4]"
  proof -
    obtain w r where "rep q4 4 w r 0 [1, 2, 3, 4]" using q4(2) by (auto simp: holds_def)
    from exchange_correct(1) [OF this _ at2, of 3 17] that show thesis by (auto simp: holds_def)
  qed
  have not_again: "exchange 2 3 99 q5 = Some (False, q5)"
  proof -
    obtain w r where rep: "rep q5 4 w r 0 [1, 2, 17, 4]" using q5(2) by (auto simp: holds_def)
    have "4 \<le> half_range TYPE('l)" using shape_bounds(2) [OF rep_shape [OF rep]] by simp
    then have only: "p = 2" if "addresses (2 :: 'l word) p" "p < 4" for p
      using that addresses_mod [of 2 p, where 'l = 'l] by simp
    have "\<not> (\<exists>p < length [1, 2, 17, 4 :: 'w word]. addresses (2 :: 'l word) (0 + p) \<and> [1, 2, 17, 4] ! p = (3 :: 'w word))"
    proof
      assume "\<exists>p < length [1, 2, 17, 4 :: 'w word]. addresses (2 :: 'l word) (0 + p) \<and> [1, 2, 17, 4] ! p = (3 :: 'w word)"
      then obtain p where "p < 4" "addresses (2 :: 'l word) p" "[1, 2, 17, 4] ! p = (3 :: 'w word)" by (auto simp: numeral_eq_Suc)
      moreover from this only have "p = 2" by blast
      ultimately show False using neq(1) by (simp add: numeral_2_eq_2)
    qed
    from exchange_correct(2) [OF rep this] show ?thesis .
  qed
  obtain q6 where q6: "pop False 0 q5 = Some (True, 1, q6)" "holds q6 4 1 [2, 17, 4]"
    using mpmc.pop_some [OF q5(2), of False 0] by auto
  obtain q7 where q7: "pop False 0 q6 = Some (True, 2, q7)" "holds q7 4 2 [17, 4]"
    using mpmc.pop_some [OF q6(2), of False 0] by (auto simp: numeral_2_eq_2)
  obtain q8 where q8: "pop False 0 q7 = Some (True, 17, q8)" "holds q8 4 3 [4]"
    using mpmc.pop_some [OF q7(2), of False 0] by (auto simp: numeral_3_eq_3)
  obtain q9 where q9: "pop False 0 q8 = Some (True, 4, q9)" "holds q9 4 4 []"
    using mpmc.pop_some [OF q8(2), of False 0] by auto
  show ?thesis using q9(2)
    by (auto simp: exchange_third_def q1(1) q2(1) q3(1) q4(1) q5(1) not_again q6(1) q7(1) q8(1) q9(1))
qed

lemma Exchange32_passes: "Exchange32 junk = Some True"
  unfolding Exchange32_def
proof (rule on_new_passes [where k = 2])
  show "\<exists>q' h xs. exchange_third q = Some (True, q') \<and> holds q' (2 ^ 2) h xs" if "holds q (2 ^ 2) 0 []" for q :: int_queue
    using exchange_third_passes [of q] that by simp
qed simp_all

lemma Exchange64_passes: "Exchange64 junk = Some True"
  unfolding Exchange64_def
proof (rule on_new_passes [where k = 2])
  show "\<exists>q' h xs. exchange_third q = Some (True, q') \<and> holds q' (2 ^ 2) h xs" if "holds q (2 ^ 2) 0 []"
    for q :: "(64 word, 64) queue"
    using exchange_third_passes [of q] that by simp
qed simp_all

lemma hash_tests_pass: "IntStringHash" "HashWrap"
  by code_simp+

end
