(* ===== verification/HashRuns.thy ===== *)
theory HashRuns
  imports Bandwidth HashSig "HOL-Library.Multiset"
begin

text \<open>
  The concurrent tests \<^verbatim>\<open>hash2\<close> and \<^verbatim>\<open>hash3\<close> of \<^verbatim>\<open>src/gtest_mpmc_queue.cpp\<close>: every producer
  signs the values it pushes, the consumers sign what they pop, one signature for each producer, under
  a spin lock; in \<^verbatim>\<open>hash3\<close> a consumer waits for the turn of its element, which carries its number.
  At the end the signatures must agree. Every access to a shared variable is a step; the queue is the
  abstract one.
\<close>

section \<open>The tests\<close>

text \<open>
  What distinguishes the tests: how an element is made of the loop counter and the producer, what is
  added to the two signatures, and whether a consumer may sign an element yet.
\<close>

record ('i, 'd) stress =
  make_element :: "'i \<Rightarrow> 8 word \<Rightarrow> 'd"
  signed_in :: "'i \<Rightarrow> u64"
  signed_out :: "'d \<Rightarrow> u64"
  hindex :: "'d \<Rightarrow> 8 word"
  ready :: "'d \<Rightarrow> hash_signature \<Rightarrow> bool"

datatype data2 = Data2 (d2_v: u64) (d2_hindex: "8 word")

definition hash2 :: "(64 word, data2) stress" where
  "hash2 = \<lparr>make_element = Data2, signed_in = (\<lambda>i. i), signed_out = d2_v, hindex = d2_hindex, ready = (\<lambda>d h. True)\<rparr>"

datatype data3 = Data3 (d3_v: u32) (d3_seq_num: u32) (d3_hindex: "8 word")

definition hash3 :: "(32 word, data3) stress" where
  "hash3 = \<lparr>make_element = (\<lambda>i. Data3 (i * i) i), signed_in = (\<lambda>i. ucast (i * i)), signed_out = (\<lambda>d. ucast (d3_v d)),
     hindex = d3_hindex, ready = (\<lambda>d h. ucast (d3_seq_num d) = hs_count h)\<rparr>"

section \<open>The threads\<close>

text \<open>The pc of a producer in its loop; of a consumer, with the element that it has popped.\<close>

datatype hp_pc = HP_add | HP_push | HP_leave | HP_done

datatype 'd hc_pc =
    HC_empty | HC_count | HC_pop
  | HC_lock 'd | HC_check 'd | HC_update 'd | HC_retry 'd | HC_release "8 word"
  | HC_done

datatype hm_pc = HM_empty | HM_join | HM_report

record ('i, 'd) hash_run =
  hq :: "'d list"
  hin :: "hash_signature list"
  hout :: "hash_signature list"
  slocks :: "bool list"
  hproducers :: "(hp_pc \<times> 'i) list"
  hconsumers :: "'d hc_pc list"
  producers_count :: u32
  hmain :: hm_pc

definition hash_start :: "nat \<Rightarrow> ('i::len word, 'd) hash_run" where
  "hash_start P =
     \<lparr>hq = [], hin = replicate P (new_signature 0), hout = replicate P (new_signature 0), slocks = replicate P False,
      hproducers = replicate P (HP_add, 0), hconsumers = [], producers_count = of_nat P, hmain = HM_empty\<rparr>"

definition hp_step ::
  "('i::len word, 'd) stress \<Rightarrow> nat \<Rightarrow> 'i word \<Rightarrow> nat \<Rightarrow> ('i word, 'd) hash_run \<Rightarrow> ('i word, 'd) hash_run option" where
  "hp_step T n loops p s =
     (let (pc, i) = hproducers s ! p;
          go = (\<lambda>pc' i' s'. Some (s'\<lparr>hproducers := (hproducers s')[p := (pc', i')]\<rparr>))
      in case pc of
           HP_add \<Rightarrow>
             if i < loops then go HP_push i (s\<lparr>hin := (hin s)[p := add_value (signed_in T i) (hin s ! p)]\<rparr>)
             else go HP_leave i s
         | HP_push \<Rightarrow>
             (case q_push n (make_element T i (of_nat p)) (hq s) of
                (ok, q) \<Rightarrow> if ok then go HP_add (i + 1) (s\<lparr>hq := q\<rparr>) else go HP_push i (s\<lparr>hq := q\<rparr>))
         | HP_leave \<Rightarrow> go HP_done i (s\<lparr>producers_count := producers_count s - 1\<rparr>)
         | HP_done \<Rightarrow> None)"

text \<open>
  A consumer: \<open>HC_lock\<close> is one \<^verbatim>\<open>test_and_set\<close>, \<open>HC_retry\<close> and \<open>HC_release\<close> are the end of the guard's
  scope, before another round and before the \<^verbatim>\<open>break\<close>.
\<close>

definition hc_step ::
  "('i::len word, 'd) stress \<Rightarrow> bool \<Rightarrow> nat \<Rightarrow> ('i word, 'd) hash_run \<Rightarrow> ('i word, 'd) hash_run option" where
  "hc_step T answer j s =
     (let go = (\<lambda>pc' s'. Some (s'\<lparr>hconsumers := (hconsumers s')[j := pc']\<rparr>))
      in case hconsumers s ! j of
           HC_empty \<Rightarrow>
             (case q_empty answer (hq s) of None \<Rightarrow> None | Some b \<Rightarrow> go (if \<not> b then HC_pop else HC_count) s)
         | HC_count \<Rightarrow> go (if 0 < producers_count s then HC_pop else HC_done) s
         | HC_pop \<Rightarrow> (case hq s of [] \<Rightarrow> go HC_empty s | d # ds \<Rightarrow> go (HC_lock d) (s\<lparr>hq := ds\<rparr>))
         | HC_lock d \<Rightarrow>
             if slocks s ! unat (hindex T d) then go (HC_lock d) s
             else go (HC_check d) (s\<lparr>slocks := (slocks s)[unat (hindex T d) := True]\<rparr>)
         | HC_check d \<Rightarrow> go (if ready T d (hout s ! unat (hindex T d)) then HC_update d else HC_retry d) s
         | HC_update d \<Rightarrow>
             go (HC_release (hindex T d))
               (s\<lparr>hout := (hout s)[unat (hindex T d) := add_value (signed_out T d) (hout s ! unat (hindex T d))]\<rparr>)
         | HC_retry d \<Rightarrow> go (HC_lock d) (s\<lparr>slocks := (slocks s)[unat (hindex T d) := False]\<rparr>)
         | HC_release x \<Rightarrow> go HC_empty (s\<lparr>slocks := (slocks s)[unat x := False]\<rparr>)
         | HC_done \<Rightarrow> None)"

text \<open>The main thread creates the \<open>C\<close> consumers when the queue is not empty, and joins all threads.\<close>

definition hm_step :: "nat \<Rightarrow> bool \<Rightarrow> ('i::len word, 'd) hash_run \<Rightarrow> ('i word, 'd) hash_run option" where
  "hm_step C answer s =
     (case hmain s of
        HM_empty \<Rightarrow>
          (case q_empty answer (hq s) of
             None \<Rightarrow> None
           | Some b \<Rightarrow> Some (if b then s else s\<lparr>hconsumers := replicate C HC_empty, hmain := HM_join\<rparr>))
      | HM_join \<Rightarrow>
          Some (if (\<forall>x \<in> set (hproducers s). fst x = HP_done) \<and> (\<forall>c \<in> set (hconsumers s). c = HC_done)
                then s\<lparr>hmain := HM_report\<rparr> else s)
      | HM_report \<Rightarrow> None)"

datatype hash_act = H_main bool | H_producer nat | H_consumer nat bool

definition hash_step ::
  "('i::len word, 'd) stress \<Rightarrow> nat \<Rightarrow> 'i word \<Rightarrow> nat \<Rightarrow> hash_act \<Rightarrow> ('i word, 'd) hash_run \<Rightarrow> ('i word, 'd) hash_run option" where
  "hash_step T n loops C a s =
     (case a of
        H_main answer \<Rightarrow> hm_step C answer s
      | H_producer p \<Rightarrow> if p < length (hproducers s) then hp_step T n loops p s else None
      | H_consumer j answer \<Rightarrow> if j < length (hconsumers s) then hc_step T answer j s else None)"

fun hash_run_acts ::
  "('i::len word, 'd) stress \<Rightarrow> nat \<Rightarrow> 'i word \<Rightarrow> nat \<Rightarrow> hash_act list \<Rightarrow> ('i word, 'd) hash_run \<Rightarrow> ('i word, 'd) hash_run option" where
  "hash_run_acts T n loops C [] s = Some s"
| "hash_run_acts T n loops C (a # as) s = Option.bind (hash_step T n loops C a s) (hash_run_acts T n loops C as)"

text \<open>The last lines: \<^verbatim>\<open>same\<close>.\<close>

definition hash_same :: "('i, 'd) hash_run \<Rightarrow> bool" where
  "hash_same s \<longleftrightarrow> list_all2 same_signature (hin s) (hout s)"

section \<open>The invariant\<close>

text \<open>The signature of the first \<open>m\<close> values of a producer, and its \<open>i\<close>-th element.\<close>

fun signed_upto :: "('i::len word, 'd) stress \<Rightarrow> nat \<Rightarrow> hash_signature" where
  "signed_upto T 0 = new_signature 0"
| "signed_upto T (Suc m) = add_value (signed_in T (of_nat m)) (signed_upto T m)"

lemma signed_upto_count: "hs_count (signed_upto T m) = of_nat m"
  by (induction m) (simp_all add: new_signature_def add_value_count)

definition element :: "('i::len word, 'd) stress \<Rightarrow> nat \<Rightarrow> nat \<Rightarrow> 'd" where
  "element T p i = make_element T (of_nat i) (of_nat p)"

text \<open>
  What the proof needs of a test: an element knows its producer and what to sign, an element whose turn it
  is may be signed, and, unless there is a single consumer, no other element may.
\<close>

definition orderly :: "('i::len word, 'd) stress \<Rightarrow> nat \<Rightarrow> bool" where
  "orderly T C \<longleftrightarrow>
     (\<forall>i x. hindex T (make_element T i x) = x \<and> signed_out T (make_element T i x) = signed_in T i) \<and>
     (\<forall>i x h. i < 2 ^ LENGTH('i) \<longrightarrow> hs_count h = of_nat i \<longrightarrow> ready T (make_element T (of_nat i) x) h) \<and>
     (C = 1 \<or> (\<forall>i c x h. c \<le> i \<longrightarrow> i < 2 ^ LENGTH('i) \<longrightarrow> hs_count h = of_nat c \<longrightarrow>
        ready T (make_element T (of_nat i) x) h \<longrightarrow> i = c))"

lemma hash2_orderly: "orderly hash2 1"
  by (simp add: orderly_def hash2_def)

lemma hash3_orderly: "orderly hash3 C"
proof -
  have "i = c" if "c \<le> i" "i < 2 ^ 32" "(of_nat i :: u64) = of_nat c" for i c :: nat
    using that by (simp add: word_of_nat_eq_iff take_bit_nat_eq_self)
  moreover have "(ucast (of_nat i :: u32) :: u64) = of_nat i" if "i < 2 ^ 32" for i
    using that by (simp add: widen_of_nat)
  ultimately show ?thesis by (auto simp: orderly_def hash3_def)
qed

fun held :: "'d hc_pc \<Rightarrow> 'd option" where
  "held (HC_lock d) = Some d"
| "held (HC_check d) = Some d"
| "held (HC_update d) = Some d"
| "held (HC_retry d) = Some d"
| "held _ = None"

fun critical :: "('i, 'd) stress \<Rightarrow> 'd hc_pc \<Rightarrow> 8 word option" where
  "critical T (HC_check d) = Some (hindex T d)"
| "critical T (HC_update d) = Some (hindex T d)"
| "critical T (HC_retry d) = Some (hindex T d)"
| "critical T (HC_release x) = Some x"
| "critical T _ = None"

definition held_by :: "('i, 'd) stress \<Rightarrow> 8 word \<Rightarrow> 'd hc_pc \<Rightarrow> 'd multiset" where
  "held_by T x c = (case held c of Some d \<Rightarrow> if hindex T d = x then {#d#} else {#} | None \<Rightarrow> {#})"

definition held_of :: "('i, 'd) stress \<Rightarrow> 8 word \<Rightarrow> 'd hc_pc list \<Rightarrow> 'd multiset" where
  "held_of T x cs = sum_list (map (held_by T x) cs)"

text \<open>The elements of one producer: signed, held by a consumer, or in the queue, in the order of their numbers.\<close>

definition lane_parts ::
  "('i::len word, 'd) stress \<Rightarrow> nat \<Rightarrow> nat \<Rightarrow> hash_signature \<Rightarrow> 'd multiset \<Rightarrow> 'd list \<Rightarrow> bool" where
  "lane_parts T p m h M q \<longleftrightarrow>
     (\<exists>a c. c \<le> a \<and> a \<le> m \<and> h = signed_upto T c \<and> M = mset (map (element T p) [c..<a]) \<and> q = map (element T p) [a..<m])"

definition lane_ok :: "('i::len word, 'd) stress \<Rightarrow> 'i word \<Rightarrow> ('i word, 'd) hash_run \<Rightarrow> nat \<Rightarrow> bool" where
  "lane_ok T loops s p \<longleftrightarrow>
     (let (pc, i) = hproducers s ! p
      in i \<le> loops \<and> (pc = HP_push \<longrightarrow> i < loops) \<and> (pc \<in> {HP_leave, HP_done} \<longrightarrow> i = loops) \<and>
         hin s ! p = signed_upto T (if pc = HP_push then Suc (unat i) else unat i) \<and>
         lane_parts T p (unat i) (hout s ! p) (held_of T (of_nat p) (hconsumers s)) (filter (\<lambda>d. hindex T d = of_nat p) (hq s)))"

definition locks_ok :: "('i::len word, 'd) stress \<Rightarrow> nat \<Rightarrow> ('i word, 'd) hash_run \<Rightarrow> bool" where
  "locks_ok T P s \<longleftrightarrow>
     length (slocks s) = P \<and>
     (\<forall>p < P. length (filter (\<lambda>c. critical T c = Some (of_nat p)) (hconsumers s)) = of_bool (slocks s ! p)) \<and>
     (\<forall>c \<in> set (hconsumers s). \<forall>d. c = HC_update d \<longrightarrow> ready T d (hout s ! unat (hindex T d)))"

definition shape_ok :: "('i::len word, 'd) stress \<Rightarrow> nat \<Rightarrow> nat \<Rightarrow> ('i word, 'd) hash_run \<Rightarrow> bool" where
  "shape_ok T P C s \<longleftrightarrow>
     length (hproducers s) = P \<and> length (hin s) = P \<and> length (hout s) = P \<and>
     (if hmain s = HM_empty then hconsumers s = [] else length (hconsumers s) = C) \<and>
     (\<forall>d \<in> set (hq s). unat (hindex T d) < P) \<and>
     (\<forall>c \<in> set (hconsumers s). \<forall>d. held c = Some d \<longrightarrow> unat (hindex T d) < P) \<and>
     (\<forall>c \<in> set (hconsumers s). \<forall>x. c = HC_release x \<longrightarrow> unat x < P) \<and>
     (hmain s = HM_report \<longrightarrow> (\<forall>x \<in> set (hproducers s). fst x = HP_done) \<and> (\<forall>c \<in> set (hconsumers s). c = HC_done))"

definition hash_ok :: "('i::len word, 'd) stress \<Rightarrow> 'i word \<Rightarrow> nat \<Rightarrow> nat \<Rightarrow> ('i word, 'd) hash_run \<Rightarrow> bool" where
  "hash_ok T loops P C s \<longleftrightarrow> shape_ok T P C s \<and> locks_ok T P s \<and> (\<forall>p < P. lane_ok T loops s p)"

lemma hash_start_ok: "hash_ok T loops P C (hash_start P)"
  by (auto simp: hash_ok_def shape_ok_def locks_ok_def lane_ok_def lane_parts_def hash_start_def held_of_def)

lemma lane_index: "p < P \<Longrightarrow> P \<le> 256 \<Longrightarrow> unat (of_nat p :: 8 word) = p"
  by (simp add: unsigned_of_nat take_bit_nat_eq_self)

lemma lane_inj: "p < P \<Longrightarrow> p' < P \<Longrightarrow> P \<le> 256 \<Longrightarrow> (of_nat p :: 8 word) = of_nat p' \<longleftrightarrow> p = p'"
  using lane_index [of p P] lane_index [of p' P] by metis

lemma held_of_update:
  "j < length cs \<Longrightarrow> held_of T x (cs[j := c]) + held_by T x (cs ! j) = held_of T x cs + held_by T x c"
  unfolding held_of_def by (rule sum_update_add)

lemma lane_cong:
  assumes "lane_ok T loops s p" and "hproducers s' ! p = hproducers s ! p" and "hin s' ! p = hin s ! p"
    and "hout s' ! p = hout s ! p" and "held_of T (of_nat p) (hconsumers s') = held_of T (of_nat p) (hconsumers s)"
    and "filter (\<lambda>d. hindex T d = of_nat p) (hq s') = filter (\<lambda>d. hindex T d = of_nat p) (hq s)"
  shows "lane_ok T loops s' p"
  using assms unfolding lane_ok_def by simp

lemma hash_ok_facts:
  assumes "hash_ok T loops P C s"
  shows "length (hproducers s) = P" and "length (hin s) = P" and "length (hout s) = P" and "length (slocks s) = P"
    and "\<And>p. p < P \<Longrightarrow> lane_ok T loops s p"
  using assms by (simp_all add: hash_ok_def shape_ok_def locks_ok_def)

text \<open>The lane of the producer that moves.\<close>

lemma producer_lane:
  assumes T: "orderly T C" and ok: "lane_ok T loops s p" and p: "p < length (hproducers s)" "p < length (hin s)"
    and step: "hp_step T n loops p s = Some s'"
  shows "lane_ok T loops s' p"
proof -
  obtain pc i where at_pc: "hproducers s ! p = (pc, i)" by fastforce
  have own: "i \<le> loops" "pc = HP_push \<longrightarrow> i < loops" "pc \<in> {HP_leave, HP_done} \<longrightarrow> i = loops"
      "hin s ! p = signed_upto T (if pc = HP_push then Suc (unat i) else unat i)"
    and lane: "lane_parts T p (unat i) (hout s ! p) (held_of T (of_nat p) (hconsumers s)) (filter (\<lambda>d. hindex T d = of_nat p) (hq s))"
    using ok at_pc unfolding lane_ok_def by simp_all
  show ?thesis
  proof (cases pc)
    case HP_add
    show ?thesis
    proof (cases "i < loops")
      case True
      then show ?thesis using HP_add step at_pc own lane p unfolding lane_ok_def
        by (auto simp: hp_step_def)
    next
      case False
      then have "i = loops" using own(1) by simp
      then show ?thesis using False HP_add step at_pc own lane p unfolding lane_ok_def
        by (auto simp: hp_step_def)
    qed
  next
    case HP_push
    have lt: "i < loops" using own(2) HP_push by simp
    have less: "Suc (unat i) \<le> unat loops" using lt by (simp add: word_less_nat_alt Suc_le_eq)
    then have "Suc (unat i) < 2 ^ LENGTH('a)" by (rule le_less_trans) simp
    with less have inc: "unat (i + 1) = Suc (unat i)" "i + 1 \<le> loops"
      using unat_add_lem [of i 1] by (simp_all add: word_le_nat_alt)
    have new: "hindex T (make_element T i (of_nat p)) = of_nat p" "make_element T i (of_nat p) = element T p (unat i)"
      using T by (simp_all add: orderly_def element_def)
    have "lane_parts T p (Suc (unat i)) (hout s ! p) (held_of T (of_nat p) (hconsumers s))
        (filter (\<lambda>d. hindex T d = of_nat p) (hq s) @ [element T p (unat i)])"
      using lane unfolding lane_parts_def by (metis le_SucI map_append list.map upt_Suc)
    then show ?thesis
      using HP_push step at_pc own lane p lt inc new unfolding lane_ok_def
      by (cases "length (hq s) < n") (auto simp: hp_step_def q_push_def Let_def)
  next
    case HP_leave
    then show ?thesis using step at_pc own lane p unfolding lane_ok_def by (auto simp: hp_step_def)
  next
    case HP_done
    then show ?thesis using step at_pc by (simp add: hp_step_def)
  qed
qed

lemma hp_step_frame:
  assumes step: "hp_step T n loops p s = Some s'"
  shows "hconsumers s' = hconsumers s" and "slocks s' = slocks s" and "hmain s' = hmain s" and "hout s' = hout s"
    and "length (hproducers s') = length (hproducers s)" and "length (hin s') = length (hin s)"
    and "p' \<noteq> p \<Longrightarrow> hproducers s' ! p' = hproducers s ! p' \<and> hin s' ! p' = hin s ! p'"
    and "hq s' = hq s \<or> (\<exists>i. hq s' = hq s @ [make_element T i (of_nat p)])" and "fst (hproducers s ! p) \<noteq> HP_done"
proof -
  obtain pc i where "hproducers s ! p = (pc, i)" by fastforce
  with step show "hconsumers s' = hconsumers s" "slocks s' = slocks s" "hmain s' = hmain s" "hout s' = hout s"
    "length (hproducers s') = length (hproducers s)" "length (hin s') = length (hin s)"
    "p' \<noteq> p \<Longrightarrow> hproducers s' ! p' = hproducers s ! p' \<and> hin s' ! p' = hin s ! p'"
    "hq s' = hq s \<or> (\<exists>i. hq s' = hq s @ [make_element T i (of_nat p)])" "fst (hproducers s ! p) \<noteq> HP_done"
    by (cases pc; auto simp: hp_step_def q_push_def split: if_splits)+
qed

lemma producer_ok:
  assumes T: "orderly T C" and P: "P \<le> 256" and ok: "hash_ok T loops P C s" and p: "p < P"
    and step: "hp_step T n loops p s = Some s'"
  shows "hash_ok T loops P C s'"
proof -
  note facts = hash_ok_facts [OF ok]
  note frame = hp_step_frame [OF step]
  have tagged: "hindex T (make_element T i x) = x" for i x using T by (simp add: orderly_def)
  have other: "filter (\<lambda>d. hindex T d = of_nat p') (hq s') = filter (\<lambda>d. hindex T d = of_nat p') (hq s)"
    if "p' < P" "p' \<noteq> p" for p'
    using frame(8) that lane_inj [OF p that(1) P] by (auto simp: tagged)
  have "lane_ok T loops s' p'" if "p' < P" for p'
  proof (cases "p' = p")
    case True
    then show ?thesis using producer_lane [OF T facts(5) [OF p] _ _ step] p facts(1,2) by simp
  next
    case False
    show ?thesis
      by (rule lane_cong [OF facts(5) [OF that]]) (use other [OF that False] frame(1,4) frame(7) [OF False] in simp_all)
  qed
  moreover have "locks_ok T P s'" using ok frame(1-4) by (simp add: hash_ok_def locks_ok_def)
  moreover have "shape_ok T P C s'"
  proof -
    have shape: "shape_ok T P C s" using ok by (simp add: hash_ok_def)
    then have "hmain s \<noteq> HM_report" using frame(9) p facts(1) nth_mem unfolding shape_ok_def by blast
    moreover have "\<forall>d \<in> set (hq s). unat (hindex T d) < P" using shape unfolding shape_ok_def by blast
    then have "\<forall>d \<in> set (hq s'). unat (hindex T d) < P" using frame(8) p lane_index [OF p P] by (auto simp: tagged)
    ultimately show ?thesis using shape unfolding shape_ok_def frame(1-6) by simp
  qed
  ultimately show ?thesis by (simp add: hash_ok_def)
qed

lemma main_ok:
  assumes ok: "hash_ok T loops P C s" and step: "hm_step C answer s = Some s'"
  shows "hash_ok T loops P C s'"
proof -
  have spawn: "held_of T x (replicate C HC_empty) = {#}" "filter (\<lambda>c. critical T c = Some x) (replicate C HC_empty) = []" for x
    by (induction C) (simp_all add: held_of_def held_by_def)
  have none: "held_of T x [] = {#}" for x by (simp add: held_of_def)
  show ?thesis
  proof (cases "hmain s")
    case HM_empty
    then have cs: "hconsumers s = []" using ok by (simp add: hash_ok_def shape_ok_def)
    let ?s = "s\<lparr>hconsumers := replicate C HC_empty, hmain := HM_join\<rparr>"
    have "s' = s \<or> s' = ?s" using HM_empty step by (auto simp: hm_step_def split: option.splits if_splits)
    moreover have "shape_ok T P C ?s"
      using ok cs HM_empty unfolding hash_ok_def shape_ok_def by (simp add: set_replicate_conv_if)
    moreover have "locks_ok T P ?s"
      using ok cs spawn unfolding hash_ok_def locks_ok_def by (simp add: set_replicate_conv_if)
    moreover have "lane_ok T loops ?s p" if "p < P" for p
      by (rule lane_cong [OF hash_ok_facts(5) [OF ok that]]) (use cs spawn none in simp_all)
    ultimately show ?thesis using ok unfolding hash_ok_def by blast
  next
    case HM_join
    let ?s = "s\<lparr>hmain := HM_report\<rparr>"
    have "s' = s \<or> s' = ?s \<and> (\<forall>x \<in> set (hproducers s). fst x = HP_done) \<and> (\<forall>c \<in> set (hconsumers s). c = HC_done)"
      using HM_join step by (auto simp: hm_step_def split: if_splits)
    moreover have "locks_ok T P ?s" using ok by (simp add: hash_ok_def locks_ok_def)
    moreover have "lane_ok T loops ?s p" if "p < P" for p
      by (rule lane_cong [OF hash_ok_facts(5) [OF ok that]]) simp_all
    moreover have "shape_ok T P C ?s"
      if "\<forall>x \<in> set (hproducers s). fst x = HP_done" "\<forall>c \<in> set (hconsumers s). c = HC_done"
      using ok HM_join that unfolding hash_ok_def shape_ok_def by simp
    ultimately show ?thesis using ok unfolding hash_ok_def by blast
  next
    case HM_report
    then show ?thesis using step by (simp add: hm_step_def)
  qed
qed

text \<open>The steps of a consumer. First the locks: one consumer at most is in the critical section of a signature.\<close>

lemma two_in_filter:
  assumes "i < length xs" and "j < length xs" and "i \<noteq> j" and "f (xs ! i)" and "f (xs ! j)"
  shows "2 \<le> length (filter f xs)"
proof -
  have "card {i, j} \<le> card {k. k < length xs \<and> f (xs ! k)}" using assms by (intro card_mono) auto
  then show ?thesis using assms(3) by (simp add: length_filter_conv_card)
qed

lemma locks_step:
  assumes ok: "locks_ok T P s" and j: "j < length (hconsumers s)" and cs: "hconsumers s' = (hconsumers s)[j := c']"
    and hout: "hout s' = hout s" and len: "length (slocks s') = length (slocks s)"
    and count: "\<And>p. p < P \<Longrightarrow> of_bool (slocks s' ! p) + of_bool (critical T (hconsumers s ! j) = Some (of_nat p)) =
      of_bool (slocks s ! p) + (of_bool (critical T c' = Some (of_nat p)) :: nat)"
    and update: "\<And>d. c' = HC_update d \<Longrightarrow> ready T d (hout s ! unat (hindex T d))"
  shows "locks_ok T P s'"
proof -
  have "length (filter (\<lambda>c. critical T c = Some (of_nat p)) (hconsumers s')) = of_bool (slocks s' ! p)" if p: "p < P" for p
    using count_update [OF j, of "\<lambda>c. critical T c = Some (of_nat p)" c'] count [OF p] ok p
    by (simp add: locks_ok_def cs of_bool_def split: if_splits)
  moreover have "\<forall>c \<in> set (hconsumers s'). \<forall>d. c = HC_update d \<longrightarrow> ready T d (hout s ! unat (hindex T d))"
    using ok update set_update_subset_insert [of "hconsumers s" j c'] unfolding locks_ok_def cs by blast
  ultimately show ?thesis using ok len by (simp add: locks_ok_def hout)
qed

lemma lanes_step:
  assumes "lane_ok T loops s p" and "j < length (hconsumers s)" and "hconsumers s' = (hconsumers s)[j := c']"
    and "hout s' = hout s" and "hq s' = hq s" and "held c' = held (hconsumers s ! j)"
    and "hproducers s' = hproducers s" and "hin s' = hin s"
  shows "lane_ok T loops s' p"
proof -
  have "held_by T (of_nat p) c' = held_by T (of_nat p) (hconsumers s ! j)" using assms(6) by (simp add: held_by_def)
  then have "held_of T (of_nat p) (hconsumers s') = held_of T (of_nat p) (hconsumers s)"
    using held_of_update [OF assms(2), of T "of_nat p" c'] by (simp add: assms(3))
  then show ?thesis by (intro lane_cong [OF assms(1)]) (simp_all add: assms)
qed

lemma shape_step:
  assumes ok: "shape_ok T P C s" and j: "j < length (hconsumers s)" and cs: "hconsumers s' = (hconsumers s)[j := c']"
    and moving: "hconsumers s ! j \<noteq> HC_done"
    and frame: "hproducers s' = hproducers s" "hin s' = hin s" "length (hout s') = length (hout s)" "hmain s' = hmain s"
    and queue: "set (hq s') \<subseteq> set (hq s)"
    and held: "\<And>d. held c' = Some d \<Longrightarrow> unat (hindex T d) < P" and release: "\<And>x. c' = HC_release x \<Longrightarrow> unat x < P"
  shows "shape_ok T P C s'"
proof -
  have "hmain s \<noteq> HM_report" using ok moving nth_mem [OF j] unfolding shape_ok_def by blast
  moreover have "hmain s \<noteq> HM_empty" using ok j by (auto simp: shape_ok_def)
  moreover have "\<forall>c \<in> set (hconsumers s'). \<forall>d. held c = Some d \<longrightarrow> unat (hindex T d) < P"
    using ok held set_update_subset_insert [of "hconsumers s" j c'] unfolding shape_ok_def cs by blast
  moreover have "\<forall>c \<in> set (hconsumers s'). \<forall>x. c = HC_release x \<longrightarrow> unat x < P"
    using ok release set_update_subset_insert [of "hconsumers s" j c'] unfolding shape_ok_def cs by blast
  ultimately show ?thesis using ok queue unfolding shape_ok_def frame by (auto simp: cs)
qed

text \<open>A step that changes neither the queue nor a signature.\<close>

lemma quiet_consumer:
  assumes ok: "hash_ok T loops P C s" and j: "j < length (hconsumers s)" and moving: "hconsumers s ! j \<noteq> HC_done"
    and s': "s' = s\<lparr>slocks := ls, hconsumers := (hconsumers s)[j := c']\<rparr>" and len: "length ls = length (slocks s)"
    and held: "held c' = held (hconsumers s ! j)" and release: "\<And>x. c' \<noteq> HC_release x"
    and count: "\<And>p. p < P \<Longrightarrow> of_bool (ls ! p) + of_bool (critical T (hconsumers s ! j) = Some (of_nat p)) =
      of_bool (slocks s ! p) + (of_bool (critical T c' = Some (of_nat p)) :: nat)"
    and update: "\<And>d. c' = HC_update d \<Longrightarrow> ready T d (hout s ! unat (hindex T d))"
  shows "hash_ok T loops P C s'"
proof -
  have ok': "shape_ok T P C s" "locks_ok T P s" "\<And>p. p < P \<Longrightarrow> lane_ok T loops s p" using ok by (simp_all add: hash_ok_def)
  have "unat (hindex T d) < P" if "held c' = Some d" for d
    using ok'(1) that held nth_mem [OF j] unfolding shape_ok_def by metis
  moreover have "unat x < P" if "c' = HC_release x" for x using that release by blast
  ultimately have "shape_ok T P C s'" by (intro shape_step [OF ok'(1) j _ moving, of s' c']) (simp_all add: s')
  moreover have "locks_ok T P s'"
    by (rule locks_step [OF ok'(2) j, of s' c']) (use len count update in \<open>simp_all add: s'\<close>)
  moreover have "lane_ok T loops s' p" if "p < P" for p
    by (rule lanes_step [OF ok'(3) [OF that] j, of s' c']) (simp_all add: s' held)
  ultimately show ?thesis by (simp add: hash_ok_def)
qed

text \<open>A consumer pops: the head of the queue is the next element of its lane.\<close>

lemma pop_consumer:
  assumes P: "P \<le> 256" and T: "orderly T C" and ok: "hash_ok T loops P C s" and j: "j < length (hconsumers s)"
    and at_pc: "hconsumers s ! j = HC_pop" and q: "hq s = d # ds"
  shows "hash_ok T loops P C (s\<lparr>hq := ds, hconsumers := (hconsumers s)[j := HC_lock d]\<rparr>)" (is "hash_ok T loops P C ?s")
proof -
  have ok': "shape_ok T P C s" "locks_ok T P s" "\<And>p. p < P \<Longrightarrow> lane_ok T loops s p" using ok by (simp_all add: hash_ok_def)
  have d: "unat (hindex T d) < P" using ok'(1) q unfolding shape_ok_def by simp
  have "shape_ok T P C ?s" by (rule shape_step [OF ok'(1) j, of ?s "HC_lock d"]) (use at_pc q d in auto)
  moreover have "locks_ok T P ?s" by (rule locks_step [OF ok'(2) j, of ?s "HC_lock d"]) (simp_all add: at_pc)
  moreover have "lane_ok T loops ?s p" if p: "p < P" for p
  proof -
    have held: "held_of T (of_nat p) (hconsumers ?s) = held_of T (of_nat p) (hconsumers s) + held_by T (of_nat p) (HC_lock d)"
      using held_of_update [OF j, of T "of_nat p" "HC_lock d"] by (simp add: at_pc held_by_def)
    show ?thesis
    proof (cases "hindex T d = of_nat p")
      case False
      then have "held_of T (of_nat p) (hconsumers ?s) = held_of T (of_nat p) (hconsumers s)" by (simp only: held) (simp add: held_by_def)
      with False show ?thesis by (intro lane_cong [OF ok'(3) [OF p]]) (simp_all add: q)
    next
      case True
      obtain pc i where at: "hproducers s ! p = (pc, i)" by fastforce
      have "lane_parts T p (unat i) (hout s ! p) (held_of T (of_nat p) (hconsumers s)) (d # filter (\<lambda>d. hindex T d = of_nat p) ds)"
        using ok'(3) [OF p] at True q unfolding lane_ok_def by simp
      then obtain a c where lane: "c \<le> a" "a \<le> unat i" "hout s ! p = signed_upto T c"
          "held_of T (of_nat p) (hconsumers s) = mset (map (element T p) [c..<a])"
          "d # filter (\<lambda>d. hindex T d = of_nat p) ds = map (element T p) [a..<unat i]"
        unfolding lane_parts_def by (elim exE conjE) (rule that)
      have "a < unat i" using lane(2,5) by (cases "a = unat i") auto
      then have "d = element T p a" "filter (\<lambda>d. hindex T d = of_nat p) ds = map (element T p) [Suc a..<unat i]"
        using lane(5) by (simp_all add: upt_conv_Cons)
      then have "lane_parts T p (unat i) (hout s ! p) (held_of T (of_nat p) (hconsumers ?s)) (filter (\<lambda>d. hindex T d = of_nat p) ds)"
        using lane(1-4) \<open>a < unat i\<close> True unfolding lane_parts_def held
        by (intro exI [of _ "Suc a"] exI [of _ c]) (simp add: held_by_def)
      with ok'(3) [OF p] at show ?thesis unfolding lane_ok_def by simp
    qed
  qed
  ultimately show ?thesis by (simp add: hash_ok_def)
qed

text \<open>The element that a consumer signs is the one whose turn it is.\<close>

lemma update_turn:
  assumes T: "orderly T C" and ok: "hash_ok T loops P C s" and j: "j < length (hconsumers s)"
    and at_pc: "hconsumers s ! j = HC_update d" and x: "hindex T d = of_nat p" and p: "p < P" "P \<le> 256"
    and lane: "c \<le> a" "a \<le> m" "m < 2 ^ LENGTH('i)" "hout s ! p = signed_upto T c"
      "held_of T (of_nat p) (hconsumers s) = mset (map (element (T :: ('i::len word, 'd) stress) p) [c..<a])"
  shows "d = element T p c \<and> c < a"
proof -
  have split: "held_of T (of_nat p) (hconsumers s) = held_of T (of_nat p) ((hconsumers s)[j := HC_done]) + {#d#}"
    using held_of_update [OF j, of T "of_nat p" HC_done] at_pc x by (simp add: held_by_def)
  then have "d \<in># mset (map (element T p) [c..<a])" using lane(5) by simp
  then obtain i where i: "c \<le> i" "i < a" "d = element T p i" by auto
  show ?thesis
  proof (cases "C = 1")
    case True
    have "hmain s \<noteq> HM_empty" using ok j by (auto simp: hash_ok_def shape_ok_def)
    then have "length (hconsumers s) = 1" using ok True by (simp add: hash_ok_def shape_ok_def)
    then obtain c' where "hconsumers s = [c']" by (cases "hconsumers s") auto
    then have "held_of T (of_nat p) ((hconsumers s)[j := HC_done]) = {#}" using j by (simp add: held_of_def held_by_def)
    then have "size (mset (map (element T p) [c..<a])) = 1" using split lane(5) by simp
    then have "a = Suc c" using lane(1) by simp
    with i show ?thesis by (auto simp: less_Suc_eq)
  next
    case False
    have "ready T d (hout s ! p)"
      using ok at_pc nth_mem [OF j] x lane_index [OF p] unfolding hash_ok_def locks_ok_def by metis
    moreover have "hs_count (hout s ! p) = of_nat c" by (simp add: lane(4) signed_upto_count)
    moreover have "i < 2 ^ LENGTH('i)" using i(2) lane(2,3) by simp
    ultimately have "i = c" using T False i unfolding orderly_def element_def by blast
    with i show ?thesis by simp
  qed
qed

text \<open>A consumer signs its element. It holds the lock, so no other consumer signs for the same producer.\<close>

lemma update_locks:
  assumes ok: "locks_ok T P s" and j: "j < length (hconsumers s)" and at_pc: "hconsumers s ! j = HC_update d"
    and x: "unat (hindex T d) < P" and s': "slocks s' = slocks s" "hconsumers s' = (hconsumers s)[j := HC_release (hindex T d)]"
      "\<And>p. p \<noteq> unat (hindex T d) \<Longrightarrow> hout s' ! p = hout s ! p"
  shows "locks_ok T P s'"
proof -
  define px where "px = unat (hindex T d)"
  have px: "px < P" "hindex T d = of_nat px" using x by (simp_all add: px_def)
  have "length (filter (\<lambda>c. critical T c = Some (of_nat p)) (hconsumers s')) = of_bool (slocks s ! p)" if p: "p < P" for p
    using count_update [OF j, of "\<lambda>c. critical T c = Some (of_nat p)" "HC_release (hindex T d)"] ok p at_pc
    by (simp add: s'(2) locks_ok_def split: if_splits)
  moreover have "ready T d' (hout s' ! unat (hindex T d'))" if upd: "HC_update d' \<in> set (hconsumers s')" for d'
  proof -
    obtain j' where j': "j' < length (hconsumers s)" "(hconsumers s)[j := HC_release (hindex T d)] ! j' = HC_update d'"
      using upd by (auto simp: s'(2) in_set_conv_nth)
    then have ne: "j' \<noteq> j" "hconsumers s ! j' = HC_update d'" using j by (auto simp: nth_list_update split: if_splits)
    have "hindex T d' \<noteq> hindex T d"
    proof
      assume "hindex T d' = hindex T d"
      then have "2 \<le> length (filter (\<lambda>c. critical T c = Some (of_nat px)) (hconsumers s))"
        using two_in_filter [OF j'(1) j ne(1), of "\<lambda>c. critical T c = Some (of_nat px)"] ne(2) at_pc px by simp
      with ok px(1) show False by (cases "slocks s ! px") (simp_all add: locks_ok_def)
    qed
    then have "unat (hindex T d') \<noteq> unat (hindex T d)" by (simp add: word_unat_eq_iff)
    then show ?thesis using ok ne(2) nth_mem [OF j'(1)] s'(3) unfolding locks_ok_def by auto
  qed
  ultimately show ?thesis using ok by (auto simp: locks_ok_def s'(1))
qed

lemma update_lane:
  assumes P: "P \<le> 256" and T: "orderly (T :: ('i::len word, 'd) stress) C" and ok: "hash_ok T loops P C s" and j: "j < length (hconsumers s)"
    and at_pc: "hconsumers s ! j = HC_update d" and x: "unat (hindex T d) = p" "p < P" and len: "length (hout s) = P"
  shows "lane_ok T loops (s\<lparr>hout := (hout s)[p := add_value (signed_out T d) (hout s ! p)],
    hconsumers := (hconsumers s)[j := HC_release (hindex T d)]\<rparr>) p" (is "lane_ok T loops ?s p")
proof -
  have ok': "lane_ok T loops s p" using ok x(2) by (simp add: hash_ok_def)
  have px: "hindex T d = of_nat p" using x by (simp flip: x(1))
  have held: "held_of T (of_nat p) (hconsumers ?s) + held_by T (of_nat p) (HC_update d) = held_of T (of_nat p) (hconsumers s)"
    using held_of_update [OF j, of T "of_nat p" "HC_release (hindex T d)"] by (simp add: at_pc held_by_def)
  obtain pc i where at: "hproducers s ! p = (pc, i)" by fastforce
  from ok' at obtain a c where lane: "c \<le> a" "a \<le> unat i" "hout s ! p = signed_upto T c"
      "held_of T (of_nat p) (hconsumers s) = mset (map (element T p) [c..<a])"
      "filter (\<lambda>d. hindex T d = of_nat p) (hq s) = map (element T p) [a..<unat i]"
    unfolding lane_ok_def lane_parts_def by auto
  have turn: "d = element T p c" "c < a"
    using update_turn [OF T ok j at_pc _ x(2) P lane(1,2) _ lane(3,4)] px by simp_all
  have "signed_out T d = signed_in T (of_nat c)" using T turn(1) by (simp add: orderly_def element_def)
  then have "add_value (signed_out T d) (hout s ! p) = signed_upto T (Suc c)" using lane(3) by simp
  moreover have "held_of T (of_nat p) (hconsumers ?s) = mset (map (element T p) [Suc c..<a])"
    using held lane(4) turn px by (simp add: held_by_def upt_conv_Cons)
  ultimately have "lane_parts T p (unat i) (hout ?s ! p) (held_of T (of_nat p) (hconsumers ?s)) (filter (\<lambda>d. hindex T d = of_nat p) (hq s))"
    using lane(2,5) turn(2) len x(2) unfolding lane_parts_def
    by (intro exI [of _ a] exI [of _ "Suc c"]) simp
  with ok' at show ?thesis unfolding lane_ok_def by simp
qed

lemma update_consumer:
  assumes P: "P \<le> 256" and T: "orderly (T :: ('i::len word, 'd) stress) C" and ok: "hash_ok T loops P C s" and j: "j < length (hconsumers s)"
    and at_pc: "hconsumers s ! j = HC_update d"
  shows "hash_ok T loops P C (s\<lparr>hout := (hout s)[unat (hindex T d) := add_value (signed_out T d) (hout s ! unat (hindex T d))],
    hconsumers := (hconsumers s)[j := HC_release (hindex T d)]\<rparr>)" (is "hash_ok T loops P C ?s")
proof -
  have ok': "shape_ok T P C s" "locks_ok T P s" "\<And>p. p < P \<Longrightarrow> lane_ok T loops s p" using ok by (simp_all add: hash_ok_def)
  have "held (hconsumers s ! j) = Some d" by (simp add: at_pc)
  then have x: "unat (hindex T d) < P" using ok'(1) nth_mem [OF j] unfolding shape_ok_def by blast
  have len: "length (hout s) = P" using ok'(1) by (simp add: shape_ok_def)
  have "shape_ok T P C ?s" by (rule shape_step [OF ok'(1) j, of ?s "HC_release (hindex T d)"]) (use at_pc x in auto)
  moreover have "locks_ok T P ?s" by (rule update_locks [OF ok'(2) j at_pc x]) simp_all
  moreover have "lane_ok T loops ?s p" if p: "p < P" for p
  proof (cases "p = unat (hindex T d)")
    case True
    with update_lane [OF P T ok j at_pc _ p len] show ?thesis by simp
  next
    case False
    then have "hindex T d \<noteq> of_nat p" using lane_inj [OF p x P] by auto
    then have "held_of T (of_nat p) (hconsumers ?s) = held_of T (of_nat p) (hconsumers s)"
      using held_of_update [OF j, of T "of_nat p" "HC_release (hindex T d)"] by (simp add: at_pc held_by_def)
    then show ?thesis by (intro lane_cong [OF ok'(3) [OF p]]) (use False in simp_all)
  qed
  ultimately show ?thesis by (simp add: hash_ok_def)
qed

text \<open>The steps of a consumer at its spin lock.\<close>

lemma lock_word: "P \<le> 256 \<Longrightarrow> p < P \<Longrightarrow> ((x :: 8 word) = of_nat p) = (p = unat x)"
  using lane_index [of p P] by auto

lemma critical_locked:
  assumes ok: "hash_ok T loops P C s" and "j < length (hconsumers s)" and "critical T (hconsumers s ! j) = Some x" and "unat x < P"
  shows "slocks s ! unat x"
proof (rule ccontr)
  assume "\<not> slocks s ! unat x"
  then have "length (filter (\<lambda>c. critical T c = Some (of_nat (unat x))) (hconsumers s)) = 0"
    using ok assms(4) unfolding hash_ok_def locks_ok_def by fastforce
  then show False using assms(3) nth_mem [OF assms(2)] by (auto simp: filter_empty_conv)
qed

lemma lock_ok:
  assumes P: "P \<le> 256" and ok: "hash_ok T loops P C s" and j: "j < length (hconsumers s)"
    and step: "hc_step T answer j s = Some s'" and at: "hconsumers s ! j = HC_lock d"
  shows "hash_ok T loops P C s'"
proof -
  note quiet = quiet_consumer [OF ok j]
  have lens: "length (slocks s) = P" using ok by (simp add: hash_ok_def locks_ok_def)
  have d: "unat (hindex T d) < P" using ok at nth_mem [OF j] unfolding hash_ok_def shape_ok_def by auto
  show ?thesis
  proof (cases "slocks s ! unat (hindex T d)")
    case True
    with at step show ?thesis
      by (intro quiet [where ls = "slocks s" and c' = "HC_lock d"]) (simp_all add: hc_step_def)
  next
    case False
    with at step d lens show ?thesis
      by (intro quiet [where ls = "(slocks s)[unat (hindex T d) := True]" and c' = "HC_check d"])
        (auto simp: hc_step_def lock_word [OF P] nth_list_update)
  qed
qed

lemma unlock_ok:
  assumes P: "P \<le> 256" and ok: "hash_ok T loops P C s" and j: "j < length (hconsumers s)"
    and step: "hc_step T answer j s = Some s'" and at: "hconsumers s ! j = HC_retry d \<or> hconsumers s ! j = HC_release x"
  shows "hash_ok T loops P C s'"
proof -
  note quiet = quiet_consumer [OF ok j] and locked = critical_locked [OF ok j]
  have lens: "length (slocks s) = P" using ok by (simp add: hash_ok_def locks_ok_def)
  from at show ?thesis
  proof
    assume r: "hconsumers s ! j = HC_retry d"
    then have "unat (hindex T d) < P" using ok nth_mem [OF j] unfolding hash_ok_def shape_ok_def by auto
    with r step lens locked [of "hindex T d"] show ?thesis
      by (intro quiet [where ls = "(slocks s)[unat (hindex T d) := False]" and c' = "HC_lock d"])
        (auto simp: hc_step_def lock_word [OF P] nth_list_update)
  next
    assume r: "hconsumers s ! j = HC_release x"
    then have "unat x < P" using ok nth_mem [OF j] unfolding hash_ok_def shape_ok_def by metis
    with r step lens locked [of x] show ?thesis
      by (intro quiet [where ls = "(slocks s)[unat x := False]" and c' = HC_empty])
        (auto simp: hc_step_def lock_word [OF P] nth_list_update)
  qed
qed

lemma consumer_ok:
  assumes T: "orderly T C" and P: "P \<le> 256" and ok: "hash_ok T loops P C s" and j: "j < length (hconsumers s)"
    and step: "hc_step T answer j s = Some s'"
  shows "hash_ok T loops P C s'"
proof -
  note quiet = quiet_consumer [OF ok j, where ls = "slocks s"]
  show ?thesis
  proof (cases "hconsumers s ! j")
    case HC_pop
    show ?thesis
    proof (cases "hq s")
      case Nil
      with HC_pop step show ?thesis by (intro quiet [where c' = HC_empty]) (simp_all add: hc_step_def)
    next
      case (Cons d ds)
      with HC_pop step pop_consumer [OF P T ok j HC_pop Cons] show ?thesis by (simp add: hc_step_def)
    qed
  next
    case (HC_lock d)
    then show ?thesis by (rule lock_ok [OF P ok j step])
  next
    case (HC_check d)
    with step show ?thesis
      by (intro quiet [where c' = "if ready T d (hout s ! unat (hindex T d)) then HC_update d else HC_retry d"])
        (auto simp: hc_step_def split: if_splits)
  next
    case (HC_update d)
    with step update_consumer [OF P T ok j HC_update] show ?thesis by (simp add: hc_step_def)
  next
    case (HC_retry d)
    then show ?thesis using unlock_ok [OF P ok j step] by blast
  next
    case (HC_release x)
    then show ?thesis using unlock_ok [OF P ok j step] by blast
  next
    case HC_empty
    with step obtain b where "s' = s\<lparr>hconsumers := (hconsumers s)[j := if \<not> b then HC_pop else HC_count]\<rparr>"
      by (auto simp: hc_step_def split: option.splits)
    with HC_empty show ?thesis
      by (intro quiet [where c' = "if \<not> b then HC_pop else HC_count"]) (simp_all split: if_splits)
  next
    case HC_count
    with step show ?thesis
      by (intro quiet [where c' = "if 0 < producers_count s then HC_pop else HC_done"])
        (simp_all add: hc_step_def split: if_splits)
  next
    case HC_done
    with step show ?thesis by (simp add: hc_step_def)
  qed
qed

lemma hash_run_ok:
  assumes T: "orderly T C" and P: "P \<le> 256"
  shows "hash_ok T loops P C s \<Longrightarrow> hash_run_acts T n loops C as s = Some s' \<Longrightarrow> hash_ok T loops P C s'"
proof (induction as arbitrary: s)
  case (Cons a as)
  from Cons.prems(2) obtain t where t: "hash_step T n loops C a s = Some t" "hash_run_acts T n loops C as t = Some s'"
    by (auto simp: bind_eq_Some_conv)
  have "hash_ok T loops P C t"
  proof (cases a)
    case (H_main answer)
    then show ?thesis using t(1) main_ok [OF Cons.prems(1)] by (simp add: hash_step_def)
  next
    case (H_producer p)
    then show ?thesis
      using t(1) producer_ok [OF T P Cons.prems(1)] hash_ok_facts(1) [OF Cons.prems(1)] by (auto simp: hash_step_def split: if_splits)
  next
    case (H_consumer j answer)
    then show ?thesis using t(1) consumer_ok [OF T P Cons.prems(1)] by (auto simp: hash_step_def split: if_splits)
  qed
  with t(2) show ?case by (rule Cons.IH [rotated])
qed simp

section \<open>What the tests report\<close>

lemma widened_bound: "unat (ucast (loops :: u32) :: u64) = unat loops"
  using unat_bound [of loops] by (simp add: unsigned_ucast_eq take_bit_nat_eq_self)

lemma nothing_held: "\<forall>c \<in> set cs. c = HC_done \<Longrightarrow> held_of T x cs = {#}"
  by (induction cs) (simp_all add: held_of_def held_by_def)

text \<open>At the end every value of a producer is signed, or still in the queue.\<close>

lemma report_lanes:
  assumes ok: "hash_ok T loops P C s" and report: "hmain s = HM_report" and p: "p < P"
  obtains c where "c \<le> unat loops" and "hin s ! p = signed_upto T (unat loops)" and "hout s ! p = signed_upto T c"
    and "filter (\<lambda>d. hindex T d = of_nat p) (hq s) = map (element T p) [c..<unat loops]"
proof -
  obtain pc i where at_pc: "hproducers s ! p = (pc, i)" by fastforce
  have "pc = HP_done" "held_of T (of_nat p) (hconsumers s) = {#}"
    using ok report p at_pc nothing_held nth_mem [of p "hproducers s"] by (fastforce simp: hash_ok_def shape_ok_def)+
  with hash_ok_facts(5) [OF ok p] at_pc
  have own: "i = loops" "hin s ! p = signed_upto T (unat loops)"
    and "lane_parts T p (unat loops) (hout s ! p) {#} (filter (\<lambda>d. hindex T d = of_nat p) (hq s))"
    unfolding lane_ok_def by auto
  then obtain a c where "c \<le> a" "a \<le> unat loops" "hout s ! p = signed_upto T c" "{#} = mset (map (element T p) [c..<a])"
      "filter (\<lambda>d. hindex T d = of_nat p) (hq s) = map (element T p) [a..<unat loops]"
    unfolding lane_parts_def by (elim exE conjE) (rule that)
  moreover have "c = a"
  proof -
    have "size (mset (map (element T p) [c..<a])) = 0" by (simp only: flip: \<open>{#} = mset (map (element T p) [c..<a])\<close>) simp
    with \<open>c \<le> a\<close> show ?thesis by simp
  qed
  ultimately show ?thesis using own(2) by (intro that [of c]) simp_all
qed

lemma empty_lanes:
  assumes "shape_ok T P C s"
  shows "hq s = [] \<longleftrightarrow> (\<forall>p < P. filter (\<lambda>d. hindex T d = of_nat p) (hq s) = [])"
proof
  assume none: "\<forall>p < P. filter (\<lambda>d. hindex T d = of_nat p) (hq s) = []"
  have "d \<notin> set (hq s)" for d
  proof
    assume d: "d \<in> set (hq s)"
    then have "unat (hindex T d) < P" using assms by (simp add: shape_ok_def)
    with none have "filter (\<lambda>d'. hindex T d' = of_nat (unat (hindex T d))) (hq s) = []" by blast
    with d show False by (auto simp: filter_empty_conv)
  qed
  then show "hq s = []" by (cases "hq s") auto
qed simp

theorem hash_report:
  assumes ok: "hash_ok (T :: ('i::len word, 'd) stress) loops P C s" and report: "hmain s = HM_report" and len: "LENGTH('i) \<le> 64"
  shows "hash_same s \<longleftrightarrow> hq s = []"
proof -
  have lens: "length (hin s) = P" "length (hout s) = P" using hash_ok_facts(2,3) [OF ok] by simp_all
  have lane: "hin s ! p = hout s ! p \<longleftrightarrow> filter (\<lambda>d. hindex T d = of_nat p) (hq s) = []" if p: "p < P" for p
  proof -
    obtain c where c: "c \<le> unat loops" "hin s ! p = signed_upto T (unat loops)" "hout s ! p = signed_upto T c"
        "filter (\<lambda>d. hindex T d = of_nat p) (hq s) = map (element T p) [c..<unat loops]"
      using report_lanes [OF ok report p] .
    have "(2::nat) ^ LENGTH('i) \<le> 2 ^ 64" using len by (intro power_increasing) simp_all
    then have small: "unat loops < 2 ^ 64" using unat_bound [of loops] by linarith
    have "unat loops = c" if "signed_upto T (unat loops) = signed_upto T c"
    proof -
      have "(of_nat (unat loops) :: u64) = of_nat c" using arg_cong [OF that, of hs_count] unfolding signed_upto_count .
      then show ?thesis using small c(1) by (simp only: word_of_nat_eq_iff) (simp add: take_bit_nat_eq_self)
    qed
    with c show ?thesis by auto
  qed
  have "hash_same s \<longleftrightarrow> (\<forall>p < P. hin s ! p = hout s ! p)"
    by (simp add: hash_same_def same_signature_eq list_all2_conv_all_nth lens)
  also have "\<dots> \<longleftrightarrow> hq s = []" using lane empty_lanes [of T P C s] ok by (simp add: hash_ok_def)
  finally show ?thesis .
qed

text \<open>While a consumer waits with an element, some consumer has the element of that producer whose turn it is.\<close>

theorem hash_turn:
  assumes T: "orderly (T :: ('i::len word, 'd) stress) C" and P: "P \<le> 256" and ok: "hash_ok T loops P C s"
    and c: "c \<in> set (hconsumers s)" "held c = Some d"
  obtains c' d' where "c' \<in> set (hconsumers s)" and "held c' = Some d'" and "hindex T d' = hindex T d"
    and "ready T d' (hout s ! unat (hindex T d))"
proof -
  define p where "p = unat (hindex T d)"
  have p: "p < P" "hindex T d = of_nat p" using ok c unfolding hash_ok_def shape_ok_def p_def by (blast, simp)
  obtain pc i where at_pc: "hproducers s ! p = (pc, i)" by fastforce
  from hash_ok_facts(5) [OF ok p(1)] at_pc obtain a b where lane: "b \<le> a" "a \<le> unat i" "hout s ! p = signed_upto T b"
      "held_of T (of_nat p) (hconsumers s) = mset (map (element T p) [b..<a])"
    unfolding lane_ok_def lane_parts_def by auto
  have member: "x \<in># held_of T y cs \<longleftrightarrow> (\<exists>c' \<in> set cs. held c' = Some x \<and> hindex T x = y)" for x y cs
    by (induction cs) (auto simp: held_of_def held_by_def split: option.splits if_splits)
  have "d \<in># mset (map (element T p) [b..<a])" using member [of d "of_nat p" "hconsumers s"] c p(2) lane(4) by auto
  then have "b < a" by auto
  then have "element T p b \<in># held_of T (of_nat p) (hconsumers s)" using lane(4) by auto
  then obtain c' where c': "c' \<in> set (hconsumers s)" "held c' = Some (element T p b)" "hindex T (element T p b) = of_nat p"
    using member by blast
  have "b < 2 ^ LENGTH('i)" using \<open>b < a\<close> lane(2) unat_bound [of i] by linarith
  then have "ready T (element T p b) (hout s ! p)"
    using T lane(3) signed_upto_count [of T b] unfolding orderly_def element_def by metis
  then have "ready T (element T p b) (hout s ! unat (hindex T d))" by (simp only: p_def)
  then show ?thesis by (rule that [OF c'(1,2), rotated]) (simp only: c'(3) p(2))
qed

text \<open>The spin locks exclude: two consumers are never both in the critical section of one signature.\<close>

theorem hash_exclusion:
  assumes ok: "hash_ok T loops P C s" and j: "j < length (hconsumers s)" "k < length (hconsumers s)"
    and crit: "critical T (hconsumers s ! j) = Some x" "critical T (hconsumers s ! k) = Some x" and x: "unat x < P"
  shows "j = k"
proof (rule ccontr)
  assume "j \<noteq> k"
  then have "2 \<le> length (filter (\<lambda>c. critical T c = Some x) (hconsumers s))"
    using two_in_filter [OF j, of "\<lambda>c. critical T c = Some x"] crit by simp
  moreover have "length (filter (\<lambda>c. critical T c = Some (of_nat (unat x))) (hconsumers s)) = of_bool (slocks s ! unat x)"
    using ok x unfolding hash_ok_def locks_ok_def by blast
  ultimately show False by (cases "slocks s ! unat x") simp_all
qed

section \<open>One producer and one consumer\<close>

text \<open>
  \<^verbatim>\<open>HashInputOutput\<close>: a writer signs and pushes the numbers below \<open>loops\<close>; a reader pops as many values,
  waiting for each, and signs them. \<open>io_pushing\<close> and \<open>io_signing\<close> hold in the middle of a round.
\<close>

record hash_io =
  io_q :: "u64 list"
  h_in :: hash_signature
  h_out :: hash_signature
  io_i :: u64
  io_pushing :: bool
  io_pops :: u32
  io_signing :: "u64 option"

definition io_start :: hash_io where
  "io_start = \<lparr>io_q = [], h_in = new_signature 1, h_out = new_signature 1, io_i = 0, io_pushing = False, io_pops = 0, io_signing = None\<rparr>"

definition qwrite_step :: "nat \<Rightarrow> u32 \<Rightarrow> hash_io \<Rightarrow> hash_io option" where
  "qwrite_step n loops s =
     (if io_pushing s then
        (case q_push n (io_i s) (io_q s) of
           (ok, q) \<Rightarrow> Some (if ok then s\<lparr>io_q := q, io_pushing := False, io_i := io_i s + 1\<rparr> else s))
      else if io_i s < ucast loops then Some (s\<lparr>h_in := add_value (io_i s) (h_in s), io_pushing := True\<rparr>)
      else None)"

definition qread_step :: "u32 \<Rightarrow> hash_io \<Rightarrow> hash_io option" where
  "qread_step loops s =
     (case io_signing s of
        Some v \<Rightarrow> Some (s\<lparr>h_out := add_value v (h_out s), io_signing := None, io_pops := io_pops s + 1\<rparr>)
      | None \<Rightarrow>
          if io_pops s < loops then
            (case io_q s of [] \<Rightarrow> Some s | v # q \<Rightarrow> Some (s\<lparr>io_q := q, io_signing := Some v\<rparr>))
          else None)"

fun io_run :: "nat \<Rightarrow> u32 \<Rightarrow> bool list \<Rightarrow> hash_io \<Rightarrow> hash_io option" where
  "io_run n loops [] s = Some s"
| "io_run n loops (w # ws) s = Option.bind (if w then qwrite_step n loops s else qread_step loops s) (io_run n loops ws)"

fun io_signed :: "nat \<Rightarrow> hash_signature" where
  "io_signed 0 = new_signature 1"
| "io_signed (Suc m) = add_value (of_nat m) (io_signed m)"

definition io_ok :: "u32 \<Rightarrow> hash_io \<Rightarrow> bool" where
  "io_ok loops s \<longleftrightarrow>
     (let i = unat (io_i s); c = unat (io_pops s); a = (case io_signing s of None \<Rightarrow> c | Some v \<Rightarrow> Suc c)
      in i + of_bool (io_pushing s) \<le> unat loops \<and> c + (case io_signing s of None \<Rightarrow> 0 | Some v \<Rightarrow> 1) \<le> unat loops \<and>
         h_in s = io_signed (i + of_bool (io_pushing s)) \<and> h_out s = io_signed c \<and> a \<le> i \<and>
         (\<forall>v. io_signing s = Some v \<longrightarrow> v = of_nat c) \<and> io_q s = map of_nat [a..<i])"

lemma io_start_ok: "io_ok loops io_start"
  by (simp add: io_ok_def io_start_def)

lemma qwrite_ok:
  assumes ok: "io_ok loops s" and step: "qwrite_step n loops s = Some s'"
  shows "io_ok loops s'"
proof (cases "io_pushing s")
  case True
  have lt: "Suc (unat (io_i s)) \<le> unat loops" using ok True by (simp add: io_ok_def Let_def)
  have "unat loops < 2 ^ LENGTH(64)" using unat_bound [of loops] by simp
  note inc = word_increment [OF lt this]
  show ?thesis
    using ok True step inc by (cases "length (io_q s) < n") (auto simp: qwrite_step_def q_push_def io_ok_def Let_def split: option.splits)
next
  case False
  then have "io_i s < ucast loops" "s' = s\<lparr>h_in := add_value (io_i s) (h_in s), io_pushing := True\<rparr>"
    using step by (simp_all add: qwrite_step_def split: if_splits)
  moreover from this(1) have "unat (io_i s) < unat loops" by (simp add: word_less_nat_alt widened_bound)
  ultimately show ?thesis using ok False by (simp add: io_ok_def Let_def)
qed

lemma qread_ok:
  assumes ok: "io_ok loops s" and step: "qread_step loops s = Some s'"
  shows "io_ok loops s'"
proof (cases "io_signing s")
  case (Some v)
  have lt: "Suc (unat (io_pops s)) \<le> unat loops" using ok Some by (simp add: io_ok_def Let_def)
  note inc = word_increment [OF lt unat_bound]
  show ?thesis using ok Some step inc by (auto simp: qread_step_def io_ok_def Let_def)
next
  case None
  then have lt: "io_pops s < loops" using step by (simp add: qread_step_def split: if_splits)
  show ?thesis
  proof (cases "io_q s")
    case Nil
    then show ?thesis using ok None step lt by (simp add: qread_step_def)
  next
    case (Cons v q)
    have part: "v # q = map of_nat [unat (io_pops s)..<unat (io_i s)]" using ok None Cons by (simp add: io_ok_def Let_def)
    then have "unat (io_pops s) < unat (io_i s)" by (cases "unat (io_pops s) < unat (io_i s)") auto
    then show ?thesis using ok None step lt Cons part
      by (auto simp: qread_step_def io_ok_def Let_def upt_conv_Cons word_less_nat_alt)
  qed
qed

lemma io_run_ok: "io_ok loops s \<Longrightarrow> io_run n loops ws s = Some s' \<Longrightarrow> io_ok loops s'"
  by (induction ws arbitrary: s) (auto simp: bind_eq_Some_conv split: if_splits dest: qwrite_ok qread_ok)

text \<open>When both threads have returned, the signatures agree and the queue is empty.\<close>

theorem io_agree:
  assumes ok: "io_ok loops s" and over: "qwrite_step n loops s = None" "qread_step loops s = None"
  shows "same_signature (h_in s) (h_out s) \<and> io_q s = []"
proof -
  have w: "\<not> io_pushing s" "ucast loops \<le> io_i s"
    using over(1) by (auto simp: qwrite_step_def split: if_splits prod.splits)
  have r: "io_signing s = None" "loops \<le> io_pops s"
    using over(2) by (auto simp: qread_step_def split: if_splits option.splits list.splits)
  have "unat (io_i s) = unat loops" using ok w by (simp add: io_ok_def Let_def word_le_nat_alt widened_bound)
  moreover have "unat (io_pops s) = unat loops" using ok r by (simp add: io_ok_def Let_def word_le_nat_alt)
  ultimately show ?thesis using ok w(1) r(1) by (simp add: io_ok_def same_signature_eq Let_def)
qed

end
