(* ===== verification/Timing.thy ===== *)
theory Timing
  imports MpmcCorrect Bandwidth "HOL-Library.Monad_Syntax"
begin

text \<open>
  \<^verbatim>\<open>QTiming\<close> of \<^verbatim>\<open>src/mpmc_queue_timing.h\<close>: four rounds of pushes and pops by one thread, then a writer that
  pushes the values of the time stamp counter and a 0 behind them, and a reader that records for each
  how long it was in the queue, until it pops the 0. The counter is an argument of the steps that
  read it; what is printed between them is left out. The threads run on the abstract queue.
\<close>

section \<open>The object\<close>

text \<open>The constructor and \<^verbatim>\<open>report\<close>. Of its members \<^verbatim>\<open>run\<close> uses only the depth.\<close>

record qtiming =
  q_depth :: u32
  qt_producers :: nat
  qt_consumers :: nat
  qt_from :: "u64 list"
  qt_to :: "u64 list"
  qt_pop_count :: "u64 list"
  max_count :: u64

definition QTiming :: "u32 \<Rightarrow> u32 \<Rightarrow> u32 \<Rightarrow> u32 \<Rightarrow> qtiming" where
  "QTiming depth producers_count consumers_count count =
     \<lparr>q_depth = depth, qt_producers = unat producers_count, qt_consumers = unat consumers_count,
      qt_from = replicate (unat producers_count) (ucast count), qt_to = replicate (unat producers_count) 0,
      qt_pop_count = replicate (unat consumers_count) 0, max_count = ucast count\<rparr>"

definition timing_lines :: "qtiming \<Rightarrow> u64 list" where
  "timing_lines t = qt_to t"

section \<open>The rounds of one thread\<close>

fun push_times :: "('v \<Rightarrow> 'q \<Rightarrow> (bool \<times> 'q) option) \<Rightarrow> nat \<Rightarrow> 'v \<Rightarrow> 'q \<Rightarrow> 'q option" where
  "push_times push_op 0 d q = Some q"
| "push_times push_op (Suc k) d q = do { (_, q) \<leftarrow> push_op d q; push_times push_op k d q }"

fun pop_times :: "('v \<Rightarrow> 'q \<Rightarrow> (bool \<times> 'v \<times> 'q) option) \<Rightarrow> nat \<Rightarrow> 'v \<Rightarrow> 'q \<Rightarrow> ('v \<times> 'q) option" where
  "pop_times pop_op 0 d q = Some (d, q)"
| "pop_times pop_op (Suc k) d q = do { (_, d, q) \<leftarrow> pop_op d q; pop_times pop_op k d q }"

fun timing_rounds ::
  "('v \<Rightarrow> 'q \<Rightarrow> (bool \<times> 'q) option) \<Rightarrow> ('v \<Rightarrow> 'q \<Rightarrow> (bool \<times> 'v \<times> 'q) option) \<Rightarrow> u32 \<Rightarrow> nat \<Rightarrow> 'v \<Rightarrow> 'q \<Rightarrow> ('v \<times> 'q) option" where
  "timing_rounds push_op pop_op depth 0 d q = Some (d, q)"
| "timing_rounds push_op pop_op depth (Suc loops) d q = do {
     q \<leftarrow> push_times push_op (unat depth) d q;
     (d, q) \<leftarrow> pop_times pop_op (unat depth) d q;
     timing_rounds push_op pop_op depth loops d q
   }"

context fifo
begin

lemma push_times_fills:
  "repr q h (replicate m d) \<Longrightarrow> \<exists>q'. push_times push k d q = Some q' \<and> repr q' h (replicate (min cap (m + k)) d)"
proof (induction k arbitrary: q m)
  case 0
  then show ?case using repr_bound [OF 0] by (simp add: min_absorb2)
next
  case (Suc k)
  show ?case
  proof (cases rule: push_cases [OF Suc.prems, of d])
    case (1 q')
    have "repr q' h (replicate (Suc m) d)" using 1(3) by (simp add: replicate_append_same)
    from Suc.IH [OF this] 1(2) show ?thesis by simp
  next
    case (2 q')
    from Suc.IH [OF 2(3)] 2(1,2) show ?thesis by (simp add: min_def split: if_splits)
  qed
qed

lemma pop_times_empties:
  "repr q h (replicate m d) \<Longrightarrow> m \<le> k \<Longrightarrow> \<exists>q'. pop_times pop k d q = Some (d, q') \<and> repr q' (h + m) []"
proof (induction k arbitrary: q h m)
  case (Suc k)
  show ?case
  proof (cases m)
    case 0
    with Suc.prems pop_none [of q h d] obtain q' where "pop d q = Some (False, d, q')" "repr q' h []" by auto
    with Suc.IH [of q' h 0] 0 show ?thesis by auto
  next
    case (Suc m')
    with Suc.prems pop_some [of q h d "replicate m' d" d] obtain q' where
      "pop d q = Some (True, d, q')" "repr q' (h + 1) (replicate m' d)" by auto
    with Suc.IH [of q' "h + 1" m'] Suc Suc.prems(2) show ?thesis by auto
  qed
qed simp

text \<open>Every round ends, with the value and the queue as they were, for every depth and capacity.\<close>

lemma rounds_end:
  "repr q h [] \<Longrightarrow> \<exists>q'. timing_rounds push pop depth loops d q = Some (d, q') \<and>
    repr q' (h + loops * min cap (unat depth)) []"
proof (induction loops arbitrary: q h)
  case (Suc loops)
  obtain q1 where q1: "push_times push (unat depth) d q = Some q1" "repr q1 h (replicate (min cap (unat depth)) d)"
    using push_times_fills [of q h 0 d "unat depth"] Suc.prems by auto
  obtain q2 where q2: "pop_times pop (unat depth) d q1 = Some (d, q2)" "repr q2 (h + min cap (unat depth)) []"
    using pop_times_empties [OF q1(2), of "unat depth"] by auto
  from Suc.IH [OF q2(2)] q1(1) q2(1) show ?case by (auto simp: algebra_simps)
qed simp

end

section \<open>The reader and the writer\<close>

text \<open>
  \<open>R_test\<close> is the condition of the reader's loop, \<open>R_tsc\<close> the record of a popped stamp, \<open>R_print i\<close> the report;
  \<open>W_push t\<close> pushes the stamp that was read. A slot of \<open>diffs\<close> is \<open>None\<close> until it is written, and a step
  that reads such a slot or leaves the array is a \<open>Fault\<close>.
\<close>

datatype qr_pc = R_test | R_pop | R_tsc | R_print u32 | R_done

datatype qw_pc = W_stamp | W_push u64 | W_zero | W_done

record timing =
  tq :: "u64 list"
  stsc :: u64
  diffs :: "u64 option list"
  tn :: u32
  reader_pc :: qr_pc
  writer_i :: u32
  writer_pc :: qw_pc

datatype 's move = Stuck | Fault | Moved 's

definition timing_start :: "u32 \<Rightarrow> timing" where
  "timing_start depth =
     \<lparr>tq = [], stsc = 1, diffs = replicate (unat (depth + 1)) None, tn = 0, reader_pc = R_test, writer_i = 0, writer_pc = W_stamp\<rparr>"

definition reader_step :: "u32 \<Rightarrow> u64 \<Rightarrow> timing \<Rightarrow> timing move" where
  "reader_step depth tsc s =
     (case reader_pc s of
        R_test \<Rightarrow> Moved (s\<lparr>reader_pc := if stsc s \<noteq> 0 then R_pop else R_print 0\<rparr>)
      | R_pop \<Rightarrow>
          (case tq s of [] \<Rightarrow> Moved (s\<lparr>reader_pc := R_test\<rparr>) | d # q \<Rightarrow> Moved (s\<lparr>tq := q, stsc := d, reader_pc := R_tsc\<rparr>))
      | R_tsc \<Rightarrow>
          if unat (tn s) < length (diffs s)
          then Moved (s\<lparr>diffs := (diffs s)[unat (tn s) := Some (tsc - stsc s)], tn := tn s + 1, reader_pc := R_test\<rparr>)
          else Fault
      | R_print i \<Rightarrow>
          if i < depth then
            if unat i < length (diffs s) \<and> diffs s ! unat i \<noteq> None then Moved (s\<lparr>reader_pc := R_print (i + 1)\<rparr>) else Fault
          else Moved (s\<lparr>reader_pc := R_done\<rparr>)
      | R_done \<Rightarrow> Stuck)"

definition writer_step :: "nat \<Rightarrow> u32 \<Rightarrow> u64 \<Rightarrow> timing \<Rightarrow> timing move" where
  "writer_step n depth tsc s =
     (case writer_pc s of
        W_stamp \<Rightarrow> Moved (s\<lparr>writer_pc := if writer_i s < depth then W_push tsc else W_zero\<rparr>)
      | W_push d \<Rightarrow>
          (case q_push n d (tq s) of
             (ok, q) \<Rightarrow> Moved (if ok then s\<lparr>tq := q, writer_i := writer_i s + 1, writer_pc := W_stamp\<rparr> else s\<lparr>writer_pc := W_stamp\<rparr>))
      | W_zero \<Rightarrow> (case q_push n 0 (tq s) of (ok, q) \<Rightarrow> Moved (if ok then s\<lparr>tq := q, writer_pc := W_done\<rparr> else s))
      | W_done \<Rightarrow> Stuck)"

datatype timing_act = Read_at u64 | Write_at u64

fun timing_run :: "nat \<Rightarrow> u32 \<Rightarrow> timing_act list \<Rightarrow> timing \<Rightarrow> timing move" where
  "timing_run n depth [] s = Moved s"
| "timing_run n depth (a # as) s =
     (case (case a of Read_at tsc \<Rightarrow> reader_step depth tsc s | Write_at tsc \<Rightarrow> writer_step n depth tsc s) of
        Moved s' \<Rightarrow> timing_run n depth as s' | m \<Rightarrow> m)"

section \<open>The invariant\<close>

text \<open>
  \<open>ps\<close> lists the values pushed so far, \<open>ws\<close> the stamps among them; the reader has taken the first \<open>k\<close> of \<open>ps\<close>
  and recorded each of them but the one in its hand.
\<close>

definition writer_inv :: "u32 \<Rightarrow> timing \<Rightarrow> u64 list \<Rightarrow> bool" where
  "writer_inv depth s ws \<longleftrightarrow>
     0 \<notin> set ws \<and> length ws = unat (writer_i s) \<and> writer_i s \<le> depth \<and>
     (\<forall>d. writer_pc s = W_push d \<longrightarrow> d \<noteq> 0 \<and> writer_i s < depth) \<and> (writer_pc s \<in> {W_zero, W_done} \<longrightarrow> writer_i s = depth)"

definition pushed_values :: "timing \<Rightarrow> u64 list \<Rightarrow> u64 list" where
  "pushed_values s ws = (if writer_pc s = W_done then ws @ [0] else ws)"

definition reader_inv :: "u32 \<Rightarrow> timing \<Rightarrow> u64 list \<Rightarrow> bool" where
  "reader_inv depth s ps \<longleftrightarrow>
     (let k = unat (tn s) + of_bool (reader_pc s = R_tsc)
      in k \<le> length ps \<and> tq s = drop k ps \<and> stsc s = (1 # ps) ! k \<and> length (diffs s) = unat depth + 1 \<and>
         (\<forall>i < unat (tn s). diffs s ! i \<noteq> None) \<and> (reader_pc s = R_pop \<longrightarrow> stsc s \<noteq> 0) \<and>
         (\<forall>i. reader_pc s = R_print i \<longrightarrow> i \<le> depth \<and> unat (tn s) = unat depth + 1) \<and>
         (reader_pc s = R_done \<longrightarrow> unat (tn s) = unat depth + 1))"

definition timing_ok :: "u32 \<Rightarrow> timing \<Rightarrow> bool" where
  "timing_ok depth s \<longleftrightarrow> (\<exists>ws. writer_inv depth s ws \<and> reader_inv depth s (pushed_values s ws))"

lemma depth_succ: "depth \<noteq> - 1 \<Longrightarrow> unat (depth + 1 :: u32) = Suc (unat depth)"
  by (metis add.commute add_eq_0_iff unatSuc)

lemma timing_start_ok: "depth \<noteq> - 1 \<Longrightarrow> timing_ok depth (timing_start depth)"
  by (simp add: timing_ok_def writer_inv_def reader_inv_def pushed_values_def timing_start_def depth_succ)

lemma writer_ok:
  assumes ok: "timing_ok depth s" and step: "writer_step n depth tsc s = m" and tsc: "tsc \<noteq> 0"
  shows "m \<noteq> Fault \<and> (\<forall>s'. m = Moved s' \<longrightarrow> timing_ok depth s')"
proof -
  obtain ws where w: "writer_inv depth s ws" and r: "reader_inv depth s (pushed_values s ws)"
    using ok by (auto simp: timing_ok_def)
  show ?thesis
  proof (cases "writer_pc s")
    case W_stamp
    let ?s = "s\<lparr>writer_pc := if writer_i s < depth then W_push tsc else W_zero\<rparr>"
    have "writer_inv depth ?s ws" using w tsc W_stamp by (auto simp: writer_inv_def)
    moreover have "reader_inv depth ?s (pushed_values ?s ws)" using r W_stamp by (simp add: reader_inv_def pushed_values_def)
    ultimately show ?thesis using step W_stamp by (auto simp: writer_step_def timing_ok_def)
  next
    case (W_push d)
    let ?same = "s\<lparr>writer_pc := W_stamp\<rparr>"
    let ?s = "s\<lparr>tq := tq s @ [d], writer_i := writer_i s + 1, writer_pc := W_stamp\<rparr>"
    have lt: "d \<noteq> 0" "writer_i s < depth" using w W_push by (simp_all add: writer_inv_def)
    then have "Suc (unat (writer_i s)) \<le> unat depth" by (simp add: word_less_nat_alt)
    then have inc: "unat (writer_i s + 1) = Suc (unat (writer_i s))" "writer_i s + 1 \<le> depth"
      using word_increment [of "writer_i s" "unat depth"] unat_bound [of depth] by (simp_all add: word_le_nat_alt)
    have "writer_inv depth ?same ws" "reader_inv depth ?same (pushed_values ?same ws)"
      using w r W_push by (simp_all add: writer_inv_def reader_inv_def pushed_values_def)
    moreover have "writer_inv depth ?s (ws @ [d])" using w lt inc by (auto simp: writer_inv_def)
    moreover have "reader_inv depth ?s (pushed_values ?s (ws @ [d]))"
      using r W_push unfolding reader_inv_def pushed_values_def Let_def
      by (auto simp: nth_append nth_Cons split: nat.splits)
    ultimately show ?thesis using step W_push by (cases "length (tq s) < n") (auto simp: writer_step_def timing_ok_def q_push_def)
  next
    case W_zero
    let ?s = "s\<lparr>tq := tq s @ [0], writer_pc := W_done\<rparr>"
    have "writer_inv depth ?s ws" using w W_zero by (simp add: writer_inv_def)
    moreover have "reader_inv depth ?s (pushed_values ?s ws)"
      using r W_zero unfolding reader_inv_def pushed_values_def Let_def
      by (auto simp: nth_append nth_Cons split: nat.splits)
    ultimately show ?thesis using step W_zero ok by (cases "length (tq s) < n") (auto simp: writer_step_def timing_ok_def q_push_def)
  next
    case W_done
    then show ?thesis using step by (auto simp: writer_step_def)
  qed
qed

lemma reader_frame:
  assumes "writer_inv depth s ws" and "reader_inv depth s' (pushed_values s ws)" and "writer_i s' = writer_i s" and "writer_pc s' = writer_pc s"
  shows "timing_ok depth s'"
  using assms unfolding timing_ok_def by (intro exI [of _ ws]) (simp add: writer_inv_def pushed_values_def)

text \<open>When the reader has the 0 in its hand, it has recorded everything.\<close>

lemma zero_last:
  assumes w: "writer_inv depth s ws" and r: "reader_inv depth s (pushed_values s ws)" and zero: "stsc s = 0" "reader_pc s = R_test"
  shows "unat (tn s) = unat depth + 1"
proof -
  let ?ps = "pushed_values s ws"
  have k: "unat (tn s) \<le> length ?ps" "(1 # ?ps) ! unat (tn s) = 0" using r zero by (simp_all add: reader_inv_def Let_def)
  then obtain j where j: "unat (tn s) = Suc j" "?ps ! j = 0" by (cases "unat (tn s)") auto
  have "\<not> j < length ws"
  proof
    assume "j < length ws"
    moreover from this have "?ps ! j = ws ! j" by (simp add: pushed_values_def nth_append)
    ultimately have "0 \<in> set ws" using j(2) nth_mem by metis
    with w show False by (simp add: writer_inv_def)
  qed
  then have "j = length ws" "writer_pc s = W_done"
    using k(1) j(1) by (auto simp: pushed_values_def split: if_splits)
  with j w show ?thesis by (simp add: writer_inv_def)
qed

lemma reader_pop_ok:
  assumes w: "writer_inv depth s ws" and r: "reader_inv depth s (pushed_values s ws)" and at: "reader_pc s = R_pop"
    and step: "reader_step depth tsc s = m"
  shows "m \<noteq> Fault \<and> (\<forall>s'. m = Moved s' \<longrightarrow> timing_ok depth s')"
proof (cases "tq s")
  case Nil
  have "reader_inv depth (s\<lparr>reader_pc := R_test\<rparr>) (pushed_values s ws)" using r at by (simp add: reader_inv_def Let_def)
  then show ?thesis using step at Nil reader_frame [OF w] by (auto simp: reader_step_def)
next
  case (Cons d q)
  let ?ps = "pushed_values s ws"
  have "d # q = drop (unat (tn s)) ?ps" using r at Cons by (simp add: reader_inv_def Let_def)
  then have "unat (tn s) < length ?ps" "d = ?ps ! unat (tn s)" "q = drop (Suc (unat (tn s))) ?ps"
    by (metis drop_all list.distinct(1) not_le, metis nth_via_drop, metis drop_Suc list.sel(3) tl_drop)
  then have "reader_inv depth (s\<lparr>tq := q, stsc := d, reader_pc := R_tsc\<rparr>) ?ps"
    using r at by (simp add: reader_inv_def Let_def)
  then show ?thesis using step at Cons reader_frame [OF w] by (auto simp: reader_step_def)
qed

lemma reader_tsc_ok:
  assumes w: "writer_inv depth s ws" and r: "reader_inv depth s (pushed_values s ws)" and at: "reader_pc s = R_tsc"
    and step: "reader_step depth tsc s = m" and depth: "depth \<noteq> - 1"
  shows "m \<noteq> Fault \<and> (\<forall>s'. m = Moved s' \<longrightarrow> timing_ok depth s')"
proof -
  have "length (pushed_values s ws) \<le> unat depth + 1"
    using w by (auto simp: writer_inv_def pushed_values_def word_le_nat_alt)
  then have room: "unat (tn s) < unat depth + 1" using r at by (simp add: reader_inv_def Let_def)
  moreover have "unat depth + 1 < 2 ^ 32" using depth_succ [OF depth] unat_bound [of "depth + 1"] by simp
  ultimately have inc: "unat (tn s + 1) = Suc (unat (tn s))" using word_increment [of "tn s" "unat depth + 1"] by simp
  have "reader_inv depth (s\<lparr>diffs := (diffs s)[unat (tn s) := Some (tsc - stsc s)], tn := tn s + 1, reader_pc := R_test\<rparr>) (pushed_values s ws)"
    using r at room inc by (auto simp: reader_inv_def Let_def nth_list_update less_Suc_eq)
  then show ?thesis using step at room r reader_frame [OF w] by (auto simp: reader_step_def reader_inv_def Let_def)
qed

lemma reader_print_ok:
  assumes w: "writer_inv depth s ws" and r: "reader_inv depth s (pushed_values s ws)" and at: "reader_pc s = R_print i"
    and step: "reader_step depth tsc s = m"
  shows "m \<noteq> Fault \<and> (\<forall>s'. m = Moved s' \<longrightarrow> timing_ok depth s')"
proof (cases "i < depth")
  case True
  then have "unat i < unat (tn s)" using r at by (simp add: reader_inv_def Let_def word_less_nat_alt)
  moreover have "reader_inv depth (s\<lparr>reader_pc := R_print (i + 1)\<rparr>) (pushed_values s ws)"
    using r at inc_le [OF True] by (simp add: reader_inv_def Let_def)
  ultimately show ?thesis using step at True r reader_frame [OF w] by (auto simp: reader_step_def reader_inv_def Let_def)
next
  case False
  have "reader_inv depth (s\<lparr>reader_pc := R_done\<rparr>) (pushed_values s ws)" using r at by (simp add: reader_inv_def Let_def)
  then show ?thesis using step at False reader_frame [OF w] by (auto simp: reader_step_def)
qed

lemma reader_ok:
  assumes ok: "timing_ok depth s" and step: "reader_step depth tsc s = m" and depth: "depth \<noteq> - 1"
  shows "m \<noteq> Fault \<and> (\<forall>s'. m = Moved s' \<longrightarrow> timing_ok depth s')"
proof -
  obtain ws where w: "writer_inv depth s ws" and r: "reader_inv depth s (pushed_values s ws)"
    using ok by (auto simp: timing_ok_def)
  show ?thesis
  proof (cases "reader_pc s")
    case R_test
    have "reader_inv depth (s\<lparr>reader_pc := if stsc s \<noteq> 0 then R_pop else R_print 0\<rparr>) (pushed_values s ws)"
      using r R_test zero_last [OF w r] by (simp add: reader_inv_def Let_def)
    then show ?thesis using step R_test reader_frame [OF w] by (auto simp: reader_step_def)
  next
    case R_done
    then show ?thesis using step by (auto simp: reader_step_def)
  qed (use reader_pop_ok [OF w r] reader_tsc_ok [OF w r] reader_print_ok [OF w r] step depth in blast)+
qed

fun stamped :: "timing_act \<Rightarrow> bool" where
  "stamped (Write_at tsc) = (tsc \<noteq> 0)"
| "stamped (Read_at tsc) = True"

lemma timing_run_ok:
  assumes depth: "depth \<noteq> - 1"
  shows "timing_ok depth s \<Longrightarrow> \<forall>a \<in> set as. stamped a \<Longrightarrow>
    timing_run n depth as s \<noteq> Fault \<and> (\<forall>s'. timing_run n depth as s = Moved s' \<longrightarrow> timing_ok depth s')"
proof (induction as arbitrary: s)
  case (Cons a as)
  let ?m = "case a of Read_at tsc \<Rightarrow> reader_step depth tsc s | Write_at tsc \<Rightarrow> writer_step n depth tsc s"
  have "?m \<noteq> Fault \<and> (\<forall>s'. ?m = Moved s' \<longrightarrow> timing_ok depth s')"
    using Cons.prems(2) reader_ok [OF Cons.prems(1) refl depth] writer_ok [OF Cons.prems(1) refl]
    by (cases a) (simp_all, blast+)
  then show ?case using Cons.IH Cons.prems(2) by (cases ?m) simp_all
qed simp

text \<open>When the reader is done, so is the writer; the queue is empty and everything printed was recorded.\<close>

lemma timing_report:
  assumes ok: "timing_ok depth s" and read: "reader_pc s = R_done"
  shows "writer_pc s = W_done \<and> tq s = [] \<and> (\<forall>i \<le> unat depth. diffs s ! i \<noteq> None)"
proof -
  obtain ws where w: "writer_inv depth s ws" and r: "reader_inv depth s (pushed_values s ws)"
    using ok by (auto simp: timing_ok_def)
  have k: "unat (tn s) = unat depth + 1" "unat (tn s) \<le> length (pushed_values s ws)" "tq s = drop (unat (tn s)) (pushed_values s ws)"
    using r read by (simp_all add: reader_inv_def Let_def)
  have "length ws \<le> unat depth" using w by (simp add: writer_inv_def word_le_nat_alt)
  with k(1,2) have "writer_pc s = W_done" by (auto simp: pushed_values_def split: if_splits)
  moreover from this w have "length (pushed_values s ws) = unat depth + 1" by (simp add: pushed_values_def writer_inv_def)
  ultimately show ?thesis using k r read by (auto simp: reader_inv_def Let_def)
qed

end
