(* ===== verification/SumRuns.thy ===== *)
theory SumRuns
  imports Bandwidth
begin

text \<open>
  The example programs \<^verbatim>\<open>src/example1.cpp\<close> and \<^verbatim>\<open>src/example2.cpp\<close>: producers push the numbers below \<open>N\<close> and
  add them up, as many consumers pop \<open>N\<close> values each and add them up, and the sums are compared. The
  first program adds directly to the shared sums, the second one to a variable of the thread, which is
  added to the shared sum at the end. The queue is the abstract one, its capacity an argument.
\<close>

section \<open>The programs\<close>

datatype sp_pc = SP_loop | SP_add | SP_total | SP_done

datatype sc_pc = SC_loop | SC_add u32 | SC_total | SC_done

record 'w sum_producer =
  sp_at :: sp_pc
  sp_x :: u32
  sp_m :: 'w

record 'w sum_consumer =
  sc_at :: sc_pc
  sc_x :: u32
  sc_m :: 'w

record 'w sum_run =
  sq :: "u32 list"
  sum_producers :: "'w sum_producer list"
  sum_consumers :: "'w sum_consumer list"
  sr_prod_sum :: 'w
  sr_cons_sum :: 'w

definition sum_start :: "nat \<Rightarrow> 'w::len word sum_run" where
  "sum_start P =
     \<lparr>sq = [], sum_producers = replicate P \<lparr>sp_at = SP_loop, sp_x = 0, sp_m = 0\<rparr>,
      sum_consumers = replicate P \<lparr>sc_at = SC_loop, sc_x = 0, sc_m = 0\<rparr>, sr_prod_sum = 0, sr_cons_sum = 0\<rparr>"

text \<open>\<open>direct\<close> is the first program; its threads have no sum of their own to add at the end.\<close>

definition sum_producer_step :: "bool \<Rightarrow> nat \<Rightarrow> u32 \<Rightarrow> nat \<Rightarrow> 'w::len word sum_run \<Rightarrow> 'w word sum_run option" where
  "sum_producer_step direct n N p s =
     (let r = sum_producers s ! p;
          go = (\<lambda>r' s'. Some (s'\<lparr>sum_producers := (sum_producers s')[p := r']\<rparr>))
      in case sp_at r of
           SP_loop \<Rightarrow>
             if sp_x r < N
             then (case q_push n (sp_x r) (sq s) of (ok, q) \<Rightarrow> go (if ok then r\<lparr>sp_at := SP_add\<rparr> else r) (s\<lparr>sq := q\<rparr>))
             else go (r\<lparr>sp_at := SP_total\<rparr>) s
         | SP_add \<Rightarrow>
             if direct then go (r\<lparr>sp_at := SP_loop, sp_x := sp_x r + 1\<rparr>) (s\<lparr>sr_prod_sum := sr_prod_sum s + ucast (sp_x r)\<rparr>)
             else go (r\<lparr>sp_at := SP_loop, sp_x := sp_x r + 1, sp_m := sp_m r + ucast (sp_x r)\<rparr>) s
         | SP_total \<Rightarrow> go (r\<lparr>sp_at := SP_done\<rparr>) (if direct then s else s\<lparr>sr_prod_sum := sr_prod_sum s + sp_m r\<rparr>)
         | SP_done \<Rightarrow> None)"

definition sum_consumer_step :: "bool \<Rightarrow> u32 \<Rightarrow> nat \<Rightarrow> 'w::len word sum_run \<Rightarrow> 'w word sum_run option" where
  "sum_consumer_step direct N c s =
     (let r = sum_consumers s ! c;
          go = (\<lambda>r' s'. Some (s'\<lparr>sum_consumers := (sum_consumers s')[c := r']\<rparr>))
      in case sc_at r of
           SC_loop \<Rightarrow>
             if sc_x r < N
             then (case sq s of [] \<Rightarrow> go r s | v # q \<Rightarrow> go (r\<lparr>sc_at := SC_add v\<rparr>) (s\<lparr>sq := q\<rparr>))
             else go (r\<lparr>sc_at := SC_total\<rparr>) s
         | SC_add v \<Rightarrow>
             if direct then go (r\<lparr>sc_at := SC_loop, sc_x := sc_x r + 1\<rparr>) (s\<lparr>sr_cons_sum := sr_cons_sum s + ucast v\<rparr>)
             else go (r\<lparr>sc_at := SC_loop, sc_x := sc_x r + 1, sc_m := sc_m r + ucast v\<rparr>) s
         | SC_total \<Rightarrow> go (r\<lparr>sc_at := SC_done\<rparr>) (if direct then s else s\<lparr>sr_cons_sum := sr_cons_sum s + sc_m r\<rparr>)
         | SC_done \<Rightarrow> None)"

datatype sum_act = Sum_producer nat | Sum_consumer nat

definition sum_step :: "bool \<Rightarrow> nat \<Rightarrow> u32 \<Rightarrow> sum_act \<Rightarrow> 'w::len word sum_run \<Rightarrow> 'w word sum_run option" where
  "sum_step direct n N a s =
     (case a of
        Sum_producer p \<Rightarrow> if p < length (sum_producers s) then sum_producer_step direct n N p s else None
      | Sum_consumer c \<Rightarrow> if c < length (sum_consumers s) then sum_consumer_step direct N c s else None)"

fun sum_acts :: "bool \<Rightarrow> nat \<Rightarrow> u32 \<Rightarrow> sum_act list \<Rightarrow> 'w::len word sum_run \<Rightarrow> 'w word sum_run option" where
  "sum_acts direct n N [] s = Some s"
| "sum_acts direct n N (a # as) s = Option.bind (sum_step direct n N a s) (sum_acts direct n N as)"

text \<open>When the threads are joined: \<^verbatim>\<open>OK\<close> or \<^verbatim>\<open>ERROR\<close>.\<close>

definition joined :: "'w sum_run \<Rightarrow> bool" where
  "joined s \<longleftrightarrow> (\<forall>r \<in> set (sum_producers s). sp_at r = SP_done) \<and> (\<forall>r \<in> set (sum_consumers s). sc_at r = SC_done)"

definition prints_OK :: "'w::len word sum_run \<Rightarrow> bool" where
  "prints_OK s \<longleftrightarrow> sr_cons_sum s \<noteq> 0 \<and> sr_cons_sum s = sr_prod_sum s"

section \<open>The invariant\<close>

definition sp_pushed :: "'w sum_producer \<Rightarrow> nat" where
  "sp_pushed r = unat (sp_x r) + of_bool (sp_at r = SP_add)"

definition sc_popped :: "'w sum_consumer \<Rightarrow> nat" where
  "sc_popped r = unat (sc_x r) + of_bool (\<exists>v. sc_at r = SC_add v)"

text \<open>What a thread has pushed or popped and not yet added to the shared sum.\<close>

definition sp_pending :: "bool \<Rightarrow> 'w::len word sum_producer \<Rightarrow> 'w word" where
  "sp_pending direct r =
     (if direct \<or> sp_at r = SP_done then 0 else sp_m r) + (if sp_at r = SP_add then ucast (sp_x r) else 0)"

definition sc_pending :: "bool \<Rightarrow> 'w::len word sum_consumer \<Rightarrow> 'w word" where
  "sc_pending direct r =
     (if direct \<or> sc_at r = SC_done then 0 else sc_m r) + (case sc_at r of SC_add v \<Rightarrow> ucast v | _ \<Rightarrow> 0)"

definition below :: "nat \<Rightarrow> 'w::len word" where
  "below k = (\<Sum>x<k. of_nat x)"

definition sp_ok :: "u32 \<Rightarrow> 'w sum_producer \<Rightarrow> bool" where
  "sp_ok N r \<longleftrightarrow> sp_x r \<le> N \<and> (sp_at r = SP_add \<longrightarrow> sp_x r < N) \<and> (sp_at r \<in> {SP_total, SP_done} \<longrightarrow> sp_x r = N)"

definition sc_ok :: "u32 \<Rightarrow> 'w sum_consumer \<Rightarrow> bool" where
  "sc_ok N r \<longleftrightarrow> sc_x r \<le> N \<and> (\<forall>v. sc_at r = SC_add v \<longrightarrow> sc_x r < N) \<and> (sc_at r \<in> {SC_total, SC_done} \<longrightarrow> sc_x r = N)"

definition sum_ok :: "bool \<Rightarrow> u32 \<Rightarrow> nat \<Rightarrow> 'w::len word sum_run \<Rightarrow> bool" where
  "sum_ok direct N P s \<longleftrightarrow>
     length (sum_producers s) = P \<and> length (sum_consumers s) = P \<and>
     (\<forall>r \<in> set (sum_producers s). sp_ok N r) \<and> (\<forall>r \<in> set (sum_consumers s). sc_ok N r) \<and>
     length (sq s) + sum_list (map sc_popped (sum_consumers s)) = sum_list (map sp_pushed (sum_producers s)) \<and>
     sr_prod_sum s + sum_list (map (sp_pending direct) (sum_producers s)) =
       sum_list (map (\<lambda>r. below (sp_pushed r)) (sum_producers s)) \<and>
     sr_cons_sum s + sum_list (map (sc_pending direct) (sum_consumers s)) + sum_list (map ucast (sq s)) =
       sr_prod_sum s + sum_list (map (sp_pending direct) (sum_producers s))"

lemma sum_start_ok: "sum_ok direct N P (sum_start P)"
  by (simp add: sum_ok_def sum_start_def sum_list_replicate sp_ok_def sc_ok_def sp_pushed_def sc_popped_def
      sp_pending_def sc_pending_def below_def set_replicate_conv_if)

text \<open>One thread is replaced: the sums change by what the thread changes.\<close>

lemma replaced_balance:
  fixes a :: "'a::cancel_comm_monoid_add"
  assumes "a + sp = sb" and "a' + p' + b = a + p + b'" and "sp' + p = sp + p'" and "sb' + b = sb + b'"
  shows "a' + sp' = sb'"
proof -
  have "(a' + sp') + (p' + b + p) = (a' + p' + b) + (sp' + p)" by (simp add: ac_simps)
  also have "\<dots> = ((a + sp) + b') + (p + p')" unfolding assms(2,3) by (simp add: ac_simps)
  also have "\<dots> = sb' + (p' + b + p)" unfolding assms(1) assms(4) [symmetric] by (simp add: ac_simps)
  finally show ?thesis by simp
qed

lemma producer_replaced:
  fixes s :: "'w::len word sum_run"
  assumes ok: "sum_ok direct N P s" and p: "p < length (sum_producers s)" and r: "r = sum_producers s ! p"
    and s': "sum_producers s' = (sum_producers s)[p := r']" "sum_consumers s' = sum_consumers s" "sr_cons_sum s' = sr_cons_sum s"
    and own: "sp_ok N r \<Longrightarrow> sp_ok N r'"
    and count: "length (sq s') + sp_pushed r = length (sq s) + sp_pushed r'"
    and sum: "sr_prod_sum s' + sp_pending direct r' + below (sp_pushed r) = sr_prod_sum s + sp_pending direct r + below (sp_pushed r')"
    and queue: "sum_list (map ucast (sq s')) + below (sp_pushed r) = sum_list (map ucast (sq s)) + (below (sp_pushed r') :: 'w word)"
  shows "sum_ok direct N P s'"
proof -
  let ?b = "\<lambda>r. below (sp_pushed r) :: 'w word"
  have bal: "sr_prod_sum s + sum_list (map (sp_pending direct) (sum_producers s)) = sum_list (map ?b (sum_producers s))"
      "sum_list (map ucast (sq s)) + (sr_cons_sum s + sum_list (map (sc_pending direct) (sum_consumers s))) = sum_list (map ?b (sum_producers s))"
    using ok by (simp_all add: sum_ok_def ac_simps)
  have "sum_list (map sp_pushed (sum_producers s')) + sp_pushed r = sum_list (map sp_pushed (sum_producers s)) + sp_pushed r'"
    using sum_update_add [OF p, of sp_pushed r'] by (simp add: s' r)
  then have "length (sq s') + sum_list (map sc_popped (sum_consumers s')) = sum_list (map sp_pushed (sum_producers s'))"
    using ok count by (simp add: sum_ok_def s')
  moreover have "sp_ok N r'" using own ok p nth_mem r by (metis sum_ok_def)
  then have "\<forall>r \<in> set (sum_producers s'). sp_ok N r"
    using ok ball_update [OF p, of "sp_ok N" r'] by (simp add: sum_ok_def s')
  moreover have parts: "sum_list (map (sp_pending direct) (sum_producers s')) + sp_pending direct r =
        sum_list (map (sp_pending direct) (sum_producers s)) + sp_pending direct r'"
      "sum_list (map ?b (sum_producers s')) + ?b r = sum_list (map ?b (sum_producers s)) + ?b r'"
    using sum_update_add [OF p, of "sp_pending direct" r'] sum_update_add [OF p, of ?b r'] by (simp_all only: s' r)
  have "sr_prod_sum s' + sum_list (map (sp_pending direct) (sum_producers s')) = sum_list (map ?b (sum_producers s'))"
    by (rule replaced_balance [OF bal(1) sum parts])
  moreover have "sum_list (map ucast (sq s')) + (sr_cons_sum s + sum_list (map (sc_pending direct) (sum_consumers s))) =
      sum_list (map ?b (sum_producers s'))"
    by (rule replaced_balance [OF bal(2), where p = 0 and p' = 0, OF _ refl parts(2)]) (simp only: queue add_0_right)
  ultimately show ?thesis using ok by (simp add: sum_ok_def s' ac_simps)
qed

lemma consumer_replaced:
  fixes s :: "'w::len word sum_run"
  assumes ok: "sum_ok direct N P s" and c: "c < length (sum_consumers s)" and r: "r = sum_consumers s ! c"
    and s': "sum_consumers s' = (sum_consumers s)[c := r']" "sum_producers s' = sum_producers s" "sr_prod_sum s' = sr_prod_sum s"
    and own: "sc_ok N r \<Longrightarrow> sc_ok N r'"
    and count: "length (sq s') + sc_popped r' = length (sq s) + sc_popped r"
    and sum: "sr_cons_sum s' + sum_list (map ucast (sq s')) + sc_pending direct r' =
      sr_cons_sum s + sum_list (map ucast (sq s)) + sc_pending direct r"
  shows "sum_ok direct N P s'"
proof -
  have "sum_list (map sc_popped (sum_consumers s')) + sc_popped r = sum_list (map sc_popped (sum_consumers s)) + sc_popped r'"
    using sum_update_add [OF c, of sc_popped r'] by (simp add: s' r)
  then have "length (sq s') + sum_list (map sc_popped (sum_consumers s')) = sum_list (map sp_pushed (sum_producers s'))"
    using ok count by (simp add: sum_ok_def s')
  moreover have "sc_ok N r'" using own ok c nth_mem r by (metis sum_ok_def)
  then have "\<forall>r \<in> set (sum_consumers s'). sc_ok N r"
    using ok ball_update [OF c, of "sc_ok N" r'] by (simp add: sum_ok_def s')
  moreover have part: "sum_list (map (sc_pending direct) (sum_consumers s')) + sc_pending direct r =
      sum_list (map (sc_pending direct) (sum_consumers s)) + sc_pending direct r'"
    using sum_update_add [OF c, of "sc_pending direct" r'] by (simp only: s' r)
  have "(sr_cons_sum s' + sum_list (map ucast (sq s'))) + sum_list (map (sc_pending direct) (sum_consumers s')) =
      sr_prod_sum s + sum_list (map (sp_pending direct) (sum_producers s))"
    by (rule replaced_balance [OF _ _ part, where b = 0 and b' = 0, OF _ _ refl])
      (use ok sum in \<open>simp_all add: sum_ok_def ac_simps\<close>)
  ultimately show ?thesis using ok by (simp add: sum_ok_def s' ac_simps)
qed

lemma below_Suc: "below (Suc k) = below k + of_nat k"
  by (simp add: below_def)

lemma next_value:
  fixes x N :: u32
  assumes "x < N"
  shows "unat (x + 1) = Suc (unat x)" and "x + 1 \<le> N"
proof -
  have "Suc (unat x) \<le> unat N" using assms by (simp add: word_less_nat_alt)
  then show "unat (x + 1) = Suc (unat x)" "x + 1 \<le> N"
    using word_increment [of x "unat N"] unat_bound [of N] by (simp_all add: word_le_nat_alt)
qed

text \<open>In the loop a producer either pushes, or tries again, or goes on to its total.\<close>

lemma producer_loop_cases:
  assumes "sum_producer_step direct n N p s = Some s'" and "sum_producers s ! p = r" and "sp_at r = SP_loop"
  obtains (pushed) "sp_x r < N" and "s' = s\<lparr>sq := sq s @ [sp_x r], sum_producers := (sum_producers s)[p := r\<lparr>sp_at := SP_add\<rparr>]\<rparr>"
    | (again) "sp_x r < N" and "s' = s\<lparr>sum_producers := (sum_producers s)[p := r]\<rparr>"
    | (over) "\<not> sp_x r < N" and "s' = s\<lparr>sum_producers := (sum_producers s)[p := r\<lparr>sp_at := SP_total\<rparr>]\<rparr>"
  using assms by (auto simp: sum_producer_step_def Let_def q_push_def split: if_splits)

lemma consumer_loop_cases:
  assumes "sum_consumer_step direct N c s = Some s'" and "sum_consumers s ! c = r" and "sc_at r = SC_loop"
  obtains (popped) v q where "sq s = v # q" and "sc_x r < N" and
      "s' = s\<lparr>sq := q, sum_consumers := (sum_consumers s)[c := r\<lparr>sc_at := SC_add v\<rparr>]\<rparr>"
    | (again) "sc_x r < N" and "s' = s\<lparr>sum_consumers := (sum_consumers s)[c := r]\<rparr>"
    | (over) "\<not> sc_x r < N" and "s' = s\<lparr>sum_consumers := (sum_consumers s)[c := r\<lparr>sc_at := SC_total\<rparr>]\<rparr>"
  using assms by (auto simp: sum_consumer_step_def Let_def split: if_splits list.splits)

lemma sum_producer_ok:
  assumes ok: "sum_ok direct N P s" and p: "p < length (sum_producers s)" and step: "sum_producer_step direct n N p s = Some s'"
  shows "sum_ok direct N P s'"
proof -
  define r where "r = sum_producers s ! p"
  have own: "sp_ok N r" using ok p nth_mem by (auto simp: sum_ok_def r_def)
  note replaced = producer_replaced [OF ok p r_def]
  note defs = sp_pushed_def sp_pending_def sp_ok_def
  show ?thesis
  proof (cases "sp_at r")
    case SP_loop
    show ?thesis
    proof (cases rule: producer_loop_cases [OF step r_def [symmetric] SP_loop])
      case 1
      then show ?thesis
        by (intro replaced [of s' "r\<lparr>sp_at := SP_add\<rparr>"]) (use SP_loop in \<open>simp_all add: defs below_Suc\<close>)
    next
      case 2
      then show ?thesis by (intro replaced [of s' r]) simp_all
    next
      case 3
      then have "sp_x r = N" using own by (simp add: sp_ok_def)
      with 3 SP_loop show ?thesis by (intro replaced [of s' "r\<lparr>sp_at := SP_total\<rparr>"]) (auto simp: defs)
    qed
  next
    case SP_add
    then have "sp_x r < N" using own by (simp add: sp_ok_def)
    note inc = next_value [OF this]
    show ?thesis
    proof (cases direct)
      case True
      with SP_add step inc show ?thesis
        by (intro replaced [of s' "r\<lparr>sp_at := SP_loop, sp_x := sp_x r + 1\<rparr>"])
          (auto simp: sum_producer_step_def Let_def defs simp flip: r_def)
    next
      case False
      with SP_add step inc show ?thesis
        by (intro replaced [of s' "r\<lparr>sp_at := SP_loop, sp_x := sp_x r + 1, sp_m := sp_m r + ucast (sp_x r)\<rparr>"])
          (auto simp: sum_producer_step_def Let_def defs simp flip: r_def)
    qed
  next
    case SP_total
    with step show ?thesis
      by (intro replaced [of s' "r\<lparr>sp_at := SP_done\<rparr>"])
        (auto simp: sum_producer_step_def Let_def defs simp flip: r_def)
  next
    case SP_done
    then show ?thesis using step by (simp add: sum_producer_step_def Let_def flip: r_def)
  qed
qed

lemma sum_consumer_ok:
  assumes ok: "sum_ok direct N P s" and c: "c < length (sum_consumers s)" and step: "sum_consumer_step direct N c s = Some s'"
  shows "sum_ok direct N P s'"
proof -
  define r where "r = sum_consumers s ! c"
  have own: "sc_ok N r" using ok c nth_mem by (auto simp: sum_ok_def r_def)
  note replaced = consumer_replaced [OF ok c r_def]
  note defs = sc_popped_def sc_pending_def sc_ok_def
  show ?thesis
  proof (cases "sc_at r")
    case SC_loop
    show ?thesis
    proof (cases rule: consumer_loop_cases [OF step r_def [symmetric] SC_loop])
      case (1 v q)
      with SC_loop show ?thesis by (intro replaced [of s' "r\<lparr>sc_at := SC_add v\<rparr>"]) (auto simp: defs)
    next
      case 2
      then show ?thesis by (intro replaced [of s' r]) simp_all
    next
      case 3
      then have "sc_x r = N" using own by (simp add: sc_ok_def)
      with 3 SC_loop show ?thesis by (intro replaced [of s' "r\<lparr>sc_at := SC_total\<rparr>"]) (auto simp: defs)
    qed
  next
    case (SC_add v)
    then have "sc_x r < N" using own by (simp add: sc_ok_def)
    note inc = next_value [OF this]
    show ?thesis
    proof (cases direct)
      case True
      with SC_add step inc show ?thesis
        by (intro replaced [of s' "r\<lparr>sc_at := SC_loop, sc_x := sc_x r + 1\<rparr>"])
          (auto simp: sum_consumer_step_def Let_def defs simp flip: r_def)
    next
      case False
      with SC_add step inc show ?thesis
        by (intro replaced [of s' "r\<lparr>sc_at := SC_loop, sc_x := sc_x r + 1, sc_m := sc_m r + ucast v\<rparr>"])
          (auto simp: sum_consumer_step_def Let_def defs simp flip: r_def)
    qed
  next
    case SC_total
    with step show ?thesis
      by (intro replaced [of s' "r\<lparr>sc_at := SC_done\<rparr>"])
        (auto simp: sum_consumer_step_def Let_def defs simp flip: r_def)
  next
    case SC_done
    then show ?thesis using step by (simp add: sum_consumer_step_def Let_def flip: r_def)
  qed
qed

lemma sum_step_ok: "sum_ok direct N P s \<Longrightarrow> sum_step direct n N a s = Some s' \<Longrightarrow> sum_ok direct N P s'"
  by (cases a) (auto simp: sum_step_def split: if_splits intro: sum_producer_ok sum_consumer_ok)

lemma sum_acts_ok: "sum_ok direct N P s \<Longrightarrow> sum_acts direct n N as s = Some s' \<Longrightarrow> sum_ok direct N P s'"
  by (induction as arbitrary: s) (auto simp: bind_eq_Some_conv dest: sum_step_ok)

section \<open>What the programs print\<close>

lemma below_gauss: "below k = of_nat (k * (k - 1) div 2)"
proof -
  have "below k = of_nat (\<Sum> {0..<k})" by (simp add: below_def atLeast0LessThan)
  then show ?thesis by (simp only: Sum_Ico_nat) simp
qed

lemma sum_list_constant: "\<forall>x \<in> set xs. f x = c \<Longrightarrow> sum_list (map f xs) = of_nat (length xs) * (c :: 'a::semiring_1)"
  by (induction xs) (simp_all add: distrib_right)

lemma sum_list_less:
  "\<forall>x \<in> set xs. f x \<le> c \<Longrightarrow> x \<in> set xs \<Longrightarrow> f x < c \<Longrightarrow> sum_list (map f xs) < length xs * (c :: nat)"
proof (induction xs)
  case (Cons y ys)
  show ?case
  proof (cases "x \<in> set ys")
    case True
    then show ?thesis using Cons by (simp add: add_le_less_mono)
  next
    case False
    have "sum_list (map f ys) \<le> sum_list (map (\<lambda>x. c) ys)" using Cons.prems(1) by (intro sum_list_mono) simp
    then show ?thesis using Cons.prems False by (auto simp: sum_list_triv intro: add_less_le_mono)
  qed
qed simp

theorem sum_joined:
  fixes s :: "'w::len word sum_run"
  assumes ok: "sum_ok direct N P s" and joined: "joined s"
  shows "sq s = [] \<and> sr_prod_sum s = of_nat (P * (unat N * (unat N - 1) div 2)) \<and> sr_cons_sum s = sr_prod_sum s"
proof -
  have len: "length (sum_producers s) = P" "length (sum_consumers s) = P" using ok by (simp_all add: sum_ok_def)
  have prods: "\<forall>r \<in> set (sum_producers s). sp_pushed r = unat N"
      "\<forall>r \<in> set (sum_producers s). sp_pending direct r = 0"
    using ok joined by (auto simp: sum_ok_def joined_def sp_ok_def sp_pushed_def sp_pending_def)
  have cons: "\<forall>r \<in> set (sum_consumers s). sc_popped r = unat N"
      "\<forall>r \<in> set (sum_consumers s). sc_pending direct r = 0"
    using ok joined by (auto simp: sum_ok_def joined_def sc_ok_def sc_popped_def sc_pending_def)
  have "length (sq s) + P * unat N = P * unat N"
    using ok sum_list_constant [OF prods(1)] sum_list_constant [OF cons(1)] by (simp add: sum_ok_def len)
  then have empty: "sq s = []" by simp
  have "sum_list (map (\<lambda>r. below (sp_pushed r)) (sum_producers s)) = of_nat P * (below (unat N) :: 'w word)"
    using sum_list_constant [of "sum_producers s" "\<lambda>r. below (sp_pushed r)" "below (unat N)"] prods(1) by (simp add: len)
  then have "sr_prod_sum s = of_nat P * below (unat N)"
    using ok sum_list_constant [OF prods(2)] by (simp add: sum_ok_def)
  moreover have "sr_cons_sum s = sr_prod_sum s"
    using ok empty sum_list_constant [OF prods(2)] sum_list_constant [OF cons(2)] by (simp add: sum_ok_def)
  ultimately show ?thesis using empty by (simp add: below_gauss)
qed

text \<open>A thread can move unless it is done, or waits for the queue.\<close>

lemma producer_moves:
  assumes p: "p < length (sum_producers s)"
  shows "sp_at (sum_producers s ! p) = SP_done \<or> sp_at (sum_producers s ! p) = SP_loop \<and> n \<le> length (sq s) \<or>
    (\<exists>s'. sum_producer_step direct n N p s = Some s' \<and> sp_at (sum_producers s' ! p) \<noteq> sp_at (sum_producers s ! p))"
proof -
  define r where "r = sum_producers s ! p"
  show ?thesis
  proof (cases "sp_at r")
    case SP_loop
    show ?thesis
    proof (cases "n \<le> length (sq s)")
      case False
      with SP_loop p show ?thesis
        by (cases "sp_x r < N") (simp_all add: sum_producer_step_def q_push_def flip: r_def)
    qed (use SP_loop in \<open>simp add: r_def\<close>)
  next
    case SP_add
    with p show ?thesis by (cases direct) (simp_all add: sum_producer_step_def flip: r_def)
  next
    case SP_total
    with p show ?thesis by (simp add: sum_producer_step_def flip: r_def)
  qed (simp add: r_def)
qed

lemma consumer_moves:
  assumes c: "c < length (sum_consumers s)"
  shows "sc_at (sum_consumers s ! c) = SC_done \<or>
    sc_at (sum_consumers s ! c) = SC_loop \<and> sc_x (sum_consumers s ! c) < N \<and> sq s = [] \<or>
    (\<exists>s'. sum_consumer_step direct N c s = Some s' \<and> sc_at (sum_consumers s' ! c) \<noteq> sc_at (sum_consumers s ! c))"
proof -
  define r where "r = sum_consumers s ! c"
  show ?thesis
  proof (cases "sc_at r")
    case SC_loop
    show ?thesis
    proof (cases "sq s = [] \<and> sc_x r < N")
      case False
      with SC_loop c show ?thesis
        by (cases "sc_x r < N"; cases "sq s") (simp_all add: sum_consumer_step_def flip: r_def)
    qed (use SC_loop in \<open>simp add: r_def\<close>)
  next
    case (SC_add v)
    with c show ?thesis by (cases direct) (simp_all add: sum_consumer_step_def flip: r_def)
  next
    case SC_total
    with c show ?thesis by (simp add: sum_consumer_step_def flip: r_def)
  qed (simp add: r_def)
qed

text \<open>The programs cannot get stuck: until all threads are done, some thread has a step that changes the state.\<close>

theorem sum_progress:
  assumes ok: "sum_ok direct N P s" and n: "0 < n" and running: "\<not> joined s"
  shows "\<exists>a s'. sum_step direct n N a s = Some s' \<and> s' \<noteq> s"
proof (rule ccontr)
  assume stuck: "\<not> ?thesis"
  have len: "length (sum_producers s) = P" "length (sum_consumers s) = P" using ok by (simp_all add: sum_ok_def)
  have idle: "s' = s" if "sum_step direct n N a s = Some s'" for a s' using stuck that by blast
  have no_p: "s' = s" if "sum_producer_step direct n N p s = Some s'" "p < P" for p s'
    using idle [of "Sum_producer p" s'] that by (simp add: sum_step_def len)
  have no_c: "s' = s" if "sum_consumer_step direct N c s = Some s'" "c < P" for c s'
    using idle [of "Sum_consumer c" s'] that by (simp add: sum_step_def len)
  have prods: "sp_at r = SP_done \<or> sp_at r = SP_loop \<and> n \<le> length (sq s)" if "r \<in> set (sum_producers s)" for r
    using that producer_moves [of _ s n direct N] no_p len by (metis in_set_conv_nth)
  have cons: "sc_at r = SC_done \<or> sc_at r = SC_loop \<and> sc_x r < N \<and> sq s = []" if "r \<in> set (sum_consumers s)" for r
    using that consumer_moves [of _ s N direct] no_c len by (metis in_set_conv_nth)
  have count: "length (sq s) + sum_list (map sc_popped (sum_consumers s)) = sum_list (map sp_pushed (sum_producers s))"
    using ok by (simp add: sum_ok_def)
  have bound: "sp_pushed r \<le> unat N" if "r \<in> set (sum_producers s)" for r
    using that ok by (fastforce simp: sum_ok_def sp_ok_def sp_pushed_def word_le_nat_alt word_less_nat_alt)
  show False
  proof (cases "sq s")
    case (Cons v q)
    have "\<forall>r \<in> set (sum_consumers s). sc_popped r = unat N"
      using cons Cons ok by (fastforce simp: sum_ok_def sc_ok_def sc_popped_def)
    then have "sum_list (map sc_popped (sum_consumers s)) = P * unat N" using sum_list_constant len by fastforce
    moreover have "sum_list (map sp_pushed (sum_producers s)) \<le> sum_list (map (\<lambda>r. unat N) (sum_producers s))"
      by (rule sum_list_mono) (rule bound)
    ultimately show False using count Cons len by (simp add: sum_list_triv)
  next
    case Nil
    have all: "\<forall>r \<in> set (sum_producers s). sp_at r = SP_done" using prods Nil n by fastforce
    then have "\<forall>r \<in> set (sum_producers s). sp_pushed r = unat N" using ok by (fastforce simp: sum_ok_def sp_ok_def sp_pushed_def)
    then have "sum_list (map sp_pushed (sum_producers s)) = P * unat N" using sum_list_constant len by fastforce
    then have total: "sum_list (map sc_popped (sum_consumers s)) = P * unat N" using count Nil by simp
    have le: "sc_popped r \<le> unat N" if "r \<in> set (sum_consumers s)" for r
      using that ok by (fastforce simp: sum_ok_def sc_ok_def sc_popped_def word_le_nat_alt word_less_nat_alt)
    obtain r where r: "r \<in> set (sum_consumers s)" "sc_at r \<noteq> SC_done" using running all by (auto simp: joined_def)
    then have "sc_popped r < unat N" using cons by (fastforce simp: sc_popped_def word_less_nat_alt)
    then have "sum_list (map sc_popped (sum_consumers s)) < P * unat N"
      using sum_list_less [of "sum_consumers s" sc_popped "unat N" r] r(1) le len by simp
    with total show False by simp
  qed
qed

text \<open>The constants of the two programs, with the width of their sums.\<close>

lemma example_constants:
  "(of_nat (1 * (unat (100 :: u32) * (unat (100 :: u32) - 1) div 2)) :: u32) \<noteq> 0"
  "(of_nat (2 * (unat (1000000 :: u32) * (unat (1000000 :: u32) - 1) div 2)) :: u64) \<noteq> 0"
  by simp_all

end
