(* ===== verification/Examples.thy ===== *)
theory Examples
  imports Progress QueuePack PointerQueue SharedQueue HashSig PackBench TestApp TestSuite HashRuns Timing SumRuns
begin

text \<open>
  Concrete queues, schedules and packs: the constructor's result for a small size, a queue at any
  given position of its life, and runs of several threads, evaluated by rewriting. The witnesses of
  the properties use them.
\<close>

section \<open>A queue of two elements\<close>

definition demo_queue :: "(u32, 32) queue" where
  "demo_queue = \<lparr>write_index = 0, read_index = 0,
     ring = Runtime \<lparr>rt_p = Some [\<lparr>e_data = 0, e_seq = 0\<rparr>, \<lparr>e_data = 0, e_seq = 2\<rparr>], rt_n = 2, rt_index_mask = 1\<rparr>\<rparr>"

lemma demo_new: "mpmc_queue 0 2 = Some (Inr demo_queue)"
  by code_simp

lemma demo_static: "static_asserts TYPE(32) 0"
  by (simp add: static_asserts_def)

lemma demo_constructed: "constructed 0 2 2 demo_queue"
  by (simp add: constructed_def demo_new demo_static)

lemma demo_holds: "holds demo_queue 2 0 []"
  by (rule rep_holds [OF constructed_rep [OF demo_constructed]])

section \<open>A queue at any position\<close>

definition queue_at :: "nat \<Rightarrow> nat \<Rightarrow> nat \<Rightarrow> nat \<Rightarrow> 'v list \<Rightarrow> ('v::zero, 'l::len) queue" where
  "queue_at n w r h xs = \<lparr>write_index = of_nat w, read_index = of_nat r,
     ring = Runtime \<lparr>rt_p = Some (map (\<lambda>j. cell h xs (h + (j + n * h - h) mod n)) [0..<n]), rt_n = of_nat n,
       rt_index_mask = of_nat n - 1\<rparr>\<rparr>"

lemma window_position:
  assumes "h \<le> x" and "x < h + (n::nat)"
  shows "h + (x mod n + n * h - h) mod n = x"
proof (rule window_inj [where h = h])
  have n: "0 < n" using assms by (cases n) auto
  then have le: "h \<le> x mod n + n * h" by (cases n) auto
  have "(h + (x mod n + n * h - h) mod n) mod n = (h + (x mod n + n * h - h)) mod n"
    by (simp add: mod_add_right_eq)
  also have "\<dots> = x mod n" using le by simp
  finally show "(h + (x mod n + n * h - h) mod n) mod n = x mod n" .
qed (use assms in auto)

lemma rep_queue_at:
  fixes xs :: "'v::zero list"
  assumes n: "n = 2 ^ k" "2 * n \<le> half_range TYPE('l::len)" "LENGTH('l) \<le> 64"
    and xs: "length xs \<le> n" "w \<le> h + length xs" "h + length xs \<le> w + 1" "r \<le> h" "h \<le> r + 1"
  shows "rep (queue_at n w r h xs :: ('v, 'l) queue) n w r h xs"
proof -
  have "(2::nat) ^ LENGTH('l) \<le> 2 ^ 64" using n(3) by (rule power_increasing) simp
  then have "n < 2 ^ 64" using n(1,2) half_range_pos [where 'l = 'l] unfolding full_range by linarith
  moreover from this have "k < 64"
    unfolding n(1) by (rule power_less_imp_less_exp [rotated]) simp
  ultimately have lt: "n < 2 ^ 64" "k < 64" .
  then have u: "unat (of_nat n :: size_t) = n" by (simp add: unsigned_of_nat take_bit_eq_mod)
  have pow: "(of_nat n :: size_t) AND (of_nat n - 1) = 0"
    using and_pred_pow2 (2) [of k "of_nat n :: size_t"] u n(1) lt(2) by simp
  have pos: "0 < n" using n(1) by simp
  have "arr_ok (ring (queue_at n w r h xs :: ('v, 'l) queue))"
    using u pow pos by (simp add: queue_at_def runtime_ok_def runtime_data_def word_gt_0 flip: unat_eq_zero)
  moreover have "unat (capacity (queue_at n w r h xs :: ('v, 'l) queue)) = n"
    using u by (simp add: queue_at_def capacity_def runtime_size_def)
  moreover have "arr_cells (ring (queue_at n w r h xs :: ('v, 'l) queue)) ! (x mod n) = cell h xs x"
    if "h \<le> x" "x < h + n" for x
    using window_position [OF that] pos by (simp add: queue_at_def runtime_data_def)
  ultimately show ?thesis
    using n xs by (simp add: rep_def ring_shape_def contents_def indexes_def) (simp add: queue_at_def)
qed

section \<open>A run of three threads\<close>

text \<open>
  Threads 0 and 1 push at the same time: both see position 0 empty, thread 1 loses the race, helps to
  move the write index and takes position 1. Thread 2 then pops.
\<close>

definition demo_start :: "(u32, 32 word) command list" where
  "demo_start = [Do_call 0 (Push 7), Do_step 0, Do_call 1 (Push 8)]"

definition demo_rest :: "(u32, 32 word) command list" where
  "demo_rest =
     [Do_step 1, Do_step 0, Do_step 1, Do_step 0, Do_step 1, Do_step 1, Do_step 1, Do_step 1, Do_step 1, Do_step 1,
      Do_step 1, Do_step 1, Do_ret 1, Do_step 0, Do_call 2 Pop, Do_step 2, Do_step 2, Do_step 2, Do_step 2, Do_ret 2]"

definition demo_mid :: "(u32, 32 word) label list \<times> (u32, 32) sys" where
  "demo_mid = the (exec False False demo_start (initial demo_queue))"

definition demo_tail :: "(u32, 32 word) label list \<times> (u32, 32) sys" where
  "demo_tail = the (exec False False demo_rest (snd demo_mid))"

definition demo_run :: "(u32, 32 word) label list \<times> (u32, 32) sys" where
  "demo_run = the (exec False False (demo_start @ demo_rest) (initial demo_queue))"

lemma demo_exec_start:
  "case exec False False demo_start (initial demo_queue) of None \<Rightarrow> False
   | Some (tr, s) \<Rightarrow> pushes s = 0 \<and> in_call (pcs s 1) = Some (Push 8) \<and>
      (case exec False False demo_rest s of None \<Rightarrow> False
       | Some (tr', s') \<Rightarrow> pushes s' = 2 \<and> calls_of 1 tr' = 0 \<and> steps_of 1 tr' = 10)"
  by code_simp

lemma demo_exec:
  "case exec False False (demo_start @ demo_rest) (initial demo_queue) of None \<Rightarrow> False
   | Some (tr, s) \<Rightarrow> events tr = [Pushed 0 7, Pushed 1 8, Popped 0 7] \<and> pushes s = 2 \<and>
      pcs s 0 = Finished (Push 7) (Pushed 0 7)"
  by code_simp

lemma demo_start_facts:
  "exec False False demo_start (initial demo_queue) = Some demo_mid"
  "exec False False demo_rest (snd demo_mid) = Some demo_tail"
  "pushes (snd demo_mid) = 0" "in_call (pcs (snd demo_mid) 1) = Some (Push 8)" "pushes (snd demo_tail) = 2"
  "calls_of 1 (fst demo_tail) = 0" "steps_of 1 (fst demo_tail) = 10"
  using demo_exec_start by (auto simp: demo_mid_def demo_tail_def split: option.splits)

lemma demo_run_facts:
  "exec False False (demo_start @ demo_rest) (initial demo_queue) = Some demo_run"
  "events (fst demo_run) = [Pushed 0 7, Pushed 1 8, Popped 0 7]" "pushes (snd demo_run) = 2"
  "pcs (snd demo_run) 0 = Finished (Push 7) (Pushed 0 7)"
  using demo_exec by (auto simp: demo_run_def split: option.splits)

text \<open>Runs of a few pushes on this queue are fresh.\<close>

lemma demo_short:
  assumes "exec False False xs (initial demo_queue) = Some (tr, s)" and "pushes s \<le> 100"
  shows "fresh_run False False 2 (initial demo_queue) tr s"
  by (rule short_run_fresh [OF exec_run [OF assms(1)] constructed_rep [OF demo_constructed]])
    (use assms(2) in \<open>simp add: half_range_def\<close>)

lemma demo_sys_run: "sys_run False False (initial demo_queue) (fst demo_run) (snd demo_run)"
  using demo_run_facts(1) by (intro exec_run) simp

lemma demo_fresh_run: "fresh_run False False 2 (initial demo_queue) (fst demo_run) (snd demo_run)"
  using demo_run_facts by (intro demo_short) simp_all

lemma demo_fresh_start: "fresh_run False False 2 (initial demo_queue) (fst demo_mid) (snd demo_mid)"
  using demo_start_facts by (intro demo_short) simp_all

lemma demo_fresh_tail: "fresh_run False False 2 (snd demo_mid) (fst demo_tail) (snd demo_tail)"
proof -
  have "sys_run False False (snd demo_mid) (fst demo_tail) (snd demo_tail)"
    using demo_start_facts(2) by (intro exec_run) simp
  moreover obtain h xs where "sim 2 (snd demo_mid) h xs"
    using linearize [OF demo_fresh_start constructed_rep [OF demo_constructed]] by blast
  moreover have "fresh 2 (snd demo_mid)" by (rule fresh_run_fresh [OF demo_fresh_start fresh_initial])
  ultimately show ?thesis
    using short_run_fresh_from [of False False "snd demo_mid" "fst demo_tail" "snd demo_tail" 2 h xs] demo_start_facts(5)
    by (simp add: half_range_def)
qed

text \<open>A pop on the empty queue, up to the load of the entry.\<close>

definition demo_pop :: "(u32, 32 word) label list \<times> (u32, 32) sys" where
  "demo_pop = the (exec False False [Do_call 0 Pop, Do_step 0] (initial demo_queue))"

lemma demo_pop_exec:
  "case exec False False [Do_call 0 Pop, Do_step 0] (initial demo_queue) of None \<Rightarrow> False
   | Some (tr, s) \<Rightarrow> pushes s = 0 \<and>
      (case exec1 False False (Do_step 0) s of None \<Rightarrow> False | Some (l, s') \<Rightarrow> l = Act 0 (Some Pop_empty))"
  by code_simp

lemma demo_pop_step:
  "fresh_run False False 2 (initial demo_queue) (fst demo_pop) (snd demo_pop)"
  "\<exists>s'. sys_step False False (snd demo_pop) (Act 0 (Some Pop_empty)) s'"
proof -
  obtain tr s l s' where e: "exec False False [Do_call 0 Pop, Do_step 0] (initial demo_queue) = Some (tr, s)"
    "pushes s = 0" "exec1 False False (Do_step 0) s = Some (l, s')" "l = Act 0 (Some Pop_empty)"
    using demo_pop_exec by (auto split: option.splits prod.splits)
  have d: "demo_pop = (tr, s)" unfolding demo_pop_def e(1) by simp
  have "fresh_run False False 2 (initial demo_queue) tr s" by (rule demo_short [OF e(1)]) (simp add: e(2))
  moreover have "sys_step False False s (Act 0 (Some Pop_empty)) s'" using exec1_step [OF e(3)] e(4) by simp
  ultimately show "fresh_run False False 2 (initial demo_queue) (fst demo_pop) (snd demo_pop)"
    and "\<exists>s'. sys_step False False (snd demo_pop) (Act 0 (Some Pop_empty)) s'"
    by (auto simp: d)
qed

section \<open>A pack of two queues\<close>

definition demo_pack :: "u32 list \<Rightarrow> u32 list \<Rightarrow> (u32, 32) queue pack" where
  "demo_pack xs ys =
     \<lparr>queues = [queue_at 4 (length xs) 0 0 xs, queue_at 4 (length ys) 0 0 ys], writers_count = 0, readers_count = 0\<rparr>"

lemma demo_pack_holds:
  assumes "length xs \<le> 4" and "length ys \<le> 4"
  shows "pack_holds (\<lambda>q. holds q 4) 2 (demo_pack xs ys) [0, 0] [xs, ys]"
proof -
  have "holds (queue_at 4 (length zs) 0 0 zs :: (u32, 32) queue) 4 0 zs" if "length zs \<le> 4" for zs :: "u32 list"
    by (rule rep_holds, rule rep_queue_at [where k = 2]) (use that in \<open>simp_all add: half_range_def\<close>)
  with assms show ?thesis by (auto simp: pack_holds_def demo_pack_def dest!: less_2_cases)
qed

section \<open>A header in uninitialised memory\<close>

definition demo_junk :: shared_file_header where
  "demo_junk = \<lparr>signature = 1, hdr_size = 2, q_start = 3, q_size_elements = 4, q_size_bytes = 5, producer_count = 6,
     consumer_count = 7, producer_ids = replicate 16 8, consumer_ids = replicate 16 9\<rparr>"

lemma demo_junk_wf: "header_wf demo_junk"
  by (simp add: header_wf_def demo_junk_def)

section \<open>Runs of the benchmarks\<close>

text \<open>One producer and one consumer of the bandwidth measurement, up to the report.\<close>

definition demo_bench :: "bench_act list" where
  "demo_bench =
     [Producer 0, Consumer 0 False, Main False, Main False, Main False, Main False] @ replicate 5 (Producer 0) @
     replicate 3 (Consumer 0 False) @ [Main True] @ replicate 3 (Producer 0) @ [Main False, Main False] @
     replicate 4 (Consumer 0 False) @ replicate 3 (Consumer 0 True) @ [Main False, Main False]"

lemma demo_bench_run:
  "map_option (\<lambda>s. (main_thread s, total_push s, total_pop s))
     (bench_run 2 (\<lambda>x. x) demo_bench (bench_start 1 1 :: u64 bench)) = Some (M_report, 2, 2)"
  by code_simp

text \<open>
  A run of the pack benchmark with one producer of two values in which the consumer looks between
  the pushes: it finds the queue empty, then the producer pushes the second value and leaves, and
  then the consumer reads that no producer is left.
\<close>

definition demo_race :: "pk_act list" where
  "demo_race =
     [Producer_act 0, Main_act, Producer_act 0, Producer_act 0, Consumer_act 0, Consumer_act 0, Main_act, Main_act, Producer_act 0] @
     replicate 2 (Consumer_act 0) @ replicate 4 (Producer_act 0) @ replicate 4 (Consumer_act 0) @ replicate 2 Main_act"

lemma demo_race_run:
  "map_option (\<lambda>s. (pk_main s, left_over s, (prod_sum s, cons_sum s), pk_total_pops s))
     (pk_run Single_queue 2 (\<lambda>x. x) ucast 2 1 1 demo_race (pack_bench_start Single_queue 1 1 :: u32 pack_bench)) = Some (W_report, [1], (1, 0), 1)"
  by code_simp

text \<open>A run in which the producer reads the state only after the main thread has set it.\<close>

definition demo_late :: "pk_act list" where
  "demo_late = [Producer_act 0, Main_act, Consumer_act 0, Consumer_act 0, Main_act, Main_act]"

lemma demo_late_run:
  "map_option (\<lambda>s. map a_pc (pk_producers s) = [A_wait] \<and> benchmark_state s \<noteq> 0 \<and> pk_main s = W_wait)
     (pk_run Single_queue 2 (\<lambda>x. x) ucast 2 1 1 demo_late (pack_bench_start Single_queue 1 1 :: u32 pack_bench)) = Some True"
  by code_simp

section \<open>Runs of the hash tests\<close>

text \<open>
  In \<open>demo_exit\<close>, with four producers and three consumers, every consumer has found the queue empty when the
  last producer pushes its element and leaves; the consumers then read that no producer is left.
\<close>

definition demo_exit :: "hash_act list" where
  "demo_exit =
     concat (map (\<lambda>p. replicate 4 (H_producer p)) [0, 1, 2]) @ [H_producer 3, H_main False] @
     concat (replicate 3 (replicate 6 (H_consumer 0 False))) @
     map (\<lambda>j. H_consumer j True) [0, 1, 2] @ replicate 3 (H_producer 3) @
     map (\<lambda>j. H_consumer j True) [0, 1, 2] @ [H_main True]"

lemma demo_exit_run:
  "map_option (\<lambda>s. (hmain s, hq s, hash_same s))
     (hash_run_acts hash3 4 1 3 demo_exit (hash_start 4)) = Some (HM_report, [Data3 0 0 3], False)"
  by code_simp

text \<open>In \<open>demo_order\<close> two consumers of \<open>hash2\<close> pop two elements, and the second one signs first.\<close>

definition demo_order :: "hash_act list" where
  "demo_order =
     replicate 6 (H_producer 0) @ [H_main False] @ replicate 2 (H_consumer 0 False) @
     replicate 6 (H_consumer 1 False) @ replicate 4 (H_consumer 0 True) @
     replicate 2 (H_consumer 0 True) @ replicate 2 (H_consumer 1 True) @ [H_main True]"

lemma demo_order_run:
  "map_option (\<lambda>s. (hmain s, hq s, hash_same s))
     (hash_run_acts hash2 16 2 2 demo_order (hash_start 1)) = Some (HM_report, [], False)"
  by code_simp

text \<open>In \<open>demo_turns\<close> the two consumers of \<open>hash3\<close> do the same; the second one is not let in before the first.\<close>

definition demo_turns :: "hash_act list" where
  "demo_turns =
     replicate 6 (H_producer 0) @ [H_main False] @ replicate 2 (H_consumer 0 False) @
     replicate 5 (H_consumer 1 False)"

definition demo_turns_end :: "hash_act list" where
  "demo_turns_end =
     replicate 4 (H_consumer 0 True) @ replicate 4 (H_consumer 1 True) @
     replicate 2 (H_consumer 0 True) @ replicate 2 (H_consumer 1 True) @ [H_main True]"

lemma demo_turns_run:
  "map_option (\<lambda>s. (hconsumers s, slocks s))
     (hash_run_acts hash3 4 2 2 demo_turns (hash_start 1)) = Some ([HC_lock (Data3 0 0 0), HC_lock (Data3 1 1 0)], [False])"
  "map_option (\<lambda>s. (hmain s, hq s))
     (hash_run_acts hash3 4 2 2 (demo_turns @ demo_turns_end) (hash_start 1)) = Some (HM_report, [])"
  by code_simp+

text \<open>One consumer of \<open>hash2\<close>, two producers.\<close>

definition demo_single :: "hash_act list" where
  "demo_single =
     replicate 4 (H_producer 0) @ replicate 4 (H_producer 1) @ [H_main False] @
     replicate 12 (H_consumer 0 False) @ replicate 2 (H_consumer 0 True) @ [H_main True]"

lemma demo_single_run:
  "map_option (\<lambda>s. (hmain s, hq s))
     (hash_run_acts hash2 16 1 1 demo_single (hash_start 2)) = Some (HM_report, [])"
  by code_simp

text \<open>A run of \<open>HashInputOutput\<close> with two values, on a queue of one.\<close>

lemma demo_io_run:
  "map_option (\<lambda>s. (qwrite_step 1 2 s, qread_step 2 s))
     (io_run 1 2 [True, True, False, True, True, False, False, False] io_start) = Some (None, None)"
  by code_simp

section \<open>A run of the timing\<close>

text \<open>One stamp; the reader looks before it, and the last push finds the queue of one element full.\<close>

definition demo_timing :: "timing_act list" where
  "demo_timing =
     map Read_at [0, 0] @ map Write_at [50, 1, 1, 1] @ map Read_at [0, 0, 70, 0] @ map Write_at [1] @
     map Read_at [0, 80, 0, 0, 0]"

lemma demo_timing_run:
  "(case timing_run 1 1 demo_timing (timing_start 1) of
      Moved s \<Rightarrow> reader_pc s = R_done \<and> diffs s ! 0 = Some 20 | _ \<Rightarrow> False)"
  "list_all stamped demo_timing"
  by code_simp+

section \<open>A run of the examples\<close>

text \<open>Two producers and two consumers with the numbers 0 and 1 on a queue of two elements.\<close>

definition demo_sums :: "sum_act list" where
  "demo_sums =
     map Sum_producer [0, 1, 0, 1] @ map Sum_consumer [1, 1, 0, 0] @ map Sum_producer [0, 1, 0, 1] @
     map Sum_consumer [0, 0, 0, 0, 1, 1, 1, 1] @ map Sum_producer [1, 1, 0, 0]"

lemma demo_sums_run:
  "map_option (\<lambda>s. (joined s, sr_cons_sum s)) (sum_acts False 2 2 demo_sums (sum_start 2 :: u64 sum_run)) = Some (True, 2)"
  by code_simp

end
