(* ===== verification/Clients.thy ===== *)
theory Clients
  imports Progress
begin

text \<open>
  Programs whose threads call one or several concurrent queues. A program is given by the call that each thread is about
  to make, by what a thread does with the answer, and by its other steps. \<open>queues_run\<close> runs it on
  queues of \<open>Machine\<close>, where a call is a sequence of atomic steps that interleave with those of the other
  threads; \<open>queues_reach\<close> runs it on abstract queues, where a call is a single step. The locale \<open>calls_apart\<close> says
  when the threads of a program do not look at each other in the middle of a call, and then every
  run of the first kind is a run of the second kind, up to the calls that have taken effect and not returned yet.
  \<open>program_run\<close> and \<open>spec_reach\<close> are the case of a single queue.
\<close>

section \<open>Programs\<close>

record ('a, 'g, 'c, 'e) program =
  call_of :: "'g \<Rightarrow> nat \<Rightarrow> 'c option"
  resume :: "nat \<Rightarrow> 'e \<Rightarrow> 'g \<Rightarrow> 'g"
  own_step :: "nat \<Rightarrow> 'a \<Rightarrow> 'g \<Rightarrow> 'g option"
  halted :: "'g \<Rightarrow> bool"

text \<open>The threads of a program do not look at the calls of each other: \<open>ans\<close> says which answers a call may have.\<close>

locale calls_apart =
  fixes K :: "('a, 'g, 'c, 'e) program" and ans :: "'c \<Rightarrow> 'e \<Rightarrow> bool"
  assumes call_resume: "u \<noteq> t \<Longrightarrow> call_of K g t = Some c \<Longrightarrow> ans c e \<Longrightarrow> call_of K g u = Some d \<Longrightarrow>
      call_of K (resume K t e g) u = Some d"
    and halted_resume: "halted K (resume K t e g) = halted K g"
    and resume_resume: "u \<noteq> t \<Longrightarrow> call_of K g t = Some c \<Longrightarrow> ans c e \<Longrightarrow> call_of K g u = Some d \<Longrightarrow> ans d f \<Longrightarrow>
      resume K u f (resume K t e g) = resume K t e (resume K u f g)"
    and own_resume: "u \<noteq> t \<Longrightarrow> call_of K g t = Some c \<Longrightarrow> ans c e \<Longrightarrow> call_of K g u = None \<Longrightarrow> own_step K u a g = Some g' \<Longrightarrow>
      call_of K (resume K t e g) u = None \<and> own_step K u a (resume K t e g) = Some (resume K t e g')"
    and call_own: "own_step K u a g = Some g' \<Longrightarrow> call_of K g t = Some c \<Longrightarrow> call_of K g u = None \<Longrightarrow> call_of K g' t = Some c"
begin

text \<open>The calls that have taken effect, and the state in which they have returned.\<close>

definition resumed :: "(nat \<times> 'e) list \<Rightarrow> 'g \<Rightarrow> 'g" where
  "resumed ds g = foldr (\<lambda>(t, e). resume K t e) ds g"

definition due :: "(nat \<times> 'e) list \<Rightarrow> 'g \<Rightarrow> bool" where
  "due ds g \<longleftrightarrow> distinct (map fst ds) \<and> (\<forall>(t, e) \<in> set ds. \<exists>c. call_of K g t = Some c \<and> ans c e)"

lemma resumed_Nil [simp]: "resumed [] g = g"
  and resumed_Cons [simp]: "resumed ((t, e) # ds) g = resume K t e (resumed ds g)"
  by (simp_all add: resumed_def)

lemma due_Cons: "due ((t, e) # ds) g \<longleftrightarrow> t \<notin> fst ` set ds \<and> (\<exists>c. call_of K g t = Some c \<and> ans c e) \<and> due ds g"
  by (auto simp: due_def)

lemma resumed_append: "resumed (ds @ ds') g = resumed ds (resumed ds' g)"
  by (simp add: resumed_def)

lemma call_resumed:
  "due ds g \<Longrightarrow> u \<notin> fst ` set ds \<Longrightarrow> call_of K g u = Some d \<Longrightarrow> call_of K (resumed ds g) u = Some d"
proof (induction ds arbitrary: u d)
  case (Cons x ds)
  obtain t e where x: "x = (t, e)" by fastforce
  with Cons.prems(1) obtain c where c: "t \<notin> fst ` set ds" "call_of K g t = Some c" "ans c e" "due ds g" by (auto simp: due_Cons)
  then have "call_of K (resumed ds g) t = Some c" using Cons.IH [of t] by simp
  then show ?case using Cons.IH [of u d] Cons.prems(2,3) c(3,4) x call_resume [of u t] by simp
qed simp

lemma halted_resumed: "halted K (resumed ds g) = halted K g"
  by (induction ds) (auto simp: halted_resume)

lemma own_resumed:
  "due ds g \<Longrightarrow> u \<notin> fst ` set ds \<Longrightarrow> call_of K g u = None \<Longrightarrow> own_step K u a g = Some g' \<Longrightarrow>
   call_of K (resumed ds g) u = None \<and> own_step K u a (resumed ds g) = Some (resumed ds g')"
proof (induction ds)
  case (Cons x ds)
  obtain t e where x: "x = (t, e)" by fastforce
  with Cons.prems(1) obtain c where c: "t \<notin> fst ` set ds" "call_of K g t = Some c" "ans c e" "due ds g" by (auto simp: due_Cons)
  have "call_of K (resumed ds g) t = Some c" using c by (simp add: call_resumed)
  then show ?case using own_resume [of u t "resumed ds g" c e a "resumed ds g'"] Cons c x by simp
qed simp

lemma due_own: "due ds g \<Longrightarrow> own_step K u a g = Some g' \<Longrightarrow> call_of K g u = None \<Longrightarrow> due ds g'"
  using call_own unfolding due_def by fastforce

lemma resume_resumed:
  "due ds g \<Longrightarrow> t \<notin> fst ` set ds \<Longrightarrow> call_of K g t = Some c \<Longrightarrow> ans c e \<Longrightarrow>
   resume K t e (resumed ds g) = resumed ds (resume K t e g)"
proof (induction ds)
  case (Cons d ds)
  obtain u f where d: "d = (u, f)" by fastforce
  with Cons.prems(1) obtain b where b: "u \<notin> fst ` set ds" "call_of K g u = Some b" "ans b f" "due ds g" by (auto simp: due_Cons)
  have "call_of K (resumed ds g) u = Some b" "call_of K (resumed ds g) t = Some c"
    using b Cons.prems(2,3) d by (simp_all add: call_resumed)
  then show ?case using resume_resume [of t u "resumed ds g" b f c e] Cons b d by simp
qed simp

lemma due_resume:
  assumes "due ds g" and "t \<notin> fst ` set ds" and "call_of K g t = Some c" and "ans c e"
  shows "due ds (resume K t e g)"
  using assms call_resume [of _ t g c e] unfolding due_def by fastforce

text \<open>In a state that no returning thread leaves behind, nothing is due.\<close>

lemma nothing_due:
  assumes "due ds g" and "P (resumed ds g)" and leaves: "\<And>t c e x. call_of K x t = Some c \<Longrightarrow> ans c e \<Longrightarrow> \<not> P (resume K t e x)"
  shows "ds = []"
proof (cases ds)
  case (Cons d ds')
  obtain t e where d: "d = (t, e)" by fastforce
  with assms(1) Cons obtain c where c: "t \<notin> fst ` set ds'" "call_of K g t = Some c" "ans c e" "due ds' g" by (auto simp: due_Cons)
  then have "call_of K (resumed ds' g) t = Some c" by (simp add: call_resumed)
  with leaves c(3) d Cons assms(2) show ?thesis by auto
qed simp

text \<open>A call that is due returns: it leaves the list.\<close>

lemma resumed_return:
  assumes due: "due (ds @ (t, e) # ds') g"
  shows "resumed (ds @ (t, e) # ds') g = resumed (ds @ ds') (resume K t e g)" and "due (ds @ ds') (resume K t e g)"
proof -
  obtain c where c: "call_of K g t = Some c" "ans c e" using due by (auto simp: due_def)
  have "due ds' g" "t \<notin> fst ` set ds'" using due by (auto simp: due_def image_iff)
  then show "resumed (ds @ (t, e) # ds') g = resumed (ds @ ds') (resume K t e g)"
    using resume_resumed [of ds' g t c e] c by (simp add: resumed_append)
  have "due (ds @ ds') g" "t \<notin> fst ` set (ds @ ds')" using due by (auto simp: due_def image_iff)
  then show "due (ds @ ds') (resume K t e g)" using c by (rule due_resume)
qed

end

section \<open>The labels of a run determine its states\<close>

lemma sys_step_deterministic:
  assumes "sys_step lp lo s l s1" and "sys_step lp lo s l s2"
  shows "s1 = s2"
  using assms(1)
proof cases
  case (call t c)
  with assms(2) show ?thesis by (auto elim: sys_step_CallE)
next
  case (act t p q ev)
  with assms(2) show ?thesis by (auto elim: sys_step_ActE)
next
  case (ret t c ev)
  with assms(2) show ?thesis by (auto elim: sys_step_RetE)
qed

lemma fresh_run_snoc:
  assumes "fresh_run lp lo n s0 (tr @ [l]) s'"
  obtains s where "fresh_run lp lo n s0 tr s" and "sys_step lp lo s l s'" and "fresh n s'"
  using assms by (cases rule: fresh_run.cases) auto

lemma fresh_run_deterministic:
  "fresh_run lp lo n s0 tr s1 \<Longrightarrow> sys_run lp lo s0 tr s2 \<Longrightarrow> s1 = s2"
proof (induction arbitrary: s2 rule: fresh_run.induct)
  case fresh_stop
  then show ?case by (auto elim: sys_run.cases)
next
  case (fresh_more tr s l s')
  from fresh_more.prems obtain s3 where "sys_run lp lo s0 tr s3" "sys_step lp lo s3 l s2"
    by (cases rule: sys_run.cases) auto
  with fresh_more.IH [of s3] fresh_more.hyps(2) show ?case using sys_step_deterministic by metis
qed

section \<open>Programs over several queues\<close>

text \<open>A call names its queue. The state of queue \<open>j\<close> is \<open>S j\<close>.\<close>

type_synonym ('a, 'g, 'v, 'i) queues_program = "('a, 'g, nat \<times> ('v, 'i) op, ('v, 'i) event) program"

datatype ('a, 'v, 'i) queues_move = Own_move nat 'a | At nat "('v, 'i) label"

fun answers_at :: "nat \<times> ('v, 'l::len word) op \<Rightarrow> ('v, 'l word) event \<Rightarrow> bool" where
  "answers_at (j, c) e = answers c e"

inductive queues_run ::
  "('a, 'g, 'v::zero, 'l::len word) queues_program \<Rightarrow> bool \<Rightarrow> bool \<Rightarrow> (nat \<Rightarrow> ('v, 'l) sys) \<Rightarrow> 'g \<Rightarrow>
     ('a, 'v, 'l word) queues_move list \<Rightarrow> (nat \<Rightarrow> ('v, 'l) sys) \<Rightarrow> 'g \<Rightarrow> bool"
  for K lp lo S0 g0 where
  queues_stop: "queues_run K lp lo S0 g0 [] S0 g0"
| queues_own: "queues_run K lp lo S0 g0 ms S g \<Longrightarrow> \<not> halted K g \<Longrightarrow> call_of K g t = None \<Longrightarrow> own_step K t a g = Some g' \<Longrightarrow>
    queues_run K lp lo S0 g0 (ms @ [Own_move t a]) S g'"
| queues_call: "queues_run K lp lo S0 g0 ms S g \<Longrightarrow> \<not> halted K g \<Longrightarrow> call_of K g t = Some (j, c) \<Longrightarrow>
    sys_step lp lo (S j) (Call t c) s' \<Longrightarrow> queues_run K lp lo S0 g0 (ms @ [At j (Call t c)]) (S(j := s')) g"
| queues_act: "queues_run K lp lo S0 g0 ms S g \<Longrightarrow> \<not> halted K g \<Longrightarrow> sys_step lp lo (S j) (Act t ev) s' \<Longrightarrow>
    queues_run K lp lo S0 g0 (ms @ [At j (Act t ev)]) (S(j := s')) g"
| queues_ret: "queues_run K lp lo S0 g0 ms S g \<Longrightarrow> \<not> halted K g \<Longrightarrow> sys_step lp lo (S j) (Ret t e) s' \<Longrightarrow>
    queues_run K lp lo S0 g0 (ms @ [At j (Ret t e)]) (S(j := s')) (resume K t e g)"

inductive queues_reach ::
  "('a, 'g, 'v, 'l::len word) queues_program \<Rightarrow> nat \<Rightarrow> 'g \<Rightarrow> (nat \<Rightarrow> nat \<times> 'v list) \<Rightarrow> 'g \<Rightarrow> bool"
  for K n g0 where
  queues_start: "queues_reach K n g0 (\<lambda>j. (0, [])) g0"
| queues_own_step: "queues_reach K n g0 Q g \<Longrightarrow> \<not> halted K g \<Longrightarrow> call_of K g t = None \<Longrightarrow> own_step K t a g = Some g' \<Longrightarrow>
    queues_reach K n g0 Q g'"
| queues_event: "queues_reach K n g0 Q g \<Longrightarrow> \<not> halted K g \<Longrightarrow> call_of K g t = Some (j, c) \<Longrightarrow> answers c e \<Longrightarrow>
    spec_step n (Q j) e = Some hx \<Longrightarrow> queues_reach K n g0 (Q(j := hx)) (resume K t e g)"

text \<open>The steps of queue \<open>j\<close> in a run.\<close>

fun labels_at :: "nat \<Rightarrow> ('a, 'v, 'i) queues_move list \<Rightarrow> ('v, 'i) label list" where
  "labels_at j [] = []"
| "labels_at j (Own_move t a # ms) = labels_at j ms"
| "labels_at j (At i l # ms) = (if i = j then l # labels_at j ms else labels_at j ms)"

lemma labels_at_append: "labels_at j (ms @ ms') = labels_at j ms @ labels_at j ms'"
  by (induction j ms rule: labels_at.induct) simp_all

lemma queues_sys_run: "queues_run K lp lo S0 g0 ms S g \<Longrightarrow> sys_run lp lo (S0 j) (labels_at j ms) (S j)"
  by (induction rule: queues_run.induct) (auto simp: labels_at_append intro: sys_run.intros)

definition fresh_queues ::
  "bool \<Rightarrow> bool \<Rightarrow> nat \<Rightarrow> (nat \<Rightarrow> ('v::zero, 'l::len) sys) \<Rightarrow> ('a, 'v, 'l word) queues_move list \<Rightarrow> (nat \<Rightarrow> ('v, 'l) sys) \<Rightarrow> bool" where
  "fresh_queues lp lo n S0 ms S \<longleftrightarrow> (\<forall>j. fresh_run lp lo n (S0 j) (labels_at j ms) (S j))"

lemma fresh_queues_before:
  assumes run: "queues_run K lp lo (\<lambda>j. initial (q j)) g0 ms S g" and fr: "fresh_queues lp lo n (\<lambda>j. initial (q j)) (ms @ [m]) S'"
    and same: "\<And>i. labels_at i [m] = [] \<Longrightarrow> S' i = S i"
  shows "fresh_queues lp lo n (\<lambda>j. initial (q j)) ms S"
proof -
  have "fresh_run lp lo n (initial (q j)) (labels_at j ms) (S j)" for j
  proof (cases "labels_at j [m]")
    case Nil
    with fr same [of j] show ?thesis by (metis append_Nil2 fresh_queues_def labels_at_append)
  next
    case (Cons l ls)
    then have "labels_at j [m] = [l]" by (cases m) (auto split: if_splits)
    with fr have "fresh_run lp lo n (initial (q j)) (labels_at j ms @ [l]) (S' j)" by (metis fresh_queues_def labels_at_append)
    then obtain s where s: "fresh_run lp lo n (initial (q j)) (labels_at j ms) s" by (rule fresh_run_snoc)
    with queues_sys_run [OF run, of j] have "s = S j" by (metis fresh_run_deterministic)
    with s show ?thesis by simp
  qed
  then show ?thesis by (simp add: fresh_queues_def)
qed

lemma fresh_queues_fresh: "fresh_queues lp lo n (\<lambda>j. initial (q j)) ms S \<Longrightarrow> fresh n (S j)"
  unfolding fresh_queues_def using fresh_run_fresh [OF _ fresh_initial] by blast

text \<open>The contract of \<open>calls_apart\<close>, for calls of the queues.\<close>

locale queues_client = calls_apart K answers_at
  for K :: "('a, 'g, 'v::zero, 'l::len word) queues_program"
begin

text \<open>The threads of queue \<open>j\<close> are in the calls that the program makes to it.\<close>

fun tracked_phase :: "(nat \<times> ('v, 'l word) event) list \<Rightarrow> 'g \<Rightarrow> nat \<Rightarrow> nat \<Rightarrow> ('v, 'l word) phase \<Rightarrow> bool" where
  "tracked_phase ds g j t Outside = (\<forall>c. call_of K g t = Some (j, c) \<longrightarrow> t \<notin> fst ` set ds)"
| "tracked_phase ds g j t (Pending c) = (t \<notin> fst ` set ds \<and> call_of K g t = Some (j, c))"
| "tracked_phase ds g j t (Decided c e) = ((t, e) \<in> set ds \<and> call_of K g t = Some (j, c))"

definition tracked :: "(nat \<Rightarrow> ('v, 'l) sys) \<Rightarrow> 'g \<Rightarrow> (nat \<times> ('v, 'l word) event) list \<Rightarrow> bool" where
  "tracked S g ds \<longleftrightarrow> due ds g \<and> (\<forall>j t. pc_wf (pcs (S j) t) \<and> tracked_phase ds g j t (phase_of (pcs (S j) t)))"

lemma tracked_at: "tracked S g ds \<Longrightarrow> pc_wf (pcs (S j) t)" "tracked S g ds \<Longrightarrow> tracked_phase ds g j t (phase_of (pcs (S j) t))"
  "tracked S g ds \<Longrightarrow> due ds g"
  by (simp_all add: tracked_def)

lemma due_call:
  assumes "due ds g" and "t \<in> fst ` set ds"
  shows "\<exists>c. call_of K g t = Some c"
  using assms by (fastforce simp: due_def)

lemma tracked_other:
  assumes "tracked_phase ds g j t ph" and "due ds g" and call: "\<And>c. call_of K g t = Some c \<Longrightarrow> call_of K g' t = Some c"
    and same: "\<And>e. (t, e) \<in> set ds' \<longleftrightarrow> (t, e) \<in> set ds"
  shows "tracked_phase ds' g' j t ph"
proof -
  have mem: "t \<in> fst ` set ds' \<longleftrightarrow> t \<in> fst ` set ds" using same by (force simp: image_iff)
  show ?thesis
  proof (cases ph)
    case Outside
    have "t \<notin> fst ` set ds" if c: "call_of K g' t = Some (j, c)" for c
    proof
      assume ds: "t \<in> fst ` set ds"
      with due_call [OF assms(2)] obtain d where d: "call_of K g t = Some d" by blast
      with call c have "call_of K g t = Some (j, c)" by simp
      with assms(1) Outside ds show False by simp
    qed
    with mem Outside show ?thesis by simp
  qed (use assms(1) call same mem in auto)
qed

lemma tracked_own:
  assumes tr: "tracked S g ds" and own: "call_of K g u = None" "own_step K u a g = Some g'"
  shows "tracked S g' ds" and "u \<notin> fst ` set ds"
proof -
  have "tracked_phase ds g' j t (phase_of (pcs (S j) t))" for j t
    using tracked_other [OF tracked_at(2) [OF tr] tracked_at(3) [OF tr], of t g' ds j] call_own [OF own(2) _ own(1)] by blast
  then show "tracked S g' ds" using tr due_own [OF _ own(2,1)] by (simp add: tracked_def)
  show "u \<notin> fst ` set ds" using due_call [OF tracked_at(3) [OF tr], of u] own(1) by auto
qed

text \<open>One step of thread \<open>t\<close> in queue \<open>j\<close>, whose call is \<open>c\<close>.\<close>

lemma tracked_move:
  assumes tr: "tracked S g ds" and here: "call_of K g t = Some (j, c)" and pcs: "\<And>u. u \<noteq> t \<Longrightarrow> pcs s' u = pcs (S j) u"
    and due: "due ds' g'" and own: "pc_wf (pcs s' t)" "tracked_phase ds' g' j t (phase_of (pcs s' t))"
    and away: "\<And>i d. i \<noteq> j \<Longrightarrow> call_of K g' t = Some (i, d) \<Longrightarrow> t \<notin> fst ` set ds'"
    and call: "\<And>u c. u \<noteq> t \<Longrightarrow> call_of K g u = Some c \<Longrightarrow> call_of K g' u = Some c"
    and other: "\<And>u e. u \<noteq> t \<Longrightarrow> (u, e) \<in> set ds' \<longleftrightarrow> (u, e) \<in> set ds"
  shows "tracked (S(j := s')) g' ds'"
proof -
  have "pc_wf (pcs ((S(j := s')) i) u) \<and> tracked_phase ds' g' i u (phase_of (pcs ((S(j := s')) i) u))" for i u
  proof (cases "u = t")
    case False
    have "pcs ((S(j := s')) i) u = pcs (S i) u" using pcs [OF False] by simp
    moreover have "tracked_phase ds' g' i u (phase_of (pcs (S i) u))"
      using tracked_other [OF tracked_at(2) [OF tr] tracked_at(3) [OF tr], of u g' ds' i] call [OF False] other [OF False] by blast
    ultimately show ?thesis using tracked_at(1) [OF tr] by simp
  next
    case True
    show ?thesis
    proof (cases "i = j")
      case False
      have "phase_of (pcs (S i) t) = Outside"
        using tracked_at(2) [OF tr, of i t] here False by (cases "phase_of (pcs (S i) t)") auto
      with True False away tracked_at(1) [OF tr] show ?thesis by simp
    qed (use True own in simp)
  qed
  with due show ?thesis by (simp add: tracked_def)
qed

lemma tracked_start: "tracked (\<lambda>j. initial (q j)) g0 []"
  by (simp add: tracked_def due_def initial_def)

lemma tracked_call:
  assumes tr: "tracked S g ds" and call: "call_of K g t = Some (j, c)" and step: "sys_step lp lo (S j) (Call t c) s'"
  shows "tracked (S(j := s')) g ds"
proof -
  have s': "pcs (S j) t = Idle" "s' = (S j)\<lparr>pcs := (pcs (S j))(t := start c)\<rparr>" using step by simp_all
  have out: "t \<notin> fst ` set ds" using tracked_at(2) [OF tr, of j t] s'(1) call by simp
  show ?thesis
  proof (rule tracked_move [OF tr call])
    show "tracked_phase ds g j t (phase_of (pcs s' t))" using s' call out by (cases c) simp_all
    show "pc_wf (pcs s' t)" using s' by (cases c) simp_all
    show "due ds g" by (rule tracked_at(3) [OF tr])
  qed (use out in \<open>simp_all add: s'(2)\<close>)
qed

lemma tracked_act:
  assumes tr: "tracked S g ds" and step: "tstep lp lo (mem (S j)) (pcs (S j) t) = Some (p, q', ev)" "s' = act t p q' ev (S j)"
  shows "case ev of None \<Rightarrow> tracked (S(j := s')) g ds
    | Some e \<Rightarrow> (\<exists>c. t \<notin> fst ` set ds \<and> call_of K g t = Some (j, c) \<and> answers c e \<and> tracked (S(j := s')) g ((t, e) # ds))"
proof -
  have own: "pc_wf (pcs (S j) t)" "tracked_phase ds g j t (phase_of (pcs (S j) t))" and due: "due ds g" using tracked_at [OF tr] by simp_all
  note ph = tstep_phase [OF step(1) own(1), of t]
  have pcs: "pcs s' u = (if u = t then p else pcs (S j) u)" for u by (simp add: step(2))
  show ?thesis
  proof (cases ev)
    case None
    then have same: "phase_of p = phase_of (pcs (S j) t)" using ph by (auto split: phase.splits)
    have "phase_of (pcs (S j) t) \<noteq> Outside" using step(1) own(1) by (cases "pcs (S j) t") auto
    with own(2) obtain c where c: "call_of K g t = Some (j, c)" by (cases "phase_of (pcs (S j) t)") auto
    have "tracked (S(j := s')) g ds"
    proof (rule tracked_move [OF tr c])
      show "t \<notin> fst ` set ds" if "i \<noteq> j" "call_of K g t = Some (i, d)" for i d using that c by simp
    qed (use ph own due same in \<open>simp_all add: pcs\<close>)
    with None show ?thesis by simp
  next
    case (Some e)
    then obtain c where c: "phase_of (pcs (S j) t) = Pending c" "answers c e" "phase_of p = Decided c e"
      using ph by (auto split: phase.splits if_splits)
    with own(2) have t: "t \<notin> fst ` set ds" "call_of K g t = Some (j, c)" by simp_all
    have "tracked (S(j := s')) g ((t, e) # ds)"
    proof (rule tracked_move [OF tr t(2)])
      show "t \<notin> fst ` set ((t, e) # ds)" if "i \<noteq> j" "call_of K g t = Some (i, d)" for i d using that t(2) by simp
    qed (use ph c t due in \<open>auto simp: pcs due_Cons\<close>)
    with Some c t show ?thesis by auto
  qed
qed

lemma tracked_ret:
  assumes tr: "tracked S g ds" and step: "sys_step lp lo (S j) (Ret t e) s'"
  shows "\<exists>ds'. tracked (S(j := s')) (resume K t e g) ds' \<and> resumed ds g = resumed ds' (resume K t e g)"
    and "s' = (S j)\<lparr>pcs := (pcs (S j))(t := Idle)\<rparr>"
proof -
  from step obtain c where c: "pcs (S j) t = Finished c e" "s' = (S j)\<lparr>pcs := (pcs (S j))(t := Idle)\<rparr>"
    by (auto elim: sys_step_RetE)
  then have "tracked_phase ds g j t (Decided c e)" using tracked_at(2) [OF tr, of j t] by simp
  moreover have due: "due ds g" by (rule tracked_at(3) [OF tr])
  ultimately obtain ds1 ds2 where ds: "ds = ds1 @ (t, e) # ds2" and call: "call_of K g t = Some (j, c)"
    by (auto dest: split_list)
  note ret = resumed_return [OF due [unfolded ds]]
  have others: "t \<notin> fst ` set (ds1 @ ds2)" "answers_at (j, c) e" using due call unfolding ds due_def by (auto simp: image_iff)
  have "tracked (S(j := s')) (resume K t e g) (ds1 @ ds2)"
    using ret(2) others call_resume [OF _ call others(2)]
    by (intro tracked_move [OF tr call]) (auto simp: c(2) ds)
  with ds ret(1) show "\<exists>ds'. tracked (S(j := s')) (resume K t e g) ds' \<and> resumed ds g = resumed ds' (resume K t e g)" by blast
  show "s' = (S j)\<lparr>pcs := (pcs (S j))(t := Idle)\<rparr>" by (rule c(2))
qed

text \<open>A step of the machine, with or without an event.\<close>

lemma act_refines:
  assumes sim: "\<forall>i. sim n (S i) (fst (Q i)) (snd (Q i))" and reach: "queues_reach K n g0 Q (resumed ds g)" and tr: "tracked S g ds"
    and fr: "fresh n (S j)" and go: "\<not> halted K g" and step: "sys_step lp lo (S j) (Act t ev) s'"
  shows "\<exists>Q ds. (\<forall>i. sim n ((S(j := s')) i) (fst (Q i)) (snd (Q i))) \<and> queues_reach K n g0 Q (resumed ds g) \<and> tracked (S(j := s')) g ds"
proof -
  from step obtain p q' where p: "tstep lp lo (mem (S j)) (pcs (S j) t) = Some (p, q', ev)" "s' = act t p q' ev (S j)"
    by (auto elim: sys_step_ActE)
  obtain h' xs' where sim': "spec_run n (Q j) (events [Act t ev]) = Some (h', xs')" "sim n s' h' xs'"
    using sim_step [OF sim [rule_format, of j] fr step] by auto
  note move = tracked_act [OF tr p]
  show ?thesis
  proof (cases ev)
    case None
    with sim' have "sim n s' (fst (Q j)) (snd (Q j))" by simp
    with sim have "\<forall>i. sim n ((S(j := s')) i) (fst (Q i)) (snd (Q i))" by simp
    moreover have "tracked (S(j := s')) g ds" using None move by simp
    ultimately show ?thesis using reach by blast
  next
    case (Some e)
    with move obtain c where c: "t \<notin> fst ` set ds" "call_of K g t = Some (j, c)" "answers c e" "tracked (S(j := s')) g ((t, e) # ds)" by auto
    have "call_of K (resumed ds g) t = Some (j, c)" using call_resumed [OF tracked_at(3) [OF tr] c(1,2)] .
    moreover have "spec_step n (Q j) e = Some (h', xs')" using sim'(1) Some by (simp split: bind_splits)
    ultimately have "queues_reach K n g0 (Q(j := (h', xs'))) (resumed ((t, e) # ds) g)"
      using queues_event [OF reach] go c(3) by (simp add: halted_resumed)
    moreover have "\<forall>i. sim n ((S(j := s')) i) (fst ((Q(j := (h', xs'))) i)) (snd ((Q(j := (h', xs'))) i))" using sim sim'(2) by simp
    ultimately show ?thesis using c(4) by blast
  qed
qed

theorem queues_refine:
  assumes "queues_run K lp lo (\<lambda>j. initial (q j)) g0 ms S g" and "fresh_queues lp lo n (\<lambda>j. initial (q j)) ms S"
    and "\<And>j. rep (q j) n 0 0 0 []"
  shows "\<exists>Q ds. (\<forall>j. sim n (S j) (fst (Q j)) (snd (Q j))) \<and> queues_reach K n g0 Q (resumed ds g) \<and> tracked S g ds"
  using assms
proof (induction rule: queues_run.induct)
  case queues_stop
  show ?case
    using sim_initial [OF queues_stop(2)] queues_start [of K n g0] tracked_start [of q g0]
    by (intro exI [of _ "\<lambda>j. (0, [])"] exI [of _ "[]"]) simp
next
  case (queues_own ms S g u a g')
  then have "fresh_queues lp lo n (\<lambda>j. initial (q j)) ms S" by (simp add: fresh_queues_def labels_at_append)
  with queues_own.IH queues_own.prems obtain Q ds where st: "\<forall>j. sim n (S j) (fst (Q j)) (snd (Q j))"
      "queues_reach K n g0 Q (resumed ds g)" "tracked S g ds"
    by blast
  note track = tracked_own [OF st(3) queues_own.hyps(3,4)]
  have "call_of K (resumed ds g) u = None" "own_step K u a (resumed ds g) = Some (resumed ds g')" "\<not> halted K (resumed ds g)"
    using own_resumed [OF tracked_at(3) [OF st(3)] track(2) queues_own.hyps(3,4)] queues_own.hyps(2) by (simp_all add: halted_resumed)
  with st(2) have "queues_reach K n g0 Q (resumed ds g')" by (metis queues_own_step)
  with st(1) track(1) show ?case by blast
next
  case (queues_call ms S g t j c s')
  have "fresh_queues lp lo n (\<lambda>j. initial (q j)) ms S"
    by (rule fresh_queues_before [OF queues_call.hyps(1) queues_call.prems(1)]) (simp split: if_splits)
  with queues_call.IH queues_call.prems(2) obtain Q ds where st: "\<forall>i. sim n (S i) (fst (Q i)) (snd (Q i))"
      "queues_reach K n g0 Q (resumed ds g)" "tracked S g ds"
    by blast
  have "sim n s' (fst (Q j)) (snd (Q j))" using sim_other_pc [OF st(1) [rule_format, of j] start_ok] queues_call.hyps(4) by simp
  with st(1) have "\<forall>i. sim n ((S(j := s')) i) (fst (Q i)) (snd (Q i))" by simp
  with st(2) tracked_call [OF st(3) queues_call.hyps(3,4)] show ?case by blast
next
  case (queues_act ms S g j t ev s')
  have frS: "fresh_queues lp lo n (\<lambda>j. initial (q j)) ms S"
    by (rule fresh_queues_before [OF queues_act.hyps(1) queues_act.prems(1)]) (simp split: if_splits)
  with queues_act.IH queues_act.prems(2) obtain Q ds where st: "\<forall>i. sim n (S i) (fst (Q i)) (snd (Q i))"
      "queues_reach K n g0 Q (resumed ds g)" "tracked S g ds"
    by blast
  from act_refines [OF st fresh_queues_fresh [OF frS] queues_act.hyps(2,3)] show ?case .
next
  case (queues_ret ms S g j t e s')
  have "fresh_queues lp lo n (\<lambda>j. initial (q j)) ms S"
    by (rule fresh_queues_before [OF queues_ret.hyps(1) queues_ret.prems(1)]) (simp split: if_splits)
  with queues_ret.IH queues_ret.prems(2) obtain Q ds where st: "\<forall>i. sim n (S i) (fst (Q i)) (snd (Q i))"
      "queues_reach K n g0 Q (resumed ds g)" "tracked S g ds"
    by blast
  note ret = tracked_ret [OF st(3) queues_ret.hyps(3)]
  have "sim n s' (fst (Q j)) (snd (Q j))" using sim_other_pc [OF st(1) [rule_format, of j], of t Idle] ret(2) by simp
  with st(1) have "\<forall>i. sim n ((S(j := s')) i) (fst (Q i)) (snd (Q i))" by simp
  with st(2) ret(1) show ?case by metis
qed

text \<open>When no thread is in a call, the program is where the abstract queues have led it.\<close>

corollary quiet_queues:
  assumes "queues_run K lp lo (\<lambda>j. initial (q j)) g0 ms S g" and "fresh_queues lp lo n (\<lambda>j. initial (q j)) ms S"
    and "\<And>j. rep (q j) n 0 0 0 []" and none: "\<And>t. call_of K g t = None"
  shows "\<exists>Q. (\<forall>j. holds (mem (S j)) n (fst (Q j)) (snd (Q j))) \<and> queues_reach K n g0 Q g"
proof -
  obtain Q ds where st: "\<forall>j. sim n (S j) (fst (Q j)) (snd (Q j))" "queues_reach K n g0 Q (resumed ds g)" "tracked S g ds"
    using queues_refine [OF assms(1-3)] by blast
  have "ds = []" using tracked_at(3) [OF st(3)] none by (cases ds) (auto simp: due_def)
  with st(2) have "queues_reach K n g0 Q g" by simp
  with st(1) rep_holds [OF sim_rep] show ?thesis by blast
qed

end

section \<open>Programs over one queue\<close>

type_synonym ('a, 'g, 'v, 'i) queue_program = "('a, 'g, ('v, 'i) op, ('v, 'i) event) program"

datatype ('a, 'v, 'i) program_move = Own nat 'a | Queue "('v, 'i) label"

inductive program_run ::
  "('a, 'g, 'v::zero, 'l::len word) queue_program \<Rightarrow> bool \<Rightarrow> bool \<Rightarrow> ('v, 'l) sys \<Rightarrow> 'g \<Rightarrow>
     ('a, 'v, 'l word) program_move list \<Rightarrow> ('v, 'l) sys \<Rightarrow> 'g \<Rightarrow> bool"
  for K lp lo s0 g0 where
  client_stop: "program_run K lp lo s0 g0 [] s0 g0"
| client_own: "program_run K lp lo s0 g0 ms s g \<Longrightarrow> \<not> halted K g \<Longrightarrow> call_of K g t = None \<Longrightarrow> own_step K t a g = Some g' \<Longrightarrow>
    program_run K lp lo s0 g0 (ms @ [Own t a]) s g'"
| client_call: "program_run K lp lo s0 g0 ms s g \<Longrightarrow> \<not> halted K g \<Longrightarrow> call_of K g t = Some c \<Longrightarrow> sys_step lp lo s (Call t c) s' \<Longrightarrow>
    program_run K lp lo s0 g0 (ms @ [Queue (Call t c)]) s' g"
| client_act: "program_run K lp lo s0 g0 ms s g \<Longrightarrow> \<not> halted K g \<Longrightarrow> sys_step lp lo s (Act t ev) s' \<Longrightarrow>
    program_run K lp lo s0 g0 (ms @ [Queue (Act t ev)]) s' g"
| client_ret: "program_run K lp lo s0 g0 ms s g \<Longrightarrow> \<not> halted K g \<Longrightarrow> sys_step lp lo s (Ret t e) s' \<Longrightarrow>
    program_run K lp lo s0 g0 (ms @ [Queue (Ret t e)]) s' (resume K t e g)"

inductive spec_reach ::
  "('a, 'g, 'v, 'l::len word) queue_program \<Rightarrow> nat \<Rightarrow> 'g \<Rightarrow> nat \<times> 'v list \<Rightarrow> 'g \<Rightarrow> bool"
  for K n g0 where
  reach_start: "spec_reach K n g0 (0, []) g0"
| reach_own: "spec_reach K n g0 hx g \<Longrightarrow> \<not> halted K g \<Longrightarrow> call_of K g t = None \<Longrightarrow> own_step K t a g = Some g' \<Longrightarrow>
    spec_reach K n g0 hx g'"
| reach_event: "spec_reach K n g0 hx g \<Longrightarrow> \<not> halted K g \<Longrightarrow> call_of K g t = Some c \<Longrightarrow> answers c e \<Longrightarrow>
    spec_step n hx e = Some hx' \<Longrightarrow> spec_reach K n g0 hx' (resume K t e g)"

text \<open>The steps of the queue in a run.\<close>

fun queue_labels :: "('a, 'v, 'i) program_move list \<Rightarrow> ('v, 'i) label list" where
  "queue_labels [] = []"
| "queue_labels (Own t a # ms) = queue_labels ms"
| "queue_labels (Queue l # ms) = l # queue_labels ms"

lemma queue_labels_append: "queue_labels (ms @ ms') = queue_labels ms @ queue_labels ms'"
  by (induction ms rule: queue_labels.induct) simp_all

lemma program_sys_run: "program_run K lp lo s0 g0 ms s g \<Longrightarrow> sys_run lp lo s0 (queue_labels ms) s"
  by (induction rule: program_run.induct) (auto simp: queue_labels_append intro: sys_run.intros)

text \<open>A program over one queue is a program over several that uses queue 0.\<close>

definition on_first :: "('a, 'g, 'v, 'i) queue_program \<Rightarrow> ('a, 'g, 'v, 'i) queues_program" where
  "on_first K = \<lparr>call_of = (\<lambda>g t. map_option (Pair 0) (call_of K g t)), resume = resume K, own_step = own_step K, halted = halted K\<rparr>"

lemma on_first_fields [simp]:
  "call_of (on_first K) g t = map_option (Pair 0) (call_of K g t)" "resume (on_first K) = resume K"
  "own_step (on_first K) = own_step K" "halted (on_first K) = halted K"
  by (simp_all add: on_first_def)

fun first_move :: "('a, 'v, 'i) program_move \<Rightarrow> ('a, 'v, 'i) queues_move" where
  "first_move (Own t a) = Own_move t a"
| "first_move (Queue l) = At 0 l"

lemma first_labels: "labels_at j (map first_move ms) = (if j = 0 then queue_labels ms else [])"
  by (induction ms rule: queue_labels.induct) auto

lemma first_run:
  assumes "program_run K lp lo (initial q) g0 ms s g"
  shows "queues_run (on_first K) lp lo (\<lambda>j. initial q) g0 (map first_move ms) ((\<lambda>j. initial q)(0 := s)) g"
  using assms
proof (induction rule: program_run.induct)
  case client_stop
  show ?case using queues_stop [of "on_first K" lp lo "\<lambda>j. initial q" g0] by (simp add: fun_upd_idem)
next
  case (client_own ms s g t a g')
  then show ?case using queues_own [OF client_own.IH, of t a g'] by simp
next
  case (client_call ms s g t c s')
  then show ?case using queues_call [OF client_call.IH, of t 0 c s'] by (simp add: fun_upd_def cong: if_cong)
next
  case (client_act ms s g t ev s')
  then show ?case using queues_act [OF client_act.IH, of 0 t ev s'] by (simp add: fun_upd_def cong: if_cong)
next
  case (client_ret ms s g t e s')
  then show ?case using queues_ret [OF client_ret.IH, of 0 t e s'] by (simp add: fun_upd_def cong: if_cong)
qed

lemma first_reach: "queues_reach (on_first K) n g0 Q g \<Longrightarrow> spec_reach K n g0 (Q 0) g"
  by (induction rule: queues_reach.induct) (auto intro: spec_reach.intros)

lemma first_fresh:
  "fresh_run lp lo n (initial q) (queue_labels ms) s \<Longrightarrow>
   fresh_queues lp lo n (\<lambda>j. initial q) (map first_move ms) ((\<lambda>j. initial q)(0 := s))"
  by (simp add: fresh_queues_def first_labels fresh_stop)

locale client = calls_apart K answers
  for K :: "('a, 'g, 'v::zero, 'l::len word) queue_program"

sublocale client \<subseteq> first: queues_client "on_first K"
  by unfold_locales (auto simp: halted_resume dest: call_resume resume_resume own_resume call_own)

context client
begin

lemma first_due: "first.due ds g = due ds g"
  by (auto simp: due_def first.due_def)

lemma first_resumed: "first.resumed ds g = resumed ds g"
  by (induction ds) (auto simp: first.resumed_def)

theorem client_refines:
  assumes "program_run K lp lo (initial q) g0 ms s g" and "fresh_run lp lo n (initial q) (queue_labels ms) s" and "rep q n 0 0 0 []"
  shows "\<exists>h xs ds. sim n s h xs \<and> spec_reach K n g0 (h, xs) (resumed ds g) \<and> due ds g"
proof -
  obtain Q ds where st: "\<forall>j. sim n (((\<lambda>j. initial q)(0 := s)) j) (fst (Q j)) (snd (Q j))"
      "queues_reach (on_first K) n g0 Q (resumed ds g)" "due ds g"
    using first.queues_refine [OF first_run [OF assms(1)] first_fresh [OF assms(2)] assms(3)]
    by (auto simp: first_due first_resumed dest: first.tracked_at(3))
  from st(1) have "sim n s (fst (Q 0)) (snd (Q 0))" by (metis fun_upd_same)
  with first_reach [OF st(2)] st(3) show ?thesis by (metis prod.collapse)
qed

text \<open>When no thread is in a call, the program is where the abstract queue has led it.\<close>

corollary quiet_refines:
  assumes "program_run K lp lo (initial q) g0 ms s g" and "fresh_run lp lo n (initial q) (queue_labels ms) s" and "rep q n 0 0 0 []"
    and "\<And>t. call_of K g t = None"
  shows "\<exists>h xs. holds (mem s) n h xs \<and> spec_reach K n g0 (h, xs) g"
proof -
  obtain h xs ds where st: "sim n s h xs" "spec_reach K n g0 (h, xs) (resumed ds g)" "due ds g"
    using client_refines [OF assms(1-3)] by blast
  have "ds = []" using st(3) assms(4) by (cases ds) (auto simp: due_def)
  with st rep_holds [OF sim_rep [OF st(1)]] show ?thesis by auto
qed

end

section \<open>Main threads, producers and consumers\<close>

text \<open>The numbers of the threads of a program with a main thread and two families of threads.\<close>

datatype role = Main_role | Producer_role nat | Consumer_role nat

definition role_of :: "nat \<Rightarrow> role" where
  "role_of t = (if t = 0 then Main_role else if odd t then Producer_role (t div 2) else Consumer_role (t div 2 - 1))"

lemma role_of_inj: "role_of t = role_of u \<Longrightarrow> t = u"
  by (auto simp: role_of_def split: if_splits elim!: oddE evenE)

lemma roles_differ: "u \<noteq> t \<Longrightarrow> role_of u \<noteq> role_of t"
  using role_of_inj by blast

lemma role_of_cases: "role_of 0 = Main_role" "role_of (2 * i + 1) = Producer_role i" "role_of (2 * i + 2) = Consumer_role i"
  by (simp_all add: role_of_def)

lemma all_update:
  "i < length xs \<Longrightarrow> \<not> f (xs ! i) \<Longrightarrow> \<not> f y \<Longrightarrow> (\<forall>x \<in> set (xs[i := y]). f x) = (\<forall>x \<in> set xs. f x)"
  by (metis nth_mem set_update_memI)

end
