(* ===== verification/BandwidthRuns.thy ===== *)
theory BandwidthRuns
  imports Clients Bandwidth
begin

text \<open>
  \<^verbatim>\<open>QBandwidth::run\<close> on the queue itself. The threads of \<open>Bandwidth\<close> become a program in the sense of \<open>Clients\<close>:
  thread 0 is the main thread, the odd numbers are the producers and the other even numbers the consumers. Every run in
  which their pushes, pops and tests for emptiness are executed by the atomic steps of the lock-free queue is then a run of
  \<open>Bandwidth\<close>, and its report is right.
\<close>

section \<open>The program\<close>

definition bench_call :: "(u64 \<Rightarrow> 'v) \<Rightarrow> 'v bench \<Rightarrow> nat \<Rightarrow> ('v, 'i) op option" where
  "bench_call conv g t =
     (case role_of t of
        Main_role \<Rightarrow> None
      | Producer_role i \<Rightarrow>
          if i < length (producer_threads g) \<and> fst (producer_threads g ! i) = P_push
          then Some (Push (conv (snd (producer_threads g ! i)))) else None
      | Consumer_role j \<Rightarrow>
          if j < length (consumer_threads g) then
            (case fst (consumer_threads g ! j) of C_pop \<Rightarrow> Some Pop | C_empty \<Rightarrow> Some Is_empty | _ \<Rightarrow> None)
          else None)"

text \<open>What a thread does with the answer: \<^verbatim>\<open>if (_q.push(d)) counter++\<close>, \<^verbatim>\<open>while (_q.pop(d)) counter++\<close>.\<close>

definition bench_resume :: "nat \<Rightarrow> ('v, 'i) event \<Rightarrow> 'v bench \<Rightarrow> 'v bench" where
  "bench_resume t e g =
     (case role_of t of
        Main_role \<Rightarrow> g
      | Producer_role i \<Rightarrow>
          (let counter = snd (producer_threads g ! i)
           in g\<lparr>producer_threads := (producer_threads g)[i := (P_check, if returned e then counter + 1 else counter)]\<rparr>)
      | Consumer_role j \<Rightarrow>
          (let counter = snd (consumer_threads g ! j)
           in if fst (consumer_threads g ! j) = C_empty
              then g\<lparr>consumer_threads := (consumer_threads g)[j := (if returned e then C_store else C_pop, counter)]\<rparr>
              else g\<lparr>consumer_threads := (consumer_threads g)[j := if returned e then (C_pop, counter + 1) else (C_state, counter)]\<rparr>))"

definition bench_act_of :: "nat \<Rightarrow> bool \<Rightarrow> bench_act" where
  "bench_act_of t a =
     (case role_of t of Main_role \<Rightarrow> Main a | Producer_role i \<Rightarrow> Producer i | Consumer_role j \<Rightarrow> Consumer j a)"

definition bench_own :: "(u64 \<Rightarrow> 'v) \<Rightarrow> nat \<Rightarrow> bool \<Rightarrow> 'v bench \<Rightarrow> 'v bench option" where
  "bench_own conv t a g = bench_step 0 conv (bench_act_of t a) g"

definition bench_program :: "(u64 \<Rightarrow> 'v) \<Rightarrow> (bool, 'v bench, 'v, 'i) queue_program" where
  "bench_program conv =
     \<lparr>call_of = bench_call conv, resume = bench_resume, own_step = bench_own conv, halted = (\<lambda>g. main_thread g = M_aborted)\<rparr>"

lemma bench_program_fields [simp]:
  "call_of (bench_program conv) = bench_call conv" "resume (bench_program conv) = bench_resume"
  "own_step (bench_program conv) = bench_own conv" "halted (bench_program conv) g = (main_thread g = M_aborted)"
  by (simp_all add: bench_program_def)

section \<open>The threads do not look at each other in a call\<close>

lemma bench_call_cases:
  assumes "bench_call conv g t = Some c"
  obtains (producer) i where "role_of t = Producer_role i" and "i < length (producer_threads g)"
      and "fst (producer_threads g ! i) = P_push" and "c = Push (conv (snd (producer_threads g ! i)))"
    | (pop) j where "role_of t = Consumer_role j" and "j < length (consumer_threads g)"
      and "fst (consumer_threads g ! j) = C_pop" and "c = Pop"
    | (empty) j where "role_of t = Consumer_role j" and "j < length (consumer_threads g)"
      and "fst (consumer_threads g ! j) = C_empty" and "c = Is_empty"
  using assms by (auto simp: bench_call_def split: role.splits if_splits consumer_pc.splits)

lemma main_resume:
  assumes "bench_call conv g t = Some c"
  shows "main_step a (bench_resume t e g) = map_option (bench_resume t e) (main_step a g)"
  using assms
proof (cases rule: bench_call_cases)
  case (producer i)
  then show ?thesis
    using all_update [of i "producer_threads g" "\<lambda>x. fst x = P_done"]
    by (cases "main_thread g") (auto simp: main_step_def bench_resume_def Let_def)
next
  case (pop j)
  then show ?thesis
    using all_update [of j "consumer_threads g" "\<lambda>x. fst x = C_done"]
    by (cases "main_thread g") (auto simp: main_step_def bench_resume_def Let_def)
next
  case (empty j)
  then show ?thesis
    using all_update [of j "consumer_threads g" "\<lambda>x. fst x = C_done"]
    by (cases "main_thread g") (auto simp: main_step_def bench_resume_def Let_def)
qed

lemma producer_resume:
  assumes call: "bench_call conv g t = Some c" and i: "role_of t \<noteq> Producer_role i" "i < length (producer_threads g)"
    and pc: "fst (producer_threads g ! i) \<noteq> P_push"
  shows "producer_step n conv i (bench_resume t e g) = map_option (bench_resume t e) (producer_step n conv i g)"
proof -
  obtain p m where at: "producer_threads g ! i = (p, m)" by fastforce
  from call show ?thesis
  proof (cases rule: bench_call_cases)
    case (producer i')
    then have "i' \<noteq> i" using i(1) by auto
    with producer at i(2) pc show ?thesis
      by (cases p) (auto simp: producer_step_def bench_resume_def Let_def list_update_swap)
  qed (use at pc in \<open>cases p; auto simp: producer_step_def bench_resume_def Let_def\<close>)+
qed

lemma consumer_resume:
  assumes call: "bench_call conv g t = Some c" and j: "role_of t \<noteq> Consumer_role j" "j < length (consumer_threads g)"
    and pc: "fst (consumer_threads g ! j) \<notin> {C_pop, C_empty}"
  shows "consumer_step a j (bench_resume t e g) = map_option (bench_resume t e) (consumer_step a j g)"
proof -
  obtain p m where at: "consumer_threads g ! j = (p, m)" by fastforce
  from call show ?thesis
  proof (cases rule: bench_call_cases)
    case (producer i)
    with at pc show ?thesis by (cases p) (auto simp: consumer_step_def bench_resume_def Let_def)
  next
    case (pop j')
    then have "j' \<noteq> j" using j(1) by auto
    with pop at j(2) pc show ?thesis
      by (cases p) (auto simp: consumer_step_def bench_resume_def Let_def list_update_swap)
  next
    case (empty j')
    then have "j' \<noteq> j" using j(1) by auto
    with empty at j(2) pc show ?thesis
      by (cases p) (auto simp: consumer_step_def bench_resume_def Let_def list_update_swap)
  qed
qed

lemma bench_resume_frame [simp]:
  "main_thread (bench_resume t e g) = main_thread g" "under_test (bench_resume t e g) = under_test g"
  "length (producer_threads (bench_resume t e g)) = length (producer_threads g)"
  "length (consumer_threads (bench_resume t e g)) = length (consumer_threads g)"
  by (simp_all add: bench_resume_def Let_def split: role.split)

lemma bench_own_resume:
  assumes "u \<noteq> t" and call: "bench_call conv g t = Some c" and none: "bench_call conv g u = (None :: ('v, 'i) op option)"
  shows "bench_own conv u a (bench_resume t (e :: ('v, 'i) event) g) = map_option (bench_resume t e) (bench_own conv u a g)"
proof (cases "role_of u")
  case Main_role
  then show ?thesis using main_resume [OF call, of a e] by (simp add: bench_own_def bench_step_def bench_act_of_def)
next
  case (Producer_role i)
  then have "role_of t \<noteq> Producer_role i" using assms(1) role_of_inj by metis
  moreover have "fst (producer_threads g ! i) \<noteq> P_push" if "i < length (producer_threads g)"
    using none that Producer_role by (auto simp: bench_call_def)
  ultimately show ?thesis using producer_resume [OF call, of i 0 e] Producer_role
    by (simp add: bench_own_def bench_step_def bench_act_of_def)
next
  case (Consumer_role j)
  then have "role_of t \<noteq> Consumer_role j" using assms(1) role_of_inj by metis
  moreover have "fst (consumer_threads g ! j) \<notin> {C_pop, C_empty}" if "j < length (consumer_threads g)"
    using none that Consumer_role by (auto simp: bench_call_def)
  ultimately show ?thesis using consumer_resume [OF call, of j a e] Consumer_role
    by (simp add: bench_own_def bench_step_def bench_act_of_def)
qed

lemma bench_call_resume:
  assumes "u \<noteq> t"
  shows "bench_call conv (bench_resume t e g) u = bench_call conv g u"
  using roles_differ [OF assms] roles_differ [OF assms [symmetric]]
  by (cases "role_of u"; cases "role_of t") (auto simp: bench_call_def bench_resume_def Let_def)

lemma bench_resume_resume:
  assumes "u \<noteq> t"
  shows "bench_resume u f (bench_resume t e g) = bench_resume t e (bench_resume u f g)"
  using roles_differ [OF assms] roles_differ [OF assms [symmetric]]
  by (cases "role_of u"; cases "role_of t") (auto simp: bench_resume_def Let_def list_update_swap)

text \<open>A step of one thread does not change the calls of the others.\<close>

lemma bench_step_call:
  assumes step: "bench_step n conv (bench_act_of u a) g = Some g'" and ne: "u \<noteq> t"
  shows "bench_call conv g' t = bench_call conv g t"
proof (cases "role_of u")
  case Main_role
  with step show ?thesis
    by (cases "main_thread g"; cases "role_of t")
      (auto simp: bench_step_def bench_act_of_def main_step_def bench_call_def split: if_splits)
next
  case (Producer_role i)
  then have "role_of t \<noteq> Producer_role i" using ne role_of_inj by metis
  moreover obtain p m where "producer_threads g ! i = (p, m)" by fastforce
  ultimately show ?thesis using Producer_role step
    by (cases p; cases "role_of t") (auto simp: bench_step_def bench_act_of_def producer_step_def bench_call_def Let_def split: if_splits prod.splits)
next
  case (Consumer_role j)
  then have "role_of t \<noteq> Consumer_role j" using ne role_of_inj by metis
  moreover obtain p m where "consumer_threads g ! j = (p, m)" by fastforce
  ultimately show ?thesis using Consumer_role step
    by (cases p; cases "role_of t")
      (auto simp: bench_step_def bench_act_of_def consumer_step_def bench_call_def Let_def split: if_splits prod.splits option.splits)
qed

interpretation bench_prog: client "bench_program conv :: (bool, 'v::zero bench, 'v, 'l::len word) queue_program"
proof
  let ?K = "bench_program conv :: (bool, 'v bench, 'v, 'l word) queue_program"
  fix u t :: nat and g g' :: "'v bench" and c d :: "('v, 'l word) op" and e f :: "('v, 'l word) event" and a :: bool
  show "call_of ?K (resume ?K t e g) u = Some d" if "u \<noteq> t" "call_of ?K g u = Some d"
    using that by (simp add: bench_call_resume)
  show "halted ?K (resume ?K t e g) = halted ?K g" by simp
  show "resume ?K u f (resume ?K t e g) = resume ?K t e (resume ?K u f g)" if "u \<noteq> t"
    using bench_resume_resume [OF that] by simp
  show "call_of ?K (resume ?K t e g) u = None \<and> own_step ?K u a (resume ?K t e g) = Some (resume ?K t e g')"
    if "u \<noteq> t" "call_of ?K g t = Some c" "call_of ?K g u = None" "own_step ?K u a g = Some g'"
    using bench_own_resume [of u t conv g c a e] that by (simp add: bench_call_resume)
  show "call_of ?K g' t = Some c" if "own_step ?K u a g = Some g'" "call_of ?K g t = Some c" "call_of ?K g u = None"
  proof -
    have "u \<noteq> t" using that(2,3) by auto
    with that(1,2) show ?thesis by (simp add: bench_own_def bench_step_call)
  qed
qed

section \<open>On the abstract queue it is the model of Bandwidth\<close>

lemma bench_own_under_test:
  assumes "bench_call conv g t = (None :: ('v, 'i) op option)"
  shows "bench_step n conv (bench_act_of t a) (g\<lparr>under_test := xs\<rparr>) =
    map_option (\<lambda>g'. g'\<lparr>under_test := xs\<rparr>) (bench_own conv t a g)"
proof (cases "role_of t")
  case Main_role
  then show ?thesis
    by (cases "main_thread g") (simp_all add: bench_own_def bench_act_of_def bench_step_def main_step_def)
next
  case (Producer_role i)
  obtain p m where "producer_threads g ! i = (p, m)" by fastforce
  with Producer_role assms show ?thesis
    by (cases p) (auto simp: bench_own_def bench_act_of_def bench_step_def producer_step_def bench_call_def split: if_splits)
next
  case (Consumer_role j)
  obtain p m where "consumer_threads g ! j = (p, m)" by fastforce
  with Consumer_role assms show ?thesis
    by (cases p) (auto simp: bench_own_def bench_act_of_def bench_step_def consumer_step_def bench_call_def split: if_splits)
qed

lemma bench_event_under_test:
  assumes call: "bench_call conv g t = Some c" and ans: "answers c (e :: ('v, 'l::len word) event)" and halt: "main_thread g \<noteq> M_aborted"
    and spec: "spec_step n (h, xs) e = Some (h', xs')"
  shows "\<exists>a. bench_step n conv a (g\<lparr>under_test := xs\<rparr>) = Some ((bench_resume t e g)\<lparr>under_test := xs'\<rparr>)"
  using call
proof (cases rule: bench_call_cases)
  case (producer i)
  obtain m where "producer_threads g ! i = (P_push, m)" using producer(3) by (metis prod.collapse)
  with producer ans spec halt show ?thesis
    by (intro exI [of _ "Producer i"], cases e)
      (auto simp: bench_step_def producer_step_def bench_resume_def q_push_def split: if_splits)
next
  case (pop j)
  obtain m where "consumer_threads g ! j = (C_pop, m)" using pop(3) by (metis prod.collapse)
  with pop ans spec halt show ?thesis
    by (intro exI [of _ "Consumer j True"], cases e)
      (auto simp: bench_step_def consumer_step_def bench_resume_def q_pop_def split: if_splits list.splits)
next
  case (empty j)
  obtain m where "consumer_threads g ! j = (C_empty, m)" using empty(3) by (metis prod.collapse)
  with empty ans spec halt show ?thesis
    by (intro exI [of _ "Consumer j (returned e)"], cases e)
      (auto simp: bench_step_def consumer_step_def bench_resume_def q_empty_def split: if_splits)
qed

lemma bench_run_append:
  "bench_run n conv (as @ bs) s = Option.bind (bench_run n conv as s) (bench_run n conv bs)"
  by (induction as arbitrary: s) (auto split: bind_split)

lemma bench_reach:
  assumes "spec_reach (bench_program conv :: (bool, 'v bench, 'v, 'l::len word) queue_program) n g0 hx g"
  shows "\<exists>as. bench_run n conv as (g0\<lparr>under_test := []\<rparr>) = Some (g\<lparr>under_test := snd hx\<rparr>)"
  using assms
proof (induction rule: spec_reach.induct)
  case reach_start
  show ?case by (rule exI [of _ "[]"]) simp
next
  case (reach_own hx g t a g')
  then obtain as where "bench_run n conv as (g0\<lparr>under_test := []\<rparr>) = Some (g\<lparr>under_test := snd hx\<rparr>)" by blast
  moreover have "bench_step n conv (bench_act_of t a) (g\<lparr>under_test := snd hx\<rparr>) = Some (g'\<lparr>under_test := snd hx\<rparr>)"
    using bench_own_under_test [of conv g t n a "snd hx"] reach_own.hyps by simp
  ultimately show ?case by (intro exI [of _ "as @ [bench_act_of t a]"]) (simp add: bench_run_append)
next
  case (reach_event hx g t c e hx')
  then obtain as where as: "bench_run n conv as (g0\<lparr>under_test := []\<rparr>) = Some (g\<lparr>under_test := snd hx\<rparr>)" by blast
  obtain a where "bench_step n conv a (g\<lparr>under_test := snd hx\<rparr>) = Some ((bench_resume t e g)\<lparr>under_test := snd hx'\<rparr>)"
    using bench_event_under_test [of conv g t c e n "fst hx" "snd hx" "fst hx'" "snd hx'"] reach_event.hyps
    by auto
  with as show ?case by (intro exI [of _ "as @ [a]"]) (simp add: bench_run_append)
qed

section \<open>The report\<close>

text \<open>At the report no call is under way: a thread that returns from a call is not done.\<close>

lemma caller_not_done:
  assumes call: "bench_call conv g t = Some c" and ok: "bench_ok P C ((bench_resume t e g)\<lparr>under_test := xs\<rparr>)"
  shows "main_thread (bench_resume t e g) \<noteq> M_report"
proof
  assume report: "main_thread (bench_resume t e g) = M_report"
  let ?g = "(bench_resume t e g)\<lparr>under_test := xs\<rparr>"
  have len: "length (producer_threads g) = unat P" "length (consumer_threads g) = unat C" using ok by (simp_all add: bench_ok_def counts_ok_def)
  have done_p: "fst (producer_threads ?g ! i) = P_done" if "i < length (producer_threads g)" for i
  proof -
    have "producer_ok ?g i" using ok that len by (simp add: bench_ok_def)
    with report show ?thesis by (simp add: producer_ok_def split_beta)
  qed
  have done_c: "fst (consumer_threads ?g ! j) = C_done" if "j < length (consumer_threads g)" for j
  proof -
    have "consumer_ok ?g j" using ok that len by (simp add: bench_ok_def)
    with report show ?thesis by (simp add: consumer_ok_def split_beta)
  qed
  from call show False
  proof (cases rule: bench_call_cases)
    case (producer i)
    with done_p [of i] show False by (simp add: bench_resume_def Let_def)
  next
    case (pop j)
    with done_c [of j] show False by (simp add: bench_resume_def Let_def split: if_splits)
  next
    case (empty j)
    with done_c [of j] show False by (simp add: bench_resume_def Let_def split: if_splits)
  qed
qed

theorem bandwidth_report:
  fixes q :: "('v::zero, 'l::len) queue"
  assumes run: "program_run (bench_program conv) lp lo (initial q) (bench_start P C) ms s g"
    and fr: "fresh_run lp lo n (initial q) (queue_labels ms) s" and q: "rep q n 0 0 0 []"
    and report: "main_thread g = M_report" and C: "0 < C"
  shows "total_push g = total_pop g \<and> (\<exists>h. holds (mem s) n h [])"
proof -
  let ?K = "bench_program conv :: (bool, 'v bench, 'v, 'l word) queue_program"
  obtain h xs and ds :: "(nat \<times> ('v, 'l word) event) list" where st: "sim n s h xs" "spec_reach ?K n (bench_start P C) (h, xs) (bench_prog.resumed conv ds g)"
      "bench_prog.due conv ds g"
    using bench_prog.client_refines [OF run fr q] by blast
  obtain as where "bench_run n conv as ((bench_start P C)\<lparr>under_test := []\<rparr>) = Some ((bench_prog.resumed conv ds g)\<lparr>under_test := xs\<rparr>)"
    using bench_reach [OF st(2)] unfolding snd_conv by blast
  then have as: "bench_run n conv as (bench_start P C) = Some ((bench_prog.resumed conv ds g)\<lparr>under_test := xs\<rparr>)"
    by (simp add: bench_start_def)
  note ok = bench_run_ok [OF bench_start_ok as]
  have report': "main_thread (bench_prog.resumed conv ds' g) = M_report" for ds' :: "(nat \<times> ('v, 'l word) event) list"
    using report by (induction ds') auto
  have "ds = []"
  proof (rule bench_prog.nothing_due [OF st(3), where P = "\<lambda>x. main_thread x = M_report \<and> bench_ok P C (x\<lparr>under_test := xs\<rparr>)"])
    show "main_thread (bench_prog.resumed conv ds g) = M_report \<and> bench_ok P C ((bench_prog.resumed conv ds g)\<lparr>under_test := xs\<rparr>)"
      using report' ok by simp
  qed (auto dest: caller_not_done)
  with bench_report [OF ok _ C] report have "total_push g = total_pop g" "xs = []" by (simp_all add: total_push_def total_pop_def)
  with rep_holds [OF sim_rep [OF st(1)]] show ?thesis by auto
qed

section \<open>The printed line\<close>

text \<open>
  The numbers of the last lines of \<^verbatim>\<open>run\<close>, from the clock at the start and at the end and the result of \<^verbatim>\<open>tsc_per_milli\<close>. The
  division of the rate has no guard: \<open>None\<close> stands for a measurement that the clock cannot tell from no time at all.
\<close>

record bandwidth_line =
  line_push :: u64
  line_pop :: u64
  line_error :: bool
  line_tsc :: u64
  line_tsc_per_op :: u64
  line_per_second :: u64
  line_difference :: "u64 option"

definition printed_line :: "u64 \<Rightarrow> u64 \<Rightarrow> u64 \<Rightarrow> 'v bench \<Rightarrow> bandwidth_line option" where
  "printed_line per_milli run_start run_end g =
     (let total = total_push g; tsc = run_end - run_start
      in if tsc = 0 then None
         else Some \<lparr>line_push = total, line_pop = total_pop g, line_error = (total \<noteq> total_pop g), line_tsc = tsc,
           line_tsc_per_op = (if total \<noteq> 0 then tsc div total else 0), line_per_second = 1000 * total * per_milli div tsc,
           line_difference = (if total \<noteq> total_pop g then Some (total - total_pop g) else None)\<rparr>)"

lemma printed_right:
  "total_push g = total_pop g \<Longrightarrow> printed_line per_milli t0 t1 g = Some r \<Longrightarrow> \<not> line_error r \<and> line_difference r = None"
  by (auto simp: printed_line_def Let_def split: if_splits)

end
