(* ===== verification/HashQueue.thy ===== *)
theory HashQueue
  imports Clients HashRuns
begin

text \<open>
  The tests \<^verbatim>\<open>hash2\<close> and \<^verbatim>\<open>hash3\<close> on the queue itself: the threads of \<open>HashRuns\<close> as a program in the sense of
  \<open>Clients\<close>, whose calls are executed by the atomic steps of the lock-free queue.
\<close>

text \<open>The value-initialised elements.\<close>

instantiation data2 :: zero
begin

definition zero_data2 :: data2 where "0 = Data2 0 0"

instance ..

end

instantiation data3 :: zero
begin

definition zero_data3 :: data3 where "0 = Data3 0 0 0"

instance ..

end

section \<open>The program\<close>

definition hash_call :: "('w::len word, 'd) stress \<Rightarrow> ('w word, 'd) hash_run \<Rightarrow> nat \<Rightarrow> ('d, 'i) op option" where
  "hash_call T g t =
     (case role_of t of
        Main_role \<Rightarrow> if hmain g = HM_empty then Some Is_empty else None
      | Producer_role p \<Rightarrow>
          if p < length (hproducers g) \<and> fst (hproducers g ! p) = HP_push
          then Some (Push (make_element T (snd (hproducers g ! p)) (of_nat p))) else None
      | Consumer_role j \<Rightarrow>
          if hmain g \<noteq> HM_empty \<and> j < length (hconsumers g) then
            (case hconsumers g ! j of HC_empty \<Rightarrow> Some Is_empty | HC_pop \<Rightarrow> Some Pop | _ \<Rightarrow> None)
          else None)"

definition hash_resume :: "nat \<Rightarrow> nat \<Rightarrow> ('d, 'i) event \<Rightarrow> ('w::len word, 'd) hash_run \<Rightarrow> ('w word, 'd) hash_run" where
  "hash_resume C t e g =
     (case role_of t of
        Main_role \<Rightarrow> if returned e then g else g\<lparr>hconsumers := replicate C HC_empty, hmain := HM_join\<rparr>
      | Producer_role p \<Rightarrow>
          (let i = snd (hproducers g ! p)
           in g\<lparr>hproducers := (hproducers g)[p := if returned e then (HP_add, i + 1) else (HP_push, i)]\<rparr>)
      | Consumer_role j \<Rightarrow>
          (if hconsumers g ! j = HC_empty
           then g\<lparr>hconsumers := (hconsumers g)[j := if \<not> returned e then HC_pop else HC_count]\<rparr>
           else g\<lparr>hconsumers := (hconsumers g)[j := case e of Popped i d \<Rightarrow> HC_lock d | _ \<Rightarrow> HC_empty]\<rparr>))"

definition hash_act_of :: "nat \<Rightarrow> bool \<Rightarrow> hash_act" where
  "hash_act_of t a =
     (case role_of t of Main_role \<Rightarrow> H_main a | Producer_role p \<Rightarrow> H_producer p | Consumer_role j \<Rightarrow> H_consumer j a)"

text \<open>The consumers have steps only after their creation.\<close>

definition hash_own ::
  "('w::len word, 'd) stress \<Rightarrow> 'w word \<Rightarrow> nat \<Rightarrow> nat \<Rightarrow> bool \<Rightarrow> ('w word, 'd) hash_run \<Rightarrow> ('w word, 'd) hash_run option" where
  "hash_own T loops C t a g =
     (case role_of t of
        Consumer_role j \<Rightarrow> if hmain g = HM_empty then None else hash_step T 0 loops C (hash_act_of t a) g
      | _ \<Rightarrow> hash_step T 0 loops C (hash_act_of t a) g)"

definition hash_program ::
  "('w::len word, 'd) stress \<Rightarrow> 'w word \<Rightarrow> nat \<Rightarrow> (bool, ('w word, 'd) hash_run, 'd, 'i) queue_program" where
  "hash_program T loops C =
     \<lparr>call_of = hash_call T, resume = hash_resume C, own_step = hash_own T loops C, halted = (\<lambda>g. False)\<rparr>"

lemma hash_program_fields [simp]:
  "call_of (hash_program T loops C) = hash_call T" "resume (hash_program T loops C) = hash_resume C"
  "own_step (hash_program T loops C) = hash_own T loops C" "halted (hash_program T loops C) g = False"
  by (simp_all add: hash_program_def)

section \<open>The threads do not look at each other in a call\<close>

lemma hash_call_cases:
  assumes "hash_call T g t = Some c"
  obtains (main) "role_of t = Main_role" and "hmain g = HM_empty" and "c = Is_empty"
    | (producer) p i where "role_of t = Producer_role p" and "p < length (hproducers g)"
      and "hproducers g ! p = (HP_push, i)" and "c = Push (make_element T i (of_nat p))"
    | (pop) j where "role_of t = Consumer_role j" and "hmain g \<noteq> HM_empty" and "j < length (hconsumers g)"
      and "hconsumers g ! j = HC_pop" and "c = Pop"
    | (empty) j where "role_of t = Consumer_role j" and "hmain g \<noteq> HM_empty" and "j < length (hconsumers g)"
      and "hconsumers g ! j = HC_empty" and "c = Is_empty"
proof (cases "role_of t")
  case (Producer_role p)
  then show ?thesis using assms producer [of p "snd (hproducers g ! p)"]
    by (cases "hproducers g ! p") (auto simp: hash_call_def split: if_splits)
qed (use assms main pop empty in \<open>auto simp: hash_call_def split: if_splits hc_pc.splits\<close>)

text \<open>The main thread waits in \<^verbatim>\<open>join\<close> while a thread is busy.\<close>

definition someone_busy :: "('i, 'd) hash_run \<Rightarrow> bool" where
  "someone_busy g \<longleftrightarrow>
     (\<exists>p < length (hproducers g). fst (hproducers g ! p) \<noteq> HP_done) \<or> (\<exists>j < length (hconsumers g). hconsumers g ! j \<noteq> HC_done)"

lemma join_waits:
  assumes "hmain g = HM_join" and "someone_busy g"
  shows "hm_step C a g = Some g"
proof -
  have "\<not> ((\<forall>x \<in> set (hproducers g). fst x = HP_done) \<and> (\<forall>c \<in> set (hconsumers g). c = HC_done))"
    using assms(2) unfolding someone_busy_def by (meson nth_mem)
  then show ?thesis unfolding hm_step_def assms(1) hm_pc.case by (simp only: if_False)
qed

text \<open>A thread is not done in a call, nor when it returns from it.\<close>

lemma caller_busy:
  assumes call: "hash_call T g t = Some c" and ne: "role_of t \<noteq> Main_role"
  shows "someone_busy g"
  using call
proof (cases rule: hash_call_cases)
  case main
  with ne show ?thesis by simp
next
  case (producer p i)
  then show ?thesis unfolding someone_busy_def by (intro disjI1 exI [of _ p]) simp
next
  case (pop j)
  then show ?thesis unfolding someone_busy_def by (intro disjI2 exI [of _ j]) simp
next
  case (empty j)
  then show ?thesis unfolding someone_busy_def by (intro disjI2 exI [of _ j]) simp
qed

lemma caller_busy_after:
  assumes call: "hash_call T g t = Some c" and ne: "role_of t \<noteq> Main_role"
  shows "someone_busy (hash_resume C t e g)"
  using call
proof (cases rule: hash_call_cases)
  case main
  with ne show ?thesis by simp
next
  case (producer p i)
  then show ?thesis unfolding someone_busy_def by (intro disjI1 exI [of _ p]) (simp add: hash_resume_def)
next
  case (pop j)
  moreover have "(case e of Popped i d \<Rightarrow> HC_lock d | _ \<Rightarrow> HC_empty) \<noteq> HC_done" by (cases e) simp_all
  ultimately show ?thesis unfolding someone_busy_def by (intro disjI2 exI [of _ j]) (simp add: hash_resume_def)
next
  case (empty j)
  then show ?thesis unfolding someone_busy_def by (intro disjI2 exI [of _ j]) (simp add: hash_resume_def)
qed

lemma hash_main_resume:
  assumes call: "hash_call T g t = Some c" and ne: "role_of t \<noteq> Main_role" and hm: "hmain g \<noteq> HM_empty"
    and own: "hm_step C a g = Some g'"
  shows "hm_step C a (hash_resume C t e g) = Some (hash_resume C t e g')"
proof -
  have join: "hmain g = HM_join" using own hm by (cases "hmain g") (simp_all add: hm_step_def)
  then have "g' = g" using own join_waits [OF join caller_busy [OF call ne]] by simp
  moreover have "hmain (hash_resume C t e g) = HM_join"
    using join ne by (cases "role_of t") (simp_all add: hash_resume_def Let_def)
  ultimately show ?thesis using join_waits caller_busy_after [OF call ne] by blast
qed

lemma hash_producer_resume:
  assumes call: "hash_call T g t = Some c" and p: "role_of t \<noteq> Producer_role p" "p < length (hproducers g)"
    and pc: "fst (hproducers g ! p) \<noteq> HP_push" and own: "hp_step T n loops p g = Some g'"
  shows "hp_step T n loops p (hash_resume C t e g) = Some (hash_resume C t e g')"
proof -
  obtain pc i where at: "hproducers g ! p = (pc, i)" by fastforce
  from call show ?thesis
  proof (cases rule: hash_call_cases)
    case (producer p' i')
    then have "p' \<noteq> p" using p(1) by auto
    with producer at p(2) pc own show ?thesis
      by (cases pc) (auto simp: hp_step_def hash_resume_def Let_def list_update_swap split: if_splits)
  qed (use at pc own in \<open>cases pc; auto simp: hp_step_def hash_resume_def Let_def split: if_splits\<close>)+
qed

lemma hash_consumer_resume:
  assumes call: "hash_call T g t = Some c" and j: "role_of t \<noteq> Consumer_role j" "j < length (hconsumers g)" "hmain g \<noteq> HM_empty"
    and pc: "hconsumers g ! j \<notin> {HC_pop, HC_empty}" and own: "hc_step T a j g = Some g'"
  shows "hc_step T a j (hash_resume C t e g) = Some (hash_resume C t e g')"
  using call
proof (cases rule: hash_call_cases)
  case main
  with j(3) show ?thesis by simp
next
  case (producer p i)
  then show ?thesis using pc own
    by (cases "hconsumers g ! j") (auto simp: hc_step_def hash_resume_def Let_def split: if_splits)
next
  case (pop k)
  then have "k \<noteq> j" using j(1) by auto
  with pop j pc own show ?thesis
    by (cases "hconsumers g ! j") (auto simp: hc_step_def hash_resume_def Let_def list_update_swap split: if_splits)
next
  case (empty k)
  then have "k \<noteq> j" using j(1) by auto
  with empty j pc own show ?thesis
    by (cases "hconsumers g ! j") (auto simp: hc_step_def hash_resume_def Let_def list_update_swap split: if_splits)
qed

lemma hash_resume_frame [simp]:
  "hq (hash_resume C t e g) = hq g" "hin (hash_resume C t e g) = hin g" "hout (hash_resume C t e g) = hout g"
  "slocks (hash_resume C t e g) = slocks g" "length (hproducers (hash_resume C t e g)) = length (hproducers g)"
  "hmain g \<noteq> HM_empty \<Longrightarrow> hmain (hash_resume C t e g) = hmain g \<or> role_of t = Main_role"
  by (simp_all add: hash_resume_def Let_def split: role.split)

lemma hash_call_resume:
  assumes ne: "u \<noteq> t" and call: "hash_call T g u = Some d" and t: "hash_call T g t = Some (c :: ('d, 'i) op)"
  shows "hash_call T (hash_resume C t e g) u = Some d"
  using t
proof (cases rule: hash_call_cases)
  case main
  with roles_differ [OF ne] call show ?thesis
    by (cases "role_of u") (auto simp: hash_call_def hash_resume_def Let_def split: if_splits)
next
  case (producer p i)
  with roles_differ [OF ne] call show ?thesis
    by (cases "role_of u") (auto simp: hash_call_def hash_resume_def Let_def split: if_splits)
next
  case (pop j)
  with roles_differ [OF ne] call show ?thesis
    by (cases "role_of u") (auto simp: hash_call_def hash_resume_def Let_def split: if_splits)
next
  case (empty j)
  with roles_differ [OF ne] call show ?thesis
    by (cases "role_of u") (auto simp: hash_call_def hash_resume_def Let_def split: if_splits)
qed

lemma main_call_alone:
  "role_of t = Main_role \<Longrightarrow> hash_call T g t = Some c \<Longrightarrow> hash_call T g u = Some d \<Longrightarrow> role_of u \<noteq> Consumer_role j"
  by (auto simp: hash_call_def split: if_splits)

lemma hash_resume_resume:
  assumes ne: "u \<noteq> t" and u: "hash_call T g u = Some d" and t: "hash_call T g t = Some c"
  shows "hash_resume C u f (hash_resume C t e g) = hash_resume C t e (hash_resume C u f g)"
proof (cases "role_of u")
  case Main_role
  have "role_of t \<noteq> Consumer_role j" for j
    using Main_role u t by (rule main_call_alone)
  with Main_role show ?thesis using roles_differ [OF ne]
    by (cases "role_of t") (auto simp: hash_resume_def Let_def)
next
  case (Producer_role p)
  then show ?thesis using roles_differ [OF ne]
    by (cases "role_of t") (simp_all add: hash_resume_def Let_def list_update_swap)
next
  case (Consumer_role j)
  then have "role_of t \<noteq> Main_role" using main_call_alone t u by blast
  with Consumer_role show ?thesis using roles_differ [OF ne]
    by (cases "role_of t") (simp_all add: hash_resume_def Let_def list_update_swap)
qed

lemma hash_own_resume:
  assumes ne: "u \<noteq> t" and t: "hash_call T g t = Some c" and u: "hash_call T g u = (None :: ('d, 'i) op option)"
    and own: "hash_own T loops C u a g = Some g'"
  shows "hash_call T (hash_resume C t e g) u = (None :: ('d, 'i) op option) \<and>
    hash_own T loops C u a (hash_resume C t e g) = Some (hash_resume C t e g')"
proof (cases "role_of u")
  case Main_role
  then have hm: "hmain g \<noteq> HM_empty" "role_of t \<noteq> Main_role" using u roles_differ [OF ne] by (auto simp: hash_call_def split: if_splits)
  with hash_resume_frame(6) [of g C t e] have "hmain (hash_resume C t e g) \<noteq> HM_empty" by auto
  with hm Main_role own hash_main_resume [OF t hm(2,1)] show ?thesis
    by (simp add: hash_own_def hash_step_def hash_act_of_def hash_call_def)
next
  case (Producer_role p)
  then have other: "role_of t \<noteq> Producer_role p" using roles_differ [OF ne] by auto
  have p: "p < length (hproducers g)" "hp_step T 0 loops p g = Some g'"
    using own Producer_role by (simp_all add: hash_own_def hash_step_def hash_act_of_def split: if_splits)
  then have pc: "fst (hproducers g ! p) \<noteq> HP_push" using u Producer_role by (auto simp: hash_call_def split: if_splits)
  have "hproducers (hash_resume C t e g) ! p = hproducers g ! p"
    using other by (cases "role_of t") (auto simp: hash_resume_def Let_def)
  with pc p hash_producer_resume [OF t other p(1) pc p(2)] Producer_role show ?thesis
    by (simp add: hash_own_def hash_step_def hash_act_of_def hash_call_def)
next
  case (Consumer_role j)
  then have other: "role_of t \<noteq> Consumer_role j" using roles_differ [OF ne] by auto
  have j: "hmain g \<noteq> HM_empty" "j < length (hconsumers g)" "hc_step T a j g = Some g'"
    using own Consumer_role by (simp_all add: hash_own_def hash_step_def hash_act_of_def split: if_splits)
  then have pc: "hconsumers g ! j \<notin> {HC_pop, HC_empty}" using u Consumer_role by (auto simp: hash_call_def split: hc_pc.splits)
  have main: "role_of t \<noteq> Main_role" using t j(1) by (auto simp: hash_call_def)
  then have "hconsumers (hash_resume C t e g) ! j = hconsumers g ! j" "length (hconsumers (hash_resume C t e g)) = length (hconsumers g)"
      "hmain (hash_resume C t e g) = hmain g"
    using other by (cases "role_of t"; auto simp: hash_resume_def Let_def)+
  with pc j hash_consumer_resume [OF t other j(2,1) pc j(3)] Consumer_role show ?thesis
    by (auto simp: hash_own_def hash_step_def hash_act_of_def hash_call_def split: hc_pc.splits)
qed

text \<open>A step of one thread does not change the calls of the others.\<close>

lemma hash_own_call:
  assumes own: "hash_own T loops C u a g = Some g'" and t: "hash_call T g t = Some c"
    and u: "hash_call T g u = (None :: ('d, 'i) op option)"
  shows "hash_call T g' t = Some (c :: ('d, 'i) op)"
proof -
  have ne: "u \<noteq> t" using t u by auto
  show ?thesis
  proof (cases "role_of u")
    case Main_role
    with own u t roles_differ [OF ne] show ?thesis
      by (cases "hmain g"; cases "role_of t")
        (auto simp: hash_own_def hash_step_def hash_act_of_def hm_step_def hash_call_def split: if_splits)
  next
    case (Producer_role i)
    moreover obtain p m where "hproducers g ! i = (p, m)" by fastforce
    ultimately show ?thesis using own u t roles_differ [OF ne]
      by (cases p; cases "role_of t") (auto simp: hash_own_def hash_step_def hash_act_of_def hp_step_def hash_call_def Let_def split: if_splits prod.splits)
  next
    case (Consumer_role j)
    with own u t roles_differ [OF ne] show ?thesis
      by (cases "hconsumers g ! j"; cases "role_of t")
        (auto simp: hash_own_def hash_step_def hash_act_of_def hc_step_def hash_call_def Let_def split: if_splits prod.splits option.splits)
  qed
qed

interpretation hash_prog: client "hash_program T loops C :: (bool, ('w::len word, 'd::zero) hash_run, 'd, 'l::len word) queue_program"
proof
  let ?K = "hash_program T loops C :: (bool, ('w word, 'd) hash_run, 'd, 'l word) queue_program"
  fix u t :: nat and g g' :: "('w word, 'd) hash_run" and c d :: "('d, 'l word) op" and e f :: "('d, 'l word) event" and a :: bool
  show "call_of ?K (resume ?K t e g) u = Some d" if "u \<noteq> t" "call_of ?K g t = Some c" "call_of ?K g u = Some d"
    using that hash_call_resume [of u t T g d c C e] by simp
  show "halted ?K (resume ?K t e g) = halted ?K g" by simp
  show "resume ?K u f (resume ?K t e g) = resume ?K t e (resume ?K u f g)"
    if "u \<noteq> t" "call_of ?K g t = Some c" "call_of ?K g u = Some d"
    using that hash_resume_resume [of u t T g d c C f e] by simp
  show "call_of ?K (resume ?K t e g) u = None \<and> own_step ?K u a (resume ?K t e g) = Some (resume ?K t e g')"
    if "u \<noteq> t" "call_of ?K g t = Some c" "call_of ?K g u = None" "own_step ?K u a g = Some g'"
    using that hash_own_resume [of u t T g c loops C a g' e] by simp
  show "call_of ?K g' t = Some c" if "own_step ?K u a g = Some g'" "call_of ?K g t = Some c" "call_of ?K g u = None"
    using that hash_own_call [of T loops C u a g g' t c] by simp
qed

section \<open>On the abstract queue it is the model of HashRuns\<close>

lemma hm_step_queue:
  "hmain g \<noteq> HM_empty \<Longrightarrow> hm_step C a (g\<lparr>hq := xs\<rparr>) = map_option (\<lambda>g'. g'\<lparr>hq := xs\<rparr>) (hm_step C a g)"
  by (cases "hmain g") (simp_all add: hm_step_def)

lemma hash_own_queue:
  assumes "hash_call T g t = (None :: ('d, 'i) op option)" and "hash_own T loops C t a g = Some g'"
  shows "hash_step T n loops C (hash_act_of t a) (g\<lparr>hq := xs\<rparr>) = Some (g'\<lparr>hq := xs\<rparr>)"
proof (cases "role_of t")
  case Main_role
  moreover from this have "hmain g \<noteq> HM_empty" using assms(1) by (auto simp: hash_call_def)
  ultimately show ?thesis using assms(2) hm_step_queue [of g C a xs]
    by (simp add: hash_own_def hash_act_of_def hash_step_def)
next
  case (Producer_role i)
  obtain p m where "hproducers g ! i = (p, m)" by fastforce
  with Producer_role assms show ?thesis
    by (cases p) (auto simp: hash_own_def hash_act_of_def hash_step_def hp_step_def hash_call_def split: if_splits)
next
  case (Consumer_role j)
  with assms show ?thesis
    by (cases "hconsumers g ! j") (auto simp: hash_own_def hash_act_of_def hash_step_def hc_step_def hash_call_def split: if_splits)
qed

lemma hash_event_queue:
  assumes call: "hash_call T g t = Some c" and ans: "answers c (e :: ('d, 'l::len word) event)"
    and spec: "spec_step n (h, xs) e = Some (h', xs')"
  shows "\<exists>a. hash_step T n loops C a (g\<lparr>hq := xs\<rparr>) = Some ((hash_resume C t e g)\<lparr>hq := xs'\<rparr>)"
  using call
proof (cases rule: hash_call_cases)
  case main
  with ans spec show ?thesis
    by (intro exI [of _ "H_main (returned e)"], cases e)
      (auto simp: hash_step_def hm_step_def hash_resume_def q_empty_def split: if_splits)
next
  case (producer p i)
  with ans spec show ?thesis
    by (intro exI [of _ "H_producer p"], cases e)
      (auto simp: hash_step_def hp_step_def hash_resume_def q_push_def split: if_splits)
next
  case (pop j)
  with ans spec show ?thesis
    by (intro exI [of _ "H_consumer j True"], cases e)
      (auto simp: hash_step_def hc_step_def hash_resume_def q_pop_def split: if_splits list.splits)
next
  case (empty j)
  with ans spec show ?thesis
    by (intro exI [of _ "H_consumer j (returned e)"], cases e)
      (auto simp: hash_step_def hc_step_def hash_resume_def q_empty_def split: if_splits)
qed

lemma hash_run_append:
  "hash_run_acts T n loops C (as @ bs) s = Option.bind (hash_run_acts T n loops C as s) (hash_run_acts T n loops C bs)"
  by (induction as arbitrary: s) (auto split: bind_split)

lemma hash_reach:
  assumes "spec_reach (hash_program T loops C :: (bool, ('w::len word, 'd::zero) hash_run, 'd, 'l::len word) queue_program) n g0 hx g"
  shows "\<exists>as. hash_run_acts T n loops C as (g0\<lparr>hq := []\<rparr>) = Some (g\<lparr>hq := snd hx\<rparr>)"
  using assms
proof (induction rule: spec_reach.induct)
  case reach_start
  show ?case by (rule exI [of _ "[]"]) simp
next
  case (reach_own hx g t a g')
  then obtain as where "hash_run_acts T n loops C as (g0\<lparr>hq := []\<rparr>) = Some (g\<lparr>hq := snd hx\<rparr>)" by blast
  moreover have "hash_step T n loops C (hash_act_of t a) (g\<lparr>hq := snd hx\<rparr>) = Some (g'\<lparr>hq := snd hx\<rparr>)"
    using hash_own_queue [of T g t loops C a g' n "snd hx"] reach_own.hyps by simp
  ultimately show ?case by (intro exI [of _ "as @ [hash_act_of t a]"]) (simp add: hash_run_append)
next
  case (reach_event hx g t c e hx')
  then obtain as where as: "hash_run_acts T n loops C as (g0\<lparr>hq := []\<rparr>) = Some (g\<lparr>hq := snd hx\<rparr>)" by blast
  obtain a where "hash_step T n loops C a (g\<lparr>hq := snd hx\<rparr>) = Some ((hash_resume C t e g)\<lparr>hq := snd hx'\<rparr>)"
    using hash_event_queue [of T g t c e n "fst hx" "snd hx" "fst hx'" "snd hx'" loops C] reach_event.hyps by auto
  with as show ?case by (intro exI [of _ "as @ [a]"]) (simp add: hash_run_append)
qed

section \<open>The report\<close>

text \<open>At the report no call is under way.\<close>

lemma caller_not_reporting:
  assumes call: "hash_call T g t = Some c" and ok: "shape_ok T P C ((hash_resume C t e g)\<lparr>hq := xs\<rparr>)"
  shows "hmain (hash_resume C t e g) \<noteq> HM_report"
proof
  assume report: "hmain (hash_resume C t e g) = HM_report"
  then have ne: "role_of t \<noteq> Main_role"
    using call by (auto simp: hash_call_def hash_resume_def split: if_splits)
  from report have "\<not> someone_busy (hash_resume C t e g)" using ok by (fastforce simp: shape_ok_def someone_busy_def)
  with caller_busy_after [OF call ne] show False by blast
qed

theorem hash_queue_report:
  fixes q :: "('d::zero, 'l::len) queue" and T :: "('w::len word, 'd) stress"
  assumes run: "program_run (hash_program T loops C) lp lo (initial q) (hash_start P) ms s g"
    and fr: "fresh_run lp lo n (initial q) (queue_labels ms) s" and q: "rep q n 0 0 0 []"
    and report: "hmain g = HM_report" and T: "orderly T C" and P: "P \<le> 256" and len: "LENGTH('w) \<le> 64"
  shows "\<exists>h xs. holds (mem s) n h xs \<and> (hash_same g \<longleftrightarrow> xs = [])"
proof -
  let ?K = "hash_program T loops C :: (bool, ('w word, 'd) hash_run, 'd, 'l word) queue_program"
  let ?resumed = "hash_prog.resumed T loops C :: (nat \<times> ('d, 'l word) event) list \<Rightarrow> ('w word, 'd) hash_run \<Rightarrow> ('w word, 'd) hash_run"
  obtain h xs ds where st: "sim n s h xs" "spec_reach ?K n (hash_start P) (h, xs) (?resumed ds g)" "hash_prog.due T loops C ds g"
    using hash_prog.client_refines [OF run fr q] by blast
  obtain as where "hash_run_acts T n loops C as ((hash_start P)\<lparr>hq := []\<rparr>) = Some ((?resumed ds g)\<lparr>hq := xs\<rparr>)"
    using hash_reach [OF st(2)] unfolding snd_conv by blast
  then have as: "hash_run_acts T n loops C as (hash_start P) = Some ((?resumed ds g)\<lparr>hq := xs\<rparr>)"
    by (simp add: hash_start_def)
  note ok = hash_run_ok [OF T P hash_start_ok as]
  note due = st(3)
  have main: "hmain (?resumed ds' g) = HM_report" if "hash_prog.due T loops C ds' g" for ds'
    using that
  proof (induction ds')
    case (Cons d ds')
    obtain t e where d: "d = (t, e)" by fastforce
    with Cons.prems obtain c where "call_of ?K g t = Some c" "hash_prog.due T loops C ds' g" by (auto simp: hash_prog.due_Cons)
    then have "role_of t \<noteq> Main_role" using report by (auto simp: hash_call_def)
    with Cons.IH [OF \<open>hash_prog.due T loops C ds' g\<close>] d hash_resume_frame(6) [of "?resumed ds' g" C t e] show ?case by simp
  qed (use report in simp)
  have "ds = []"
  proof (rule hash_prog.nothing_due [OF due, where P = "\<lambda>x. hmain x = HM_report \<and> shape_ok T P C (x\<lparr>hq := xs\<rparr>)"])
    show "hmain (?resumed ds g) = HM_report \<and> shape_ok T P C ((?resumed ds g)\<lparr>hq := xs\<rparr>)"
      using main [OF due] ok by (simp add: hash_ok_def)
  qed (auto dest: caller_not_reporting)
  with ok have ok: "hash_ok T loops P C (g\<lparr>hq := xs\<rparr>)" by simp
  have "hash_same (g\<lparr>hq := xs\<rparr>) \<longleftrightarrow> xs = []" using hash_report [OF ok _ len] report by simp
  then have "hash_same g \<longleftrightarrow> xs = []" by (simp add: hash_same_def)
  with rep_holds [OF sim_rep [OF st(1)]] show ?thesis by blast
qed

end
