(* ===== verification/HashIo.thy ===== *)
theory HashIo
  imports Clients HashRuns
begin

text \<open>
  The test \<^verbatim>\<open>HashInputOutput\<close> of \<open>HashRuns\<close> on the queue itself, as a program in the sense of \<open>Clients\<close>: thread 1
  is \<^verbatim>\<open>qwrite\<close>, thread 2 is \<^verbatim>\<open>qread\<close>, and their pushes and pops are executed by the atomic steps of the lock-free queue.
\<close>

section \<open>The program\<close>

definition io_call :: "u32 \<Rightarrow> hash_io \<Rightarrow> nat \<Rightarrow> (u64, 'i) op option" where
  "io_call loops g t =
     (if t = 1 \<and> io_pushing g then Some (Push (io_i g))
      else if t = 2 \<and> io_signing g = None \<and> io_pops g < loops then Some Pop
      else None)"

definition io_resume :: "nat \<Rightarrow> (u64, 'i) event \<Rightarrow> hash_io \<Rightarrow> hash_io" where
  "io_resume t e g =
     (if t = 1 then (if returned e then g\<lparr>io_pushing := False, io_i := io_i g + 1\<rparr> else g)
      else (case e of Popped i v \<Rightarrow> g\<lparr>io_signing := Some v\<rparr> | _ \<Rightarrow> g))"

definition io_own :: "u32 \<Rightarrow> nat \<Rightarrow> unit \<Rightarrow> hash_io \<Rightarrow> hash_io option" where
  "io_own loops t a g = (if t = 1 then qwrite_step 0 loops g else if t = 2 then qread_step loops g else None)"

definition io_program :: "u32 \<Rightarrow> (unit, hash_io, u64, 'i) queue_program" where
  "io_program loops = \<lparr>call_of = io_call loops, resume = io_resume, own_step = io_own loops, halted = (\<lambda>g. False)\<rparr>"

lemma io_program_fields [simp]:
  "call_of (io_program loops) = io_call loops" "resume (io_program loops) = io_resume"
  "own_step (io_program loops) = io_own loops" "halted (io_program loops) g = False"
  by (simp_all add: io_program_def)

text \<open>Both threads have returned.\<close>

definition io_joined :: "u32 \<Rightarrow> hash_io \<Rightarrow> bool" where
  "io_joined loops g \<longleftrightarrow> \<not> io_pushing g \<and> ucast loops \<le> io_i g \<and> io_signing g = None \<and> loops \<le> io_pops g"

section \<open>The threads do not look at each other\<close>

lemma io_call_cases:
  assumes "io_call loops g t = Some c"
  obtains (writer) "t = 1" and "io_pushing g" and "c = Push (io_i g)"
    | (reader) "t = 2" and "io_signing g = None" and "io_pops g < loops" and "c = Pop"
  using assms by (auto simp: io_call_def split: if_splits)

lemma io_answer_apart:
  assumes "u \<noteq> t" and "io_call loops g t = Some c" and "io_call loops g u = Some d"
  shows "io_call loops (io_resume t e g) u = Some d"
  using assms(2)
proof (cases rule: io_call_cases)
  case writer
  with assms(1,3) show ?thesis by (auto simp: io_call_def io_resume_def split: if_splits)
next
  case reader
  with assms(1,3) show ?thesis by (cases e) (auto simp: io_call_def io_resume_def split: if_splits)
qed

lemma io_answers_swap:
  assumes "u \<noteq> t" and "io_call loops g t = Some c" and "io_call loops g u = Some d"
  shows "io_resume u f (io_resume t e g) = io_resume t e (io_resume u f g)"
  using assms(2)
proof (cases rule: io_call_cases)
  case writer
  have "u = 2" using assms(3) writer assms(1) by (cases rule: io_call_cases) auto
  with writer show ?thesis by (cases f) (simp_all add: io_resume_def)
next
  case reader
  have "u = 1" using assms(3) reader assms(1) by (cases rule: io_call_cases) auto
  with reader show ?thesis by (cases e) (simp_all add: io_resume_def)
qed

lemma io_own_apart:
  assumes "u \<noteq> t" and "io_call loops g t = Some c" and "io_call loops g u = (None :: (u64, 'i) op option)"
    and "io_own loops u a g = Some g'"
  shows "io_call loops (io_resume t e g) u = (None :: (u64, 'i) op option) \<and>
    io_own loops u a (io_resume t (e :: (u64, 'i) event) g) = Some (io_resume t e g')"
  using assms(2)
proof (cases rule: io_call_cases)
  case writer
  then have "u = 2" using assms(1,4) by (auto simp: io_own_def split: if_splits)
  with writer assms(3,4) show ?thesis
    by (auto simp: io_call_def io_resume_def io_own_def qread_step_def split: if_splits option.splits)
next
  case reader
  then have "u = 1" using assms(1,4) by (auto simp: io_own_def split: if_splits)
  with reader assms(3,4) show ?thesis
    by (cases e) (auto simp: io_call_def io_resume_def io_own_def qwrite_step_def split: if_splits)
qed

interpretation io_prog: client "io_program loops :: (unit, hash_io, u64, 'l::len word) queue_program"
proof
  let ?K = "io_program loops :: (unit, hash_io, u64, 'l word) queue_program"
  fix u t :: nat and g g' :: hash_io and c d :: "(u64, 'l word) op" and e f :: "(u64, 'l word) event" and a :: unit
  show "call_of ?K (resume ?K t e g) u = Some d" if "u \<noteq> t" "call_of ?K g t = Some c" "call_of ?K g u = Some d"
    using io_answer_apart [of u t loops g c d e] that by simp
  show "halted ?K (resume ?K t e g) = halted ?K g" by simp
  show "resume ?K u f (resume ?K t e g) = resume ?K t e (resume ?K u f g)"
    if "u \<noteq> t" "call_of ?K g t = Some c" "call_of ?K g u = Some d"
    using io_answers_swap [of u t loops g c d f e] that by simp
  show "call_of ?K (resume ?K t e g) u = None \<and> own_step ?K u a (resume ?K t e g) = Some (resume ?K t e g')"
    if "u \<noteq> t" "call_of ?K g t = Some c" "call_of ?K g u = None" "own_step ?K u a g = Some g'"
    using io_own_apart [of u t loops g c a g' e] that by simp
  show "call_of ?K g' t = Some c" if "own_step ?K u a g = Some g'" "call_of ?K g t = Some c" "call_of ?K g u = None"
    using that by (auto simp: io_call_def io_own_def qwrite_step_def qread_step_def split: if_splits option.splits)
qed

section \<open>The signatures agree\<close>

lemma io_own_ok:
  assumes "io_ok loops (g\<lparr>io_q := xs\<rparr>)" and "io_call loops g t = (None :: (u64, 'i) op option)" and "io_own loops t a g = Some g'"
  shows "io_ok loops (g'\<lparr>io_q := xs\<rparr>)"
proof -
  have "qwrite_step 0 loops (g\<lparr>io_q := xs\<rparr>) = Some (g'\<lparr>io_q := xs\<rparr>) \<or> qread_step loops (g\<lparr>io_q := xs\<rparr>) = Some (g'\<lparr>io_q := xs\<rparr>)"
    using assms(2,3) by (auto simp: io_call_def io_own_def qwrite_step_def qread_step_def split: if_splits option.splits)
  then show ?thesis using qwrite_ok [OF assms(1)] qread_ok [OF assms(1)] by blast
qed

lemma io_event_ok:
  assumes ok: "io_ok loops (g\<lparr>io_q := xs\<rparr>)" and call: "io_call loops g t = Some c" and ans: "answers c (e :: (u64, 'l::len word) event)"
    and spec: "spec_step n (h, xs) e = Some (h', xs')"
  shows "io_ok loops ((io_resume t e g)\<lparr>io_q := xs'\<rparr>)"
  using call
proof (cases rule: io_call_cases)
  case writer
  then have "qwrite_step n loops (g\<lparr>io_q := xs\<rparr>) = Some ((io_resume t e g)\<lparr>io_q := xs'\<rparr>)"
    using ans spec by (cases e) (auto simp: qwrite_step_def io_resume_def q_push_def split: if_splits)
  then show ?thesis by (rule qwrite_ok [OF ok])
next
  case reader
  then have "qread_step loops (g\<lparr>io_q := xs\<rparr>) = Some ((io_resume t e g)\<lparr>io_q := xs'\<rparr>)"
    using ans spec by (cases e) (auto simp: qread_step_def io_resume_def split: if_splits list.split)
  then show ?thesis by (rule qread_ok [OF ok])
qed

lemma io_reach:
  assumes "spec_reach (io_program loops :: (unit, hash_io, u64, 'l::len word) queue_program) n io_start hx g"
  shows "io_ok loops (g\<lparr>io_q := snd hx\<rparr>)"
  using assms
proof (induction rule: spec_reach.induct)
  case reach_start
  have "io_start\<lparr>io_q := []\<rparr> = io_start" by (simp add: io_start_def)
  then show ?case using io_start_ok [of loops] by simp
next
  case (reach_own hx g t a g')
  then show ?case using io_own_ok [where loops = loops and g = g and xs = "snd hx" and t = t and a = a and g' = g'] by auto
next
  case (reach_event hx g t c e hx')
  then show ?case using io_event_ok [where loops = loops and g = g and xs = "snd hx" and n = n and h = "fst hx" and h' = "fst hx'" and xs' = "snd hx'"] by simp
qed

theorem io_queue_report:
  fixes q :: "(u64, 'l::len) queue"
  assumes run: "program_run (io_program loops) lp lo (initial q) io_start ms s g"
    and fr: "fresh_run lp lo n (initial q) (queue_labels ms) s" and q: "rep q n 0 0 0 []" and over: "io_joined loops g"
  shows "same_signature (h_in g) (h_out g) \<and> (\<exists>h. holds (mem s) n h [])"
proof -
  let ?K = "io_program loops :: (unit, hash_io, u64, 'l word) queue_program"
  have none: "call_of ?K g t = None" for t using over by (auto simp: io_joined_def io_call_def)
  obtain h xs where st: "holds (mem s) n h xs" "spec_reach ?K n io_start (h, xs) g"
    using io_prog.quiet_refines [OF run fr q none] by blast
  have "io_ok loops (g\<lparr>io_q := xs\<rparr>)" using io_reach [OF st(2)] by simp
  moreover have "qwrite_step n loops (g\<lparr>io_q := xs\<rparr>) = None" "qread_step loops (g\<lparr>io_q := xs\<rparr>) = None"
    using over by (auto simp: io_joined_def qwrite_step_def qread_step_def)
  ultimately have "same_signature (h_in g) (h_out g)" "xs = []" using io_agree [of loops "g\<lparr>io_q := xs\<rparr>" n] by simp_all
  with st(1) show ?thesis by blast
qed

end
