(* ===== verification/SumQueue.thy ===== *)
theory SumQueue
  imports Clients SumRuns
begin

text \<open>
  The example programs of \<open>SumRuns\<close> on the queue itself, as a program in the sense of \<open>Clients\<close>: their pushes and pops
  are executed by the atomic steps of the lock-free queue. The main thread only joins the others.
\<close>

section \<open>The program\<close>

definition sum_call :: "u32 \<Rightarrow> 'w sum_run \<Rightarrow> nat \<Rightarrow> (u32, 'i) op option" where
  "sum_call N g t =
     (case role_of t of
        Main_role \<Rightarrow> None
      | Producer_role p \<Rightarrow>
          if p < length (sum_producers g) \<and> sp_at (sum_producers g ! p) = SP_loop \<and> sp_x (sum_producers g ! p) < N
          then Some (Push (sp_x (sum_producers g ! p))) else None
      | Consumer_role c \<Rightarrow>
          if c < length (sum_consumers g) \<and> sc_at (sum_consumers g ! c) = SC_loop \<and> sc_x (sum_consumers g ! c) < N
          then Some Pop else None)"

definition sum_resume :: "nat \<Rightarrow> (u32, 'i) event \<Rightarrow> 'w sum_run \<Rightarrow> 'w sum_run" where
  "sum_resume t e g =
     (case role_of t of
        Main_role \<Rightarrow> g
      | Producer_role p \<Rightarrow>
          if returned e then g\<lparr>sum_producers := (sum_producers g)[p := (sum_producers g ! p)\<lparr>sp_at := SP_add\<rparr>]\<rparr> else g
      | Consumer_role c \<Rightarrow>
          (case e of Popped i v \<Rightarrow> g\<lparr>sum_consumers := (sum_consumers g)[c := (sum_consumers g ! c)\<lparr>sc_at := SC_add v\<rparr>]\<rparr> | _ \<Rightarrow> g))"

definition sum_own :: "bool \<Rightarrow> u32 \<Rightarrow> nat \<Rightarrow> unit \<Rightarrow> 'w::len word sum_run \<Rightarrow> 'w word sum_run option" where
  "sum_own direct N t a g =
     (case role_of t of
        Main_role \<Rightarrow> None
      | Producer_role p \<Rightarrow> sum_step direct 0 N (Sum_producer p) g
      | Consumer_role c \<Rightarrow> sum_step direct 0 N (Sum_consumer c) g)"

definition sum_program :: "bool \<Rightarrow> u32 \<Rightarrow> (unit, 'w::len word sum_run, u32, 'i) queue_program" where
  "sum_program direct N =
     \<lparr>call_of = sum_call N, resume = sum_resume, own_step = sum_own direct N, halted = (\<lambda>g. False)\<rparr>"

lemma sum_program_fields [simp]:
  "call_of (sum_program direct N) = sum_call N" "resume (sum_program direct N) = sum_resume"
  "own_step (sum_program direct N) = sum_own direct N" "halted (sum_program direct N) g = False"
  by (simp_all add: sum_program_def)

section \<open>The threads do not look at each other\<close>

lemma sum_call_cases:
  assumes "sum_call N g t = Some c"
  obtains (producer) p where "role_of t = Producer_role p" and "p < length (sum_producers g)"
      and "sp_at (sum_producers g ! p) = SP_loop" and "sp_x (sum_producers g ! p) < N" and "c = Push (sp_x (sum_producers g ! p))"
    | (consumer) j where "role_of t = Consumer_role j" and "j < length (sum_consumers g)"
      and "sc_at (sum_consumers g ! j) = SC_loop" and "sc_x (sum_consumers g ! j) < N" and "c = Pop"
  using assms by (auto simp: sum_call_def split: role.splits if_splits)

lemma sum_resume_nth [simp]:
  "role_of t \<noteq> Producer_role p \<Longrightarrow> sum_producers (sum_resume t e g) ! p = sum_producers g ! p"
  "role_of t \<noteq> Consumer_role j \<Longrightarrow> sum_consumers (sum_resume t e g) ! j = sum_consumers g ! j"
  "length (sum_producers (sum_resume t e g)) = length (sum_producers g)"
  "length (sum_consumers (sum_resume t e g)) = length (sum_consumers g)"
  by (auto simp: sum_resume_def split: role.split event.split)

lemma sum_call_resume:
  assumes "u \<noteq> t"
  shows "sum_call N (sum_resume t e g) u = sum_call N g u"
  using roles_differ [OF assms [symmetric]] by (cases "role_of u") (simp_all add: sum_call_def)

lemma sum_resume_resume:
  assumes "u \<noteq> t"
  shows "sum_resume u f (sum_resume t e g) = sum_resume t e (sum_resume u f g)"
  using roles_differ [OF assms] roles_differ [OF assms [symmetric]]
  by (cases "role_of u"; cases "role_of t") (auto simp: sum_resume_def list_update_swap split: event.split)

lemma sum_own_resume:
  assumes ne: "u \<noteq> t" and none: "sum_call N g u = (None :: (u32, 'i) op option)"
  shows "sum_own direct N u a (sum_resume t (e :: (u32, 'i) event) g) = map_option (sum_resume t e) (sum_own direct N u a g)"
proof (cases "role_of u")
  case Main_role
  then show ?thesis by (simp add: sum_own_def)
next
  case (Producer_role p)
  then have other: "role_of t \<noteq> Producer_role p" using roles_differ [OF ne] by auto
  with Producer_role none show ?thesis
    by (cases "sp_at (sum_producers g ! p)"; cases "role_of t")
      (auto simp: sum_own_def sum_step_def sum_producer_step_def sum_call_def sum_resume_def Let_def list_update_swap split: event.split)
next
  case (Consumer_role j)
  then have other: "role_of t \<noteq> Consumer_role j" using roles_differ [OF ne] by auto
  with Consumer_role none show ?thesis
    by (cases "sc_at (sum_consumers g ! j)"; cases "role_of t")
      (auto simp: sum_own_def sum_step_def sum_consumer_step_def sum_call_def sum_resume_def Let_def list_update_swap split: event.split)
qed

lemma sum_own_call:
  assumes own: "sum_own direct N u a g = Some g'" and ne: "u \<noteq> t" and none: "sum_call N g u = (None :: (u32, 'i) op option)"
  shows "sum_call N g' t = (sum_call N g t :: (u32, 'i) op option)"
proof (cases "role_of u")
  case Main_role
  with own show ?thesis by (simp add: sum_own_def)
next
  case (Producer_role p)
  with own none roles_differ [OF ne] show ?thesis
    by (cases "sp_at (sum_producers g ! p)"; cases "role_of t")
      (auto simp: sum_own_def sum_step_def sum_producer_step_def sum_call_def Let_def split: if_splits)
next
  case (Consumer_role j)
  with own none roles_differ [OF ne] show ?thesis
    by (cases "sc_at (sum_consumers g ! j)"; cases "role_of t")
      (auto simp: sum_own_def sum_step_def sum_consumer_step_def sum_call_def Let_def split: if_splits)
qed

interpretation sum_prog: client "sum_program direct N :: (unit, 'w::len word sum_run, u32, 'l::len word) queue_program"
proof
  let ?K = "sum_program direct N :: (unit, 'w word sum_run, u32, 'l word) queue_program"
  fix u t :: nat and g g' :: "'w word sum_run" and c d :: "(u32, 'l word) op" and e f :: "(u32, 'l word) event" and a :: unit
  show "call_of ?K (resume ?K t e g) u = Some d" if "u \<noteq> t" "call_of ?K g u = Some d"
    using that by (simp add: sum_call_resume)
  show "halted ?K (resume ?K t e g) = halted ?K g" by simp
  show "resume ?K u f (resume ?K t e g) = resume ?K t e (resume ?K u f g)" if "u \<noteq> t"
    using sum_resume_resume [OF that] by simp
  show "call_of ?K (resume ?K t e g) u = None \<and> own_step ?K u a (resume ?K t e g) = Some (resume ?K t e g')"
    if "u \<noteq> t" "call_of ?K g u = None" "own_step ?K u a g = Some g'"
    using sum_own_resume [of u t N g direct a e] that by (simp add: sum_call_resume)
  show "call_of ?K g' t = Some c" if "own_step ?K u a g = Some g'" "call_of ?K g t = Some c" "call_of ?K g u = None"
  proof -
    have "u \<noteq> t" using that(2,3) by auto
    from sum_own_call [OF that(1) [unfolded sum_program_fields] this that(3) [unfolded sum_program_fields]] that(2)
    show ?thesis by simp
  qed
qed

section \<open>On the abstract queue it is the model of SumRuns\<close>

lemma sum_own_queue:
  assumes "sum_call N g t = (None :: (u32, 'i) op option)" and "sum_own direct N t a g = Some g'"
  shows "\<exists>b. sum_step direct n N b (g\<lparr>sq := xs\<rparr>) = Some (g'\<lparr>sq := xs\<rparr>)"
proof (cases "role_of t")
  case Main_role
  with assms show ?thesis by (simp add: sum_own_def)
next
  case (Producer_role p)
  with assms show ?thesis
    by (intro exI [of _ "Sum_producer p"], cases "sp_at (sum_producers g ! p)")
      (auto simp: sum_own_def sum_step_def sum_producer_step_def sum_call_def Let_def split: if_splits)
next
  case (Consumer_role j)
  with assms show ?thesis
    by (intro exI [of _ "Sum_consumer j"], cases "sc_at (sum_consumers g ! j)")
      (auto simp: sum_own_def sum_step_def sum_consumer_step_def sum_call_def Let_def split: if_splits)
qed

lemma sum_event_queue:
  assumes call: "sum_call N g t = Some c" and ans: "answers c (e :: (u32, 'l::len word) event)"
    and spec: "spec_step n (h, xs) e = Some (h', xs')"
  shows "\<exists>b. sum_step direct n N b (g\<lparr>sq := xs\<rparr>) = Some ((sum_resume t e g)\<lparr>sq := xs'\<rparr>)"
  using call
proof (cases rule: sum_call_cases)
  case (producer p)
  with ans spec show ?thesis
    by (intro exI [of _ "Sum_producer p"], cases e)
      (auto simp: sum_step_def sum_producer_step_def sum_resume_def q_push_def Let_def split: if_splits)
next
  case (consumer j)
  with ans spec show ?thesis
    by (intro exI [of _ "Sum_consumer j"], cases e)
      (auto simp: sum_step_def sum_consumer_step_def sum_resume_def Let_def split: if_splits list.splits)
qed

lemma sum_acts_append:
  "sum_acts direct n N (as @ bs) s = Option.bind (sum_acts direct n N as s) (sum_acts direct n N bs)"
  by (induction as arbitrary: s) (auto split: bind_split)

lemma sum_reach:
  assumes "spec_reach (sum_program direct N :: (unit, 'w::len word sum_run, u32, 'l::len word) queue_program) n g0 hx g"
  shows "\<exists>as. sum_acts direct n N as (g0\<lparr>sq := []\<rparr>) = Some (g\<lparr>sq := snd hx\<rparr>)"
  using assms
proof (induction rule: spec_reach.induct)
  case reach_start
  show ?case by (rule exI [of _ "[]"]) simp
next
  case (reach_own hx g t a g')
  then obtain as where "sum_acts direct n N as (g0\<lparr>sq := []\<rparr>) = Some (g\<lparr>sq := snd hx\<rparr>)" by blast
  moreover obtain b where "sum_step direct n N b (g\<lparr>sq := snd hx\<rparr>) = Some (g'\<lparr>sq := snd hx\<rparr>)"
    using sum_own_queue [of N g t direct a g' n "snd hx"] reach_own.hyps by auto
  ultimately show ?case by (intro exI [of _ "as @ [b]"]) (simp add: sum_acts_append)
next
  case (reach_event hx g t c e hx')
  then obtain as where as: "sum_acts direct n N as (g0\<lparr>sq := []\<rparr>) = Some (g\<lparr>sq := snd hx\<rparr>)" by blast
  obtain b where "sum_step direct n N b (g\<lparr>sq := snd hx\<rparr>) = Some ((sum_resume t e g)\<lparr>sq := snd hx'\<rparr>)"
    using sum_event_queue [of N g t c e n "fst hx" "snd hx" "fst hx'" "snd hx'" direct] reach_event.hyps by auto
  with as show ?case by (intro exI [of _ "as @ [b]"]) (simp add: sum_acts_append)
qed

text \<open>Once joined, no thread is in a call.\<close>

lemma joined_no_call:
  assumes "joined g"
  shows "sum_call N g t = (None :: (u32, 'i) op option)"
proof (rule ccontr)
  assume "sum_call N g t \<noteq> (None :: (u32, 'i) op option)"
  then obtain c :: "(u32, 'i) op" where "sum_call N g t = Some c" by auto
  then show False
  proof (cases rule: sum_call_cases)
    case (producer p)
    with assms nth_mem [of p "sum_producers g"] show False by (simp add: joined_def)
  next
    case (consumer j)
    with assms nth_mem [of j "sum_consumers g"] show False by (simp add: joined_def)
  qed
qed

theorem sum_queue_report:
  fixes q :: "(u32, 'l::len) queue" and g :: "'w::len word sum_run"
  assumes run: "program_run (sum_program direct N) lp lo (initial q) (sum_start P) ms s g"
    and fr: "fresh_run lp lo n (initial q) (queue_labels ms) s" and q: "rep q n 0 0 0 []" and over: "joined g"
  shows "\<exists>h. holds (mem s) n h [] \<and> sr_cons_sum g = sr_prod_sum g \<and> sr_prod_sum g = of_nat (P * (unat N * (unat N - 1) div 2))"
proof -
  let ?K = "sum_program direct N :: (unit, 'w word sum_run, u32, 'l word) queue_program"
  have none: "call_of ?K g t = None" for t using joined_no_call [OF over] by simp
  obtain h xs where st: "holds (mem s) n h xs" "spec_reach ?K n (sum_start P) (h, xs) g"
    using sum_prog.quiet_refines [OF run fr q none] by blast
  obtain as where "sum_acts direct n N as ((sum_start P)\<lparr>sq := []\<rparr>) = Some (g\<lparr>sq := xs\<rparr>)"
    using sum_reach [OF st(2)] unfolding snd_conv by blast
  then have "sum_acts direct n N as (sum_start P) = Some (g\<lparr>sq := xs\<rparr>)" by (simp add: sum_start_def)
  from sum_joined [OF sum_acts_ok [OF sum_start_ok this]] over
  have "xs = []" "sr_cons_sum g = sr_prod_sum g" "sr_prod_sum g = of_nat (P * (unat N * (unat N - 1) div 2))"
    by (simp_all add: joined_def)
  with st(1) show ?thesis by blast
qed

end
