(* ===== verification/TimingQueue.thy ===== *)
theory TimingQueue
  imports Clients Timing
begin

text \<open>
  \<^verbatim>\<open>QTiming::run\<close> on the queue itself, as a program in the sense of \<open>Clients\<close>: the rounds of the main thread, and then
  the writer and the reader of \<open>Timing\<close>, with their pushes and pops executed by the atomic steps of the lock-free queue.
  What a step reads from the time stamp counter is chosen freely among the values that satisfy \<open>timer\<close>.
\<close>

section \<open>The program\<close>

text \<open>
  \<open>T_round l\<close> is the test of the outer loop, \<open>T_push l i\<close> and \<open>T_pop l i\<close> are the inner loops of round \<open>l\<close>; from
  \<open>T_join\<close> on the threads run. \<open>faulted\<close> records a step that leaves the array or reads an unwritten slot.
\<close>

datatype timed_pc = T_round u32 | T_push u32 u32 | T_pop u32 u32 | T_join

record timed =
  main_at :: timed_pc
  main_d :: u64
  both :: timing
  faulted :: bool

definition timed_start :: "u32 \<Rightarrow> timed" where
  "timed_start depth = \<lparr>main_at = T_round 0, main_d = 17, both = timing_start depth, faulted = False\<rparr>"

definition timed_call :: "u32 \<Rightarrow> timed \<Rightarrow> nat \<Rightarrow> (u64, 'i) op option" where
  "timed_call depth g t =
     (case role_of t of
        Main_role \<Rightarrow>
          (case main_at g of
             T_push l i \<Rightarrow> if i < depth then Some (Push (main_d g)) else None
           | T_pop l i \<Rightarrow> if i < depth then Some Pop else None
           | _ \<Rightarrow> None)
      | Producer_role p \<Rightarrow>
          if main_at g = T_join \<and> p = 0 then
            (case writer_pc (both g) of W_push d \<Rightarrow> Some (Push d) | W_zero \<Rightarrow> Some (Push 0) | _ \<Rightarrow> None)
          else None
      | Consumer_role c \<Rightarrow> if main_at g = T_join \<and> c = 0 \<and> reader_pc (both g) = R_pop then Some Pop else None)"

text \<open>The main thread does not look at the answers, but a pop may change its variable \<^verbatim>\<open>d\<close>.\<close>

definition main_turn :: "(u64, 'i) event \<Rightarrow> timed \<Rightarrow> timed" where
  "main_turn e g =
     (case main_at g of
        T_push l i \<Rightarrow> g\<lparr>main_at := T_push l (i + 1)\<rparr>
      | T_pop l i \<Rightarrow> g\<lparr>main_at := T_pop l (i + 1), main_d := (case e of Popped j v \<Rightarrow> v | _ \<Rightarrow> main_d g)\<rparr>
      | _ \<Rightarrow> g)"

definition written :: "bool \<Rightarrow> timing \<Rightarrow> timing" where
  "written ok s =
     (case writer_pc s of
        W_push d \<Rightarrow> if ok then s\<lparr>writer_i := writer_i s + 1, writer_pc := W_stamp\<rparr> else s\<lparr>writer_pc := W_stamp\<rparr>
      | _ \<Rightarrow> if ok then s\<lparr>writer_pc := W_done\<rparr> else s)"

definition read_back :: "(u64, 'i) event \<Rightarrow> timing \<Rightarrow> timing" where
  "read_back e s = (case e of Popped i v \<Rightarrow> s\<lparr>stsc := v, reader_pc := R_tsc\<rparr> | _ \<Rightarrow> s\<lparr>reader_pc := R_test\<rparr>)"

definition timed_resume :: "nat \<Rightarrow> (u64, 'i) event \<Rightarrow> timed \<Rightarrow> timed" where
  "timed_resume t e g =
     (case role_of t of
        Main_role \<Rightarrow> main_turn e g
      | Producer_role p \<Rightarrow> g\<lparr>both := written (returned e) (both g)\<rparr>
      | Consumer_role c \<Rightarrow> g\<lparr>both := read_back e (both g)\<rparr>)"

definition took :: "timing move \<Rightarrow> timed \<Rightarrow> timed option" where
  "took m g = (case m of Stuck \<Rightarrow> None | Fault \<Rightarrow> Some (g\<lparr>faulted := True\<rparr>) | Moved s \<Rightarrow> Some (g\<lparr>both := s\<rparr>))"

definition timed_own :: "(u64 \<Rightarrow> bool) \<Rightarrow> u32 \<Rightarrow> nat \<Rightarrow> u64 \<Rightarrow> timed \<Rightarrow> timed option" where
  "timed_own timer depth t tsc g =
     (case role_of t of
        Main_role \<Rightarrow>
          (case main_at g of
             T_round l \<Rightarrow> Some (g\<lparr>main_at := if l < 4 then T_push l 0 else T_join\<rparr>)
           | T_push l i \<Rightarrow> Some (g\<lparr>main_at := T_pop l 0\<rparr>)
           | T_pop l i \<Rightarrow> Some (g\<lparr>main_at := T_round (l + 1)\<rparr>)
           | T_join \<Rightarrow> None)
      | Producer_role p \<Rightarrow> if main_at g = T_join \<and> p = 0 \<and> timer tsc then took (writer_step 0 depth tsc (both g)) g else None
      | Consumer_role c \<Rightarrow> if main_at g = T_join \<and> c = 0 \<and> timer tsc then took (reader_step depth tsc (both g)) g else None)"

definition timed_program :: "(u64 \<Rightarrow> bool) \<Rightarrow> u32 \<Rightarrow> (u64, timed, u64, 'i) queue_program" where
  "timed_program timer depth =
     \<lparr>call_of = timed_call depth, resume = timed_resume, own_step = timed_own timer depth, halted = (\<lambda>g. False)\<rparr>"

lemma timed_program_fields [simp]:
  "call_of (timed_program timer depth) = timed_call depth" "resume (timed_program timer depth) = timed_resume"
  "own_step (timed_program timer depth) = timed_own timer depth" "halted (timed_program timer depth) g = False"
  by (simp_all add: timed_program_def)

section \<open>The threads do not look at each other\<close>

lemma timed_call_cases:
  assumes "timed_call depth g t = Some c"
  obtains (push) l i where "role_of t = Main_role" and "main_at g = T_push l i" and "i < depth" and "c = Push (main_d g)"
    | (pop) l i where "role_of t = Main_role" and "main_at g = T_pop l i" and "i < depth" and "c = Pop"
    | (stamp) d where "role_of t = Producer_role 0" and "main_at g = T_join" and "writer_pc (both g) = W_push d" and "c = Push d"
    | (zero) "role_of t = Producer_role 0" and "main_at g = T_join" and "writer_pc (both g) = W_zero" and "c = Push 0"
    | (read) "role_of t = Consumer_role 0" and "main_at g = T_join" and "reader_pc (both g) = R_pop" and "c = Pop"
  using assms by (auto simp: timed_call_def split: role.splits timed_pc.splits if_splits qw_pc.splits)

text \<open>A writer and a reader that return work on different fields.\<close>

lemma written_fields [simp]:
  "reader_pc (written ok s) = reader_pc s" "stsc (written ok s) = stsc s" "diffs (written ok s) = diffs s" "tn (written ok s) = tn s"
  by (simp_all add: written_def split: qw_pc.split)

lemma read_back_fields [simp]: "writer_pc (read_back e s) = writer_pc s" "writer_i (read_back e s) = writer_i s"
  by (simp_all add: read_back_def split: event.split)

lemma read_written: "read_back e (written ok s) = written ok (read_back e s)"
  by (cases "writer_pc s"; cases e) (simp_all add: read_back_def written_def)

lemma resume_join:
  assumes "main_at g = T_join"
  shows "main_at (timed_resume t e g) = T_join" and "faulted (timed_resume t e g) = faulted g"
  using assms by (simp_all add: timed_resume_def main_turn_def split: role.split)

lemma reader_written:
  "reader_pc s \<noteq> R_pop \<Longrightarrow>
   reader_step depth tsc (written ok s) =
     (case reader_step depth tsc s of Stuck \<Rightarrow> Stuck | Fault \<Rightarrow> Fault | Moved s' \<Rightarrow> Moved (written ok s'))"
  by (cases "reader_pc s"; cases "writer_pc s") (auto simp: reader_step_def written_def)

lemma writer_read:
  "writer_pc s \<in> {W_stamp, W_done} \<Longrightarrow>
   writer_step n depth tsc (read_back e s) =
     (case writer_step n depth tsc s of Stuck \<Rightarrow> Stuck | Fault \<Rightarrow> Fault | Moved s' \<Rightarrow> Moved (read_back e s'))"
  by (cases e) (auto simp: writer_step_def read_back_def)

lemma timed_call_resume:
  assumes "u \<noteq> t" and "timed_call depth g t = Some c" and "timed_call depth g u = Some d"
  shows "timed_call depth (timed_resume t e g) u = Some d"
  using assms(2)
proof (cases rule: timed_call_cases)
  case stamp
  with assms(3) roles_differ [OF assms(1)] show ?thesis
    by (cases rule: timed_call_cases) (auto simp: timed_call_def timed_resume_def)
next
  case zero
  with assms(3) roles_differ [OF assms(1)] show ?thesis
    by (cases rule: timed_call_cases) (auto simp: timed_call_def timed_resume_def)
next
  case read
  with assms(3) roles_differ [OF assms(1)] show ?thesis
    by (cases rule: timed_call_cases) (auto simp: timed_call_def timed_resume_def)
qed (use assms(3) roles_differ [OF assms(1)] in \<open>auto elim!: timed_call_cases\<close>)

lemma timed_resume_resume:
  assumes "u \<noteq> t" and "timed_call depth g t = Some c" and "timed_call depth g u = Some d"
  shows "timed_resume u f (timed_resume t e g) = timed_resume t e (timed_resume u f g)"
  using assms(2)
proof (cases rule: timed_call_cases)
  case read
  with assms(3) roles_differ [OF assms(1)] show ?thesis
    by (cases rule: timed_call_cases) (auto simp: timed_resume_def read_written)
next
  case stamp
  with assms(3) roles_differ [OF assms(1)] show ?thesis
    by (cases rule: timed_call_cases) (auto simp: timed_resume_def read_written)
next
  case zero
  with assms(3) roles_differ [OF assms(1)] show ?thesis
    by (cases rule: timed_call_cases) (auto simp: timed_resume_def read_written)
qed (use assms(3) roles_differ [OF assms(1)] in \<open>auto elim!: timed_call_cases\<close>)

lemma timed_own_resume:
  assumes "u \<noteq> t" and "timed_call depth g t = Some c" and "timed_call depth g u = (None :: (u64, 'i) op option)"
    and "timed_own timer depth u a g = Some g'"
  shows "timed_call depth (timed_resume t e g) u = (None :: (u64, 'i) op option) \<and>
    timed_own timer depth u a (timed_resume t (e :: (u64, 'i) event) g) = Some (timed_resume t e g')"
proof (cases "main_at g = T_join")
  case False
  have "role_of t = Main_role" using assms(2) False by (cases rule: timed_call_cases) auto
  then have "role_of u \<noteq> Main_role" using roles_differ [OF assms(1)] by simp
  with False assms(4) show ?thesis by (cases "role_of u") (auto simp: timed_own_def)
next
  case True
  note frame = resume_join [OF True, of t e]
  show ?thesis
  proof (cases "role_of u")
    case Main_role
    with True assms(4) show ?thesis by (simp add: timed_own_def)
  next
    case (Producer_role p)
    then have u: "p = 0" "timer a" "took (writer_step 0 depth a (both g)) g = Some g'" "writer_pc (both g) \<in> {W_stamp, W_done}"
      using True assms(3,4) by (auto simp: timed_own_def timed_call_def split: if_splits qw_pc.splits)
    have t: "role_of t = Consumer_role 0"
      using assms(2) True Producer_role u(1) roles_differ [OF assms(1)] by (cases rule: timed_call_cases) auto
    have "both (timed_resume t e g) = read_back e (both g)" using t by (simp add: timed_resume_def)
    with writer_read [OF u(4), of 0 depth a e] u(1-3) t True Producer_role frame assms(3) show ?thesis
      by (auto simp: timed_own_def timed_call_def took_def timed_resume_def split: move.splits)
  next
    case (Consumer_role j)
    then have u: "j = 0" "timer a" "took (reader_step depth a (both g)) g = Some g'" "reader_pc (both g) \<noteq> R_pop"
      using True assms(3,4) by (auto simp: timed_own_def timed_call_def split: if_splits)
    have t: "role_of t = Producer_role 0"
      using assms(2) True Consumer_role u(1) roles_differ [OF assms(1)] by (cases rule: timed_call_cases) auto
    have "both (timed_resume t e g) = written (returned e) (both g)" using t by (simp add: timed_resume_def)
    with reader_written [OF u(4), of depth a "returned e"] u(1-3) t True Consumer_role frame u(4) show ?thesis
      by (auto simp: timed_own_def timed_call_def took_def timed_resume_def split: move.splits)
  qed
qed

lemma writer_own_fields:
  assumes "writer_step 0 depth a s = Moved s'" and "writer_pc s \<in> {W_stamp, W_done}"
  shows "reader_pc s' = reader_pc s" and "tq s' = tq s"
  using assms by (auto simp: writer_step_def)

lemma reader_own_fields:
  assumes "reader_step depth a s = Moved s'" and "reader_pc s \<noteq> R_pop"
  shows "writer_pc s' = writer_pc s" and "tq s' = tq s"
  using assms by (auto simp: reader_step_def split: qr_pc.splits if_splits)

lemma timed_own_call:
  assumes "timed_own timer depth u a g = Some g'" and "timed_call depth g t = Some c"
    and "timed_call depth g u = (None :: (u64, 'i) op option)"
  shows "timed_call depth g' t = Some (c :: (u64, 'i) op)"
proof -
  have ne: "u \<noteq> t" using assms(2,3) by auto
  show ?thesis
  proof (cases "role_of u")
    case Main_role
    with assms(1) have j: "main_at g \<noteq> T_join" by (auto simp: timed_own_def)
    have "role_of t = Main_role" using assms(2) j by (cases rule: timed_call_cases) auto
    with Main_role roles_differ [OF ne] show ?thesis by simp
  next
    case (Producer_role p)
    then have u: "main_at g = T_join" "p = 0" "took (writer_step 0 depth a (both g)) g = Some g'" "writer_pc (both g) \<in> {W_stamp, W_done}"
      using assms(1,3) by (auto simp: timed_own_def timed_call_def split: if_splits qw_pc.splits)
    have t: "role_of t = Consumer_role 0" "reader_pc (both g) = R_pop" "c = Pop"
      using assms(2) u(1,2) Producer_role roles_differ [OF ne] by (cases rule: timed_call_cases; auto)+
    with u writer_own_fields(1) [OF _ u(4), of depth a] show ?thesis
      by (auto simp: timed_call_def took_def split: move.splits)
  next
    case (Consumer_role j)
    then have u: "main_at g = T_join" "j = 0" "took (reader_step depth a (both g)) g = Some g'" "reader_pc (both g) \<noteq> R_pop"
      using assms(1,3) by (auto simp: timed_own_def timed_call_def split: if_splits)
    have t: "role_of t = Producer_role 0"
      using assms(2) u(1,2) Consumer_role roles_differ [OF ne] by (cases rule: timed_call_cases) auto
    with u assms(2) reader_own_fields(1) [OF _ u(4), of depth a] show ?thesis
      by (auto simp: timed_call_def took_def split: move.splits)
  qed
qed

interpretation timed_prog: client "timed_program timer depth :: (u64, timed, u64, 'l::len word) queue_program"
proof
  let ?K = "timed_program timer depth :: (u64, timed, u64, 'l word) queue_program"
  fix u t :: nat and g g' :: timed and c d :: "(u64, 'l word) op" and e f :: "(u64, 'l word) event" and a :: u64
  show "call_of ?K (resume ?K t e g) u = Some d" if "u \<noteq> t" "call_of ?K g t = Some c" "call_of ?K g u = Some d"
    using that by (simp add: timed_call_resume)
  show "halted ?K (resume ?K t e g) = halted ?K g" by simp
  show "resume ?K u f (resume ?K t e g) = resume ?K t e (resume ?K u f g)"
    if "u \<noteq> t" "call_of ?K g t = Some c" "call_of ?K g u = Some d"
    using timed_resume_resume [of u t depth g c d f e] that by simp
  show "call_of ?K (resume ?K t e g) u = None \<and> own_step ?K u a (resume ?K t e g) = Some (resume ?K t e g')"
    if "u \<noteq> t" "call_of ?K g t = Some c" "call_of ?K g u = None" "own_step ?K u a g = Some g'"
    using timed_own_resume [of u t depth g c timer a g' e] that by simp
  show "call_of ?K g' t = Some c" if "own_step ?K u a g = Some g'" "call_of ?K g t = Some c" "call_of ?K g u = None"
    using timed_own_call [of timer depth u a g g' t c] that by simp
qed

section \<open>What the abstract queue holds\<close>

text \<open>In the rounds the queue holds copies of 17; afterwards it is the queue of \<open>Timing\<close>.\<close>

definition timed_ok :: "nat \<Rightarrow> u32 \<Rightarrow> u64 list \<Rightarrow> timed \<Rightarrow> bool" where
  "timed_ok n depth xs g \<longleftrightarrow>
     \<not> faulted g \<and>
     (main_at g \<noteq> T_join \<longrightarrow> main_d g = 17 \<and> both g = timing_start depth) \<and>
     (case main_at g of
        T_round l \<Rightarrow> xs = []
      | T_push l i \<Rightarrow> i \<le> depth \<and> xs = replicate (min n (unat i)) 17
      | T_pop l i \<Rightarrow> i \<le> depth \<and> xs = replicate (min n (unat depth) - unat i) 17
      | T_join \<Rightarrow> timing_ok depth ((both g)\<lparr>tq := xs\<rparr>))"

lemma timed_start_ok: "timed_ok n depth [] (timed_start depth)"
  by (simp add: timed_ok_def timed_start_def)

lemma start_queue [simp]: "(timing_start depth)\<lparr>tq := []\<rparr> = timing_start depth"
  by (simp add: timing_start_def)

lemma writer_own_queue:
  "writer_pc s \<in> {W_stamp, W_done} \<Longrightarrow>
   writer_step n depth a (s\<lparr>tq := xs\<rparr>) =
     (case writer_step 0 depth a s of Stuck \<Rightarrow> Stuck | Fault \<Rightarrow> Fault | Moved s' \<Rightarrow> Moved (s'\<lparr>tq := xs\<rparr>))"
  by (auto simp: writer_step_def)

lemma reader_own_queue:
  "reader_pc s \<noteq> R_pop \<Longrightarrow>
   reader_step depth a (s\<lparr>tq := xs\<rparr>) =
     (case reader_step depth a s of Stuck \<Rightarrow> Stuck | Fault \<Rightarrow> Fault | Moved s' \<Rightarrow> Moved (s'\<lparr>tq := xs\<rparr>))"
  by (cases "reader_pc s") (auto simp: reader_step_def)

lemma timed_own_ok:
  assumes ok: "timed_ok n depth xs g" and own: "timed_own timer depth t a g = Some g'"
    and none: "timed_call depth g t = (None :: (u64, 'i) op option)" and depth: "depth \<noteq> - 1" and timer: "\<not> timer 0"
  shows "timed_ok n depth xs g'"
proof (cases "main_at g = T_join")
  case False
  with own have t: "role_of t = Main_role" by (auto simp: timed_own_def split: role.splits)
  with False ok own none timing_start_ok [OF depth] show ?thesis
    by (auto simp: timed_own_def timed_call_def timed_ok_def split: timed_pc.splits if_splits)
next
  case True
  then have good: "timing_ok depth ((both g)\<lparr>tq := xs\<rparr>)" "\<not> faulted g" using ok by (simp_all add: timed_ok_def)
  show ?thesis
  proof (cases "role_of t")
    case Main_role
    with True own show ?thesis by (simp add: timed_own_def)
  next
    case (Producer_role p)
    then have u: "timer a" "took (writer_step 0 depth a (both g)) g = Some g'" "writer_pc (both g) \<in> {W_stamp, W_done}"
      using True own none by (auto simp: timed_own_def timed_call_def split: if_splits qw_pc.splits)
    then have "a \<noteq> 0" using timer by metis
    with writer_ok [OF good(1) refl, of a n] writer_own_queue [OF u(3), of n depth a xs] u(2) True good(2) show ?thesis
      by (auto simp: timed_ok_def took_def split: move.splits)
  next
    case (Consumer_role j)
    then have u: "took (reader_step depth a (both g)) g = Some g'" "reader_pc (both g) \<noteq> R_pop"
      using True own none by (auto simp: timed_own_def timed_call_def split: if_splits)
    with reader_ok [OF good(1) refl depth, of a] reader_own_queue [OF u(2), of depth a xs] True good(2) show ?thesis
      by (auto simp: timed_ok_def took_def split: move.splits)
  qed
qed

lemma timed_event_ok:
  assumes ok: "timed_ok n depth xs g" and call: "timed_call depth g t = Some c" and ans: "answers c (e :: (u64, 'l::len word) event)"
    and spec: "spec_step n (h, xs) e = Some (h', xs')" and depth: "depth \<noteq> - 1"
  shows "timed_ok n depth xs' (timed_resume t e g)"
  using call
proof (cases rule: timed_call_cases)
  case (push l i)
  then have i: "Suc (unat i) \<le> unat depth" by (simp add: word_less_nat_alt)
  note inc = word_increment [OF i unat_bound]
  have xs: "xs = replicate (min n (unat i)) 17" "main_d g = 17" using ok push by (simp_all add: timed_ok_def)
  have "xs' = replicate (min n (Suc (unat i))) 17"
    using push(4) ans spec xs
    by (cases e) (auto simp: replicate_append_same min_def not_le less_Suc_eq_le simp flip: replicate_Suc split: if_splits)
  with push ok i inc show ?thesis
    by (simp add: timed_ok_def timed_resume_def main_turn_def word_le_nat_alt)
next
  case (pop l i)
  then have i: "Suc (unat i) \<le> unat depth" by (simp add: word_less_nat_alt)
  note inc = word_increment [OF i unat_bound]
  let ?k = "min n (unat depth) - unat i"
  have xs: "xs = replicate ?k 17" "main_d g = 17" using ok pop by (simp_all add: timed_ok_def)
  have "xs' = replicate (?k - 1) 17" "(case e of Popped j v \<Rightarrow> v | _ \<Rightarrow> main_d g) = 17"
    using pop(4) ans spec xs by (cases e; cases ?k; auto split: if_splits)+
  with pop ok i inc show ?thesis
    by (simp add: timed_ok_def timed_resume_def main_turn_def word_le_nat_alt)
next
  case (stamp d)
  then have good: "timing_ok depth ((both g)\<lparr>tq := xs\<rparr>)" "\<not> faulted g" using ok by (simp_all add: timed_ok_def)
  have "writer_step n depth 1 ((both g)\<lparr>tq := xs\<rparr>) = Moved ((written (returned e) (both g))\<lparr>tq := xs'\<rparr>)"
    using stamp ans spec by (cases e) (auto simp: writer_step_def written_def q_push_def split: if_splits)
  with writer_ok [OF good(1), of n 1] stamp good(2) show ?thesis by (simp add: timed_ok_def timed_resume_def)
next
  case zero
  then have good: "timing_ok depth ((both g)\<lparr>tq := xs\<rparr>)" "\<not> faulted g" using ok by (simp_all add: timed_ok_def)
  have "writer_step n depth 1 ((both g)\<lparr>tq := xs\<rparr>) = Moved ((written (returned e) (both g))\<lparr>tq := xs'\<rparr>)"
    using zero ans spec by (cases e) (auto simp: writer_step_def written_def q_push_def split: if_splits)
  with writer_ok [OF good(1), of n 1] zero good(2) show ?thesis by (simp add: timed_ok_def timed_resume_def)
next
  case read
  then have good: "timing_ok depth ((both g)\<lparr>tq := xs\<rparr>)" "\<not> faulted g" using ok by (simp_all add: timed_ok_def)
  have "reader_step depth 1 ((both g)\<lparr>tq := xs\<rparr>) = Moved ((read_back e (both g))\<lparr>tq := xs'\<rparr>)"
    using read ans spec by (cases e) (auto simp: reader_step_def read_back_def split: if_splits list.splits)
  with reader_ok [OF good(1) _ depth, of 1] read good(2) show ?thesis by (simp add: timed_ok_def timed_resume_def)
qed

lemma timed_reach:
  assumes "spec_reach (timed_program timer depth :: (u64, timed, u64, 'l::len word) queue_program) n (timed_start depth) hx g"
    and "depth \<noteq> - 1" and "\<not> timer 0"
  shows "timed_ok n depth (snd hx) g"
  using assms(1)
proof (induction rule: spec_reach.induct)
  case reach_start
  show ?case by (simp add: timed_start_ok)
next
  case (reach_own hx g t a g')
  then show ?case using timed_own_ok [of n depth "snd hx" g timer t a g', OF _ _ _ assms(2,3)] by auto
next
  case (reach_event hx g t c e hx')
  then show ?case using timed_event_ok [of n depth "snd hx" g t c e "fst hx" "fst hx'" "snd hx'", OF _ _ _ _ assms(2)] by simp
qed

section \<open>The report\<close>

text \<open>The calls that are due leave what a reader that is done has recorded.\<close>

lemma resume_faulted: "faulted (timed_resume t e g) = faulted g"
  by (simp add: timed_resume_def main_turn_def split: role.split timed_pc.split)

lemma resumed_faulted: "faulted (timed_prog.resumed timer depth ds g) = faulted g"
  by (induction ds) (auto simp: resume_faulted)

lemma resumed_reader:
  fixes ds :: "(nat \<times> (u64, 'l::len word) event) list"
  assumes "timed_prog.due timer depth ds g" and "reader_pc (both g) = R_done" and "main_at g = T_join"
  shows "main_at (timed_prog.resumed timer depth ds g) = T_join \<and> reader_pc (both (timed_prog.resumed timer depth ds g)) = R_done \<and>
    diffs (both (timed_prog.resumed timer depth ds g)) = diffs (both g)"
  using assms(1)
proof (induction ds)
  case (Cons d ds)
  obtain t e where d: "d = (t, e)" by fastforce
  with Cons.prems obtain c :: "(u64, 'l word) op" where c: "timed_call depth g t = Some c" "timed_prog.due timer depth ds g"
    by (auto simp: timed_prog.due_Cons)
  have "role_of t = Producer_role 0" using c(1) assms(2,3) by (cases rule: timed_call_cases) auto
  with Cons.IH [OF c(2)] d show ?case by (simp add: timed_resume_def)
qed (use assms(2,3) in simp)

theorem timed_report:
  fixes q :: "(u64, 'l::len) queue"
  assumes run: "program_run (timed_program timer depth) lp lo (initial q) (timed_start depth) ms s g"
    and fr: "fresh_run lp lo n (initial q) (queue_labels ms) s" and q: "rep q n 0 0 0 []"
    and depth: "depth \<noteq> - 1" and timer: "\<not> timer 0"
  shows "\<not> faulted g \<and> (main_at g = T_join \<and> reader_pc (both g) = R_done \<longrightarrow>
    (\<forall>i \<le> unat depth. diffs (both g) ! i \<noteq> None) \<and> (writer_pc (both g) = W_done \<longrightarrow> (\<exists>h. holds (mem s) n h [])))"
proof -
  let ?K = "timed_program timer depth :: (u64, timed, u64, 'l word) queue_program"
  obtain h xs and ds :: "(nat \<times> (u64, 'l word) event) list" where st: "sim n s h xs"
      "spec_reach ?K n (timed_start depth) (h, xs) (timed_prog.resumed timer depth ds g)" "timed_prog.due timer depth ds g"
    using timed_prog.client_refines [OF run fr q] by blast
  let ?g = "timed_prog.resumed timer depth ds g"
  have ok: "timed_ok n depth xs ?g" using timed_reach [where timer = timer, OF st(2) depth timer] by simp
  have "\<not> faulted g" using ok resumed_faulted [of timer depth ds g] by (simp add: timed_ok_def)
  moreover have "(\<forall>i \<le> unat depth. diffs (both g) ! i \<noteq> None) \<and> (writer_pc (both g) = W_done \<longrightarrow> (\<exists>h. holds (mem s) n h []))"
    if at: "main_at g = T_join" "reader_pc (both g) = R_done"
  proof -
    note r = resumed_reader [OF st(3) at(2,1)]
    have "timing_ok depth ((both ?g)\<lparr>tq := xs\<rparr>)" using ok r by (simp add: timed_ok_def)
    from timing_report [OF this] r have t: "xs = []" "\<forall>i \<le> unat depth. diffs (both g) ! i \<noteq> None" by simp_all
    have "holds (mem s) n h []" using rep_holds [OF sim_rep [OF st(1)]] t(1) by simp
    with t(2) show ?thesis by blast
  qed
  ultimately show ?thesis by blast
qed

end
