(* ===== verification/MpmcDump.thy ===== *)
theory MpmcDump
  imports MpmcObserve
begin

text \<open>
  \<^verbatim>\<open>dump_state\<close> of \<^verbatim>\<open>mpmc_queue.h\<close>: the numbers that it computes and prints about a queue, as a record; only
  the text around them is left out, and the sizes of the C++ objects. A queue whose array is null has no dump.
\<close>

section \<open>The code\<close>

text \<open>\<^verbatim>\<open>for (unsigned i = 0; i < _array.size(); ++i)\<close> over the entries: the counter has 32 bits.\<close>

definition for_entries_body ::
  "(u32 \<Rightarrow> ('v, 'l::len) entry \<Rightarrow> 'a \<Rightarrow> 'a) \<Rightarrow> ('v, 'l) queue \<Rightarrow> u32 \<times> 'a \<Rightarrow> ('a, u32 \<times> 'a) turn option" where
  "for_entries_body f q s =
     (let (i, acc) = s
      in if (ucast i :: size_t) < capacity q
         then (case arr_at (ring q) (ucast i) of None \<Rightarrow> None | Some e \<Rightarrow> Some (Loop (i + 1, f i e acc)))
         else Some (Return acc))"

definition for_entries :: "(u32 \<Rightarrow> ('v, 'l::len) entry \<Rightarrow> 'a \<Rightarrow> 'a) \<Rightarrow> ('v, 'l) queue \<Rightarrow> 'a \<Rightarrow> 'a option" where
  "for_entries f q acc = spin (for_entries_body f q) (0, acc)"

definition data_entries_count :: "('v, 'l::len) queue \<Rightarrow> u32 option" where
  "data_entries_count q = for_entries (\<lambda>i e c. c + ucast (get_seq e AND 1)) q 0"

text \<open>The lambda \<^verbatim>\<open>show_entry\<close>: position, round and cell of the entry, whether it is full, its data.\<close>

record 'v entry_line =
  l_index :: u32
  l_position :: u64
  l_round :: u64
  l_cell :: u64
  l_full :: bool
  l_data :: 'v

definition line_of :: "size_t \<Rightarrow> u32 \<Rightarrow> ('v, 'l::len) entry \<Rightarrow> 'v entry_line" where
  "line_of sz eindex e =
     (let seq_index = ucast (drop_bit 1 (get_seq e)) :: u64
      in \<lparr>l_index = eindex, l_position = seq_index, l_round = seq_index div sz, l_cell = seq_index mod sz,
          l_full = (get_seq e AND 1 \<noteq> 0), l_data = get_data e\<rparr>)"

definition show_entry :: "('v, 'l::len) queue \<Rightarrow> u32 \<Rightarrow> 'v entry_line option" where
  "show_entry q eindex = map_option (line_of (capacity q) eindex) (arr_at (ring q) (ucast eindex))"

text \<open>\<^verbatim>\<open>index & ~(1UL << (bits_in_index() - 1))\<close>, and the difference of two such indexes.\<close>

definition effective_index :: "'l::len word \<Rightarrow> 'l word" where
  "effective_index i = ucast ((ucast i :: size_t) AND NOT (push_bit (unat (bits_in_index TYPE('l) - 1)) 1))"

definition effective_difference :: "size_t \<Rightarrow> 'l::len word \<Rightarrow> 'l word \<Rightarrow> 'l word" where
  "effective_difference sz ewr_index erd_index =
     ucast (if ewr_index \<ge> erd_index then (ucast (ewr_index - erd_index) :: size_t)
            else ucast ewr_index + sz - ucast erd_index)"

record ('v, 'w) state_dump =
  d_capacity :: u64
  d_size :: size_t
  d_entries :: u32
  d_index_mask :: u64
  d_effective_write :: "'w \<times> size_t \<times> size_t"
  d_effective_read :: "'w \<times> size_t \<times> size_t"
  d_write :: "u64 \<times> size_t \<times> size_t"
  d_write_entry :: "'v entry_line"
  d_read :: "u64 \<times> size_t \<times> size_t"
  d_read_entry :: "'v entry_line"
  d_difference :: 'w
  d_lines :: "'v entry_line list"

text \<open>An index with its round and its cell, as the dump shows it.\<close>

definition with_round :: "size_t \<Rightarrow> 'l::len word \<Rightarrow> size_t \<times> size_t" where
  "with_round sz i = (ucast i div sz, ucast i mod sz)"

definition dump_state :: "('v, 'l::len) queue \<Rightarrow> ('v, 'l word) state_dump option" where
  "dump_state q =
     (let sz = capacity q; wr = write_index q; rd = read_index q;
          ewr = effective_index wr; erd = effective_index rd
      in case (data_entries_count q, size_of q, show_entry q (ucast ((ucast wr :: size_t) AND arr_index_mask (ring q))),
               show_entry q (ucast ((ucast rd :: size_t) AND arr_index_mask (ring q))),
               for_entries (\<lambda>i e ls. ls @ [line_of sz i e]) q []) of
           (Some cnt, Some len, Some at_wr, Some at_rd, Some ls) \<Rightarrow>
             Some \<lparr>d_capacity = sz, d_size = len, d_entries = cnt, d_index_mask = sz - 1,
               d_effective_write = (ewr, with_round sz ewr), d_effective_read = (erd, with_round sz erd),
               d_write = (ucast wr, with_round sz wr), d_write_entry = at_wr,
               d_read = (ucast rd, with_round sz rd), d_read_entry = at_rd,
               d_difference = effective_difference sz ewr erd, d_lines = ls\<rparr>
         | _ \<Rightarrow> None)"

section \<open>The loops\<close>

lemma for_entries_from:
  fixes q :: "('v::zero, 'l::len) queue"
  assumes shape: "ring_shape q n" and n: "n < 2 ^ 32"
  shows "i \<le> n \<Longrightarrow> spin (for_entries_body f q) (of_nat i, acc) =
    Some (fold (\<lambda>j. f (of_nat j) (arr_cells (ring q) ! j)) [i..<n] acc)"
proof (induction "n - i" arbitrary: i acc)
  case 0
  have "unat (ucast (of_nat n :: u32) :: size_t) = n"
    using n by (simp add: unsigned_ucast_eq unsigned_of_nat take_bit_nat_eq_self)
  then have "\<not> (ucast (of_nat n :: u32) :: size_t) < capacity q"
    using shape unfolding ring_shape_def word_less_nat_alt by simp
  with 0 show ?case by (simp add: spin_Return for_entries_body_def)
next
  case (Suc m)
  then have i: "i < n" by simp
  have u: "unat (ucast (of_nat i :: u32) :: size_t) = i"
    using i n by (simp add: unsigned_ucast_eq unsigned_of_nat take_bit_nat_eq_self)
  have ok: "arr_ok (ring q)" "unat (arr_size (ring q)) = n" using shape by (simp_all add: ring_shape_def capacity_def)
  have "(ucast (of_nat i :: u32) :: size_t) < capacity q"
    unfolding word_less_nat_alt u capacity_def ok(2) by (rule i)
  moreover have "arr_at (ring q) (ucast (of_nat i :: u32)) = Some (arr_cells (ring q) ! i)"
    using arr.at_cells [OF ok(1)] u ok(2) i by simp
  ultimately have "spin (for_entries_body f q) (of_nat i, acc) =
      spin (for_entries_body f q) (of_nat (Suc i), f (of_nat i) (arr_cells (ring q) ! i) acc)"
    by (intro spin_Loop) (simp add: for_entries_body_def add.commute)
  also have "\<dots> = Some (fold (\<lambda>j. f (of_nat j) (arr_cells (ring q) ! j)) [Suc i..<n] (f (of_nat i) (arr_cells (ring q) ! i) acc))"
    by (rule Suc.hyps(1)) (use Suc.hyps(2) i in simp_all)
  finally show ?case using i by (simp add: upt_conv_Cons)
qed

lemma for_entries_fold:
  "ring_shape q n \<Longrightarrow> n < 2 ^ 32 \<Longrightarrow>
   for_entries f q acc = Some (fold (\<lambda>j. f (of_nat j) (arr_cells (ring q) ! j)) [0..<n] acc)"
  using for_entries_from [of q n 0 f acc] by (simp add: for_entries_def)

lemma fold_snoc: "fold (\<lambda>j ls. ls @ [g j]) js ls = ls @ map g js"
  by (induction js arbitrary: ls) simp_all

lemma count_full:
  "fold (\<lambda>j c. c + ucast (get_seq (g j) AND 1)) js (c :: u32) = c + of_nat (length (filter (\<lambda>j. odd (get_seq (g j))) js))"
proof (induction js arbitrary: c)
  case (Cons j js)
  have "(ucast (get_seq (g j) AND 1) :: u32) = of_bool (odd (get_seq (g j)))"
    by (simp add: and_one_eq odd_iff_mod_2_eq_one [symmetric] mod_2_eq_odd)
  with Cons show ?case by simp
qed simp

lemma odd_cell: "odd (get_seq (cell h xs x :: ('v::zero, 'l::len) entry)) \<longleftrightarrow> x < h + length xs"
  by (simp add: cell_def get_seq_at)

lemma full_cells:
  fixes q :: "('v::zero, 'l::len) queue"
  assumes rep: "rep q n w r h xs"
  shows "length (filter (\<lambda>e. odd (get_seq e)) (arr_cells (ring q))) = length xs"
proof -
  let ?c = "arr_cells (ring q)"
  note cont = contents_cell [OF rep_contents [OF rep]]
  have n: "length ?c = n" "0 < n" using shape_bounds [OF rep_shape [OF rep]] by simp_all
  have len: "length xs \<le> n" by (rule rep_length [OF rep])
  have "bij_betw (\<lambda>x. x mod n) {h..<h + length xs} {j. j < length ?c \<and> odd (get_seq (?c ! j))}"
  proof (rule bij_betw_imageI)
    show "inj_on (\<lambda>x. x mod n) {h..<h + length xs}"
      using len by (intro inj_onI) (rule window_inj [where h = h], auto)
    show "(\<lambda>x. x mod n) ` {h..<h + length xs} = {j. j < length ?c \<and> odd (get_seq (?c ! j))}"
    proof (intro set_eqI iffI)
      fix j
      assume "j \<in> (\<lambda>x. x mod n) ` {h..<h + length xs}"
      then obtain x where "j = x mod n" "h \<le> x" "x < h + length xs" by auto
      then show "j \<in> {j. j < length ?c \<and> odd (get_seq (?c ! j))}"
        using cont [of x] len n odd_cell [of h xs x] by auto
    next
      fix j
      assume j: "j \<in> {j. j < length ?c \<and> odd (get_seq (?c ! j))}"
      obtain x where x: "h \<le> x" "x < h + n" "x mod n = j mod n" by (rule window_ex [OF n(2)])
      then have "?c ! j = cell h xs x" using cont [of x] j n by simp
      with j have "x < h + length xs" by (simp add: odd_cell)
      with x j n show "j \<in> (\<lambda>x. x mod n) ` {h..<h + length xs}" by (intro image_eqI [of _ _ x]) auto
    qed
  qed
  then have "card {j. j < length ?c \<and> odd (get_seq (?c ! j))} = card {h..<h + length xs}"
    by (rule bij_betw_same_card [symmetric])
  then show ?thesis unfolding length_filter_conv_card by simp
qed

lemma data_entries_count_correct:
  assumes rep: "rep q n w r h xs" and n: "n < 2 ^ 32"
  shows "data_entries_count q = Some (of_nat (length xs))"
proof -
  let ?c = "arr_cells (ring q)"
  have "length ?c = n" using shape_bounds [OF rep_shape [OF rep]] by simp
  then have c: "map (\<lambda>j. ?c ! j) [0..<n] = ?c" using map_nth by blast
  have "length (filter (\<lambda>j. odd (get_seq (?c ! j))) [0..<n]) = length (filter (\<lambda>e. odd (get_seq e)) (map (\<lambda>j. ?c ! j) [0..<n]))"
    by (simp only: filter_map o_def length_map)
  also have "\<dots> = length (filter (\<lambda>e. odd (get_seq e)) ?c)" by (simp only: c)
  finally show ?thesis
    using full_cells [OF rep] for_entries_fold [OF rep_shape [OF rep] n, of "\<lambda>i e c. c + ucast (get_seq e AND 1)" "0 :: u32"]
      count_full [of "(!) ?c" "[0..<n]" 0]
    by (simp add: data_entries_count_def)
qed

section \<open>The lines\<close>

text \<open>How the dump shows position \<open>x\<close> of a queue.\<close>

definition position_line :: "'l::len itself \<Rightarrow> nat \<Rightarrow> nat \<Rightarrow> 'v::zero list \<Rightarrow> nat \<Rightarrow> 'v entry_line" where
  "position_line ty n h xs x =
     \<lparr>l_index = of_nat (x mod n), l_position = of_nat (x mod half_range TYPE('l)),
      l_round = of_nat (x mod half_range TYPE('l) div n), l_cell = of_nat (x mod n),
      l_full = (x < h + length xs), l_data = (if x < h + length xs then xs ! (x - h) else 0)\<rparr>"

lemma get_data_empty: "get_data (empty_at x :: ('v::zero, 'l::len) entry) = 0"
  by (simp add: get_data_def empty_at_def entry_of_seq_def entry_clear_def)

lemma word_div_of_nat:
  assumes "a < 2 ^ LENGTH('a::len)" and "b < 2 ^ LENGTH('a)"
  shows "(of_nat a :: 'a word) div of_nat b = of_nat (a div b)" and "(of_nat a :: 'a word) mod of_nat b = of_nat (a mod b)"
proof -
  have "unat (of_nat a :: 'a word) = a" "unat (of_nat b :: 'a word) = b"
    using assms by (simp_all add: unsigned_of_nat take_bit_nat_eq_self)
  then have "unat ((of_nat a :: 'a word) div of_nat b) = a div b" "unat ((of_nat a :: 'a word) mod of_nat b) = a mod b"
    by (simp_all only: unat_div unat_mod)
  then show "(of_nat a :: 'a word) div of_nat b = of_nat (a div b)" "(of_nat a :: 'a word) mod of_nat b = of_nat (a mod b)"
    by (metis of_nat_unat ucast_id)+
qed

lemma line_of_cell:
  fixes q :: "('v::zero, 'l::len) queue"
  assumes shape: "ring_shape q n"
  shows "line_of (capacity q) (of_nat (x mod n)) (cell h xs x :: ('v, 'l) entry) = position_line TYPE('l) n h xs x"
proof -
  let ?m = "half_range TYPE('l)"
  note b = shape_bounds [OF shape]
  have "(2::nat) ^ LENGTH('l) \<le> 2 ^ 64" using b(4) by (intro power_increasing) simp_all
  then have m: "2 * ?m \<le> 2 ^ 64" unfolding full_range .
  have "x mod ?m < ?m" by simp
  then have lt: "x mod ?m < 2 * ?m" by linarith
  have "drop_bit 1 (get_seq (cell h xs x :: ('v, 'l) entry)) = of_nat (x mod ?m)"
    by (cases "x < h + length xs") (simp_all only: cell_def if_True if_False get_seq_at drop_seq)
  moreover have bit: "get_seq (cell h xs x :: ('v, 'l) entry) AND 1 \<noteq> 0 \<longleftrightarrow> x < h + length xs"
    using odd_cell [of h xs x] by (simp add: and_one_eq mod_2_eq_odd)
  ultimately have pos: "(ucast (drop_bit 1 (get_seq (cell h xs x :: ('v, 'l) entry))) :: u64) = of_nat (x mod ?m)"
    using lt by (simp add: widen_of_nat full_range mod_less)
  have "(of_nat (x mod ?m) :: u64) div of_nat n = of_nat (x mod ?m div n)"
    "(of_nat (x mod ?m) :: u64) mod of_nat n = of_nat (x mod ?m mod n)"
    using m lt b(3) by (auto intro!: word_div_of_nat)
  moreover have "x mod ?m mod n = x mod n" using b(7) by (rule mod_mod_cancel)
  moreover have "get_data (cell h xs x :: ('v, 'l) entry) = (if x < h + length xs then xs ! (x - h) else 0)"
    by (simp add: cell_def get_data_empty)
  ultimately show ?thesis unfolding line_of_def position_line_def Let_def pos bit b(5) by simp
qed

section \<open>The indexes\<close>

lemma effective_index_eq:
  assumes "LENGTH('l::len) \<le> 64"
  shows "effective_index (of_nat w :: 'l word) = of_nat (w mod half_range TYPE('l))"
proof -
  define k where "k = LENGTH('l) - 1"
  have k: "LENGTH('l) = Suc k" by (simp add: k_def)
  have "unat (bits_in_index TYPE('l) - 1) = k"
    using assms by (simp add: bits_in_index_def k unsigned_of_nat take_bit_nat_eq_self)
  then have "effective_index (of_nat w :: 'l word) = take_bit k (of_nat w)"
    using assms k unfolding effective_index_def
    by (intro bit_word_eqI) (auto simp: bit_simps)
  also have "\<dots> = of_nat (take_bit k w)" by (simp add: of_nat_take_bit)
  also have "take_bit k w = w mod half_range TYPE('l)" by (simp add: take_bit_eq_mod half_range_def k_def)
  finally show ?thesis .
qed

text \<open>
  The difference is the distance of the indexes while both are in the same half of the index range, and
  off by half the range and the capacity when the write index has left it.
\<close>

lemma half_word:
  assumes "LENGTH('l::len) \<le> 64"
  shows "unat (of_nat (x mod half_range TYPE('l)) :: 'l word) = x mod half_range TYPE('l)"
    and "(ucast (of_nat (x mod half_range TYPE('l)) :: 'l word) :: size_t) = of_nat (x mod half_range TYPE('l))"
    and "(ucast (ucast a :: size_t) :: 'l word) = a"
proof -
  show u: "unat (of_nat (x mod half_range TYPE('l)) :: 'l word) = x mod half_range TYPE('l)"
  proof (rule widen_index)
    have "x mod half_range TYPE('l) < half_range TYPE('l)" by simp
    then show "x mod half_range TYPE('l) < 2 * half_range TYPE('l)" by linarith
  qed
  then show "(ucast (of_nat (x mod half_range TYPE('l)) :: 'l word) :: size_t) = of_nat (x mod half_range TYPE('l))"
    by (metis of_nat_unat)
  show "(ucast (ucast a :: size_t) :: 'l word) = a"
    using assms by (intro bit_word_eqI) (auto simp: bit_simps dest: bit_imp_le_length)
qed

text \<open>The write index has gone into the next half.\<close>

lemma next_half:
  fixes w r m :: nat
  assumes "r \<le> w" and "w - r < m" and "w div m \<noteq> r div m"
  shows "w mod m + m = (w - r) + r mod m" and "w mod m < r mod m"
proof -
  have "0 < m" using assms(2) by simp
  have "w div m \<le> (r + m) div m" using assms(1,2) by (intro div_le_mono) linarith
  also have "\<dots> = Suc (r div m)" using \<open>0 < m\<close> by (metis div_add_self2 Suc_eq_plus1 less_irrefl)
  finally have "w div m = Suc (r div m)" using div_le_mono [OF assms(1), of m] assms(3) by linarith
  then have "w = m * (r div m) + m + w mod m" by (metis mult_div_mod_eq mult_Suc_right add.commute)
  moreover have "r = m * (r div m) + r mod m" by simp
  ultimately show "w mod m + m = (w - r) + r mod m" using assms(1) by linarith
  with assms(2) show "w mod m < r mod m" by linarith
qed

lemma effective_difference_eq:
  fixes w r n :: nat
  assumes w: "r \<le> w" "w - r < half_range TYPE('l::len)" and len: "LENGTH('l) \<le> 64"
  shows "effective_difference (of_nat n) (effective_index (of_nat w :: 'l word)) (effective_index (of_nat r)) =
    (if w div half_range TYPE('l) = r div half_range TYPE('l) then of_nat (w - r)
     else of_nat (w - r) + of_nat n - of_nat (half_range TYPE('l)))"
proof -
  let ?m = "half_range TYPE('l)"
  note h = half_word [OF len]
  show ?thesis
  proof (cases "w div ?m = r div ?m")
    case True
    have "r mod ?m \<le> w mod ?m" "w mod ?m - r mod ?m = w - r"
      using w(1) True by (metis add_le_cancel_left mult_div_mod_eq) (metis add_diff_cancel_left mult_div_mod_eq True)
    then have "(of_nat (w mod ?m) :: 'l word) - of_nat (r mod ?m) = of_nat (w - r)"
      by (metis of_nat_diff)
    moreover have "(of_nat (r mod ?m) :: 'l word) \<le> of_nat (w mod ?m)"
      unfolding word_le_nat_alt h(1) using \<open>r mod ?m \<le> w mod ?m\<close> .
    ultimately show ?thesis using True
      by (simp add: effective_difference_def effective_index_eq [OF len] h(3))
  next
    case False
    note wrapped = next_half [OF w False]
    then have "\<not> (of_nat (r mod ?m) :: 'l word) \<le> of_nat (w mod ?m)"
      unfolding word_le_nat_alt h(1) by simp
    then have "effective_difference (of_nat n) (effective_index (of_nat w :: 'l word)) (effective_index (of_nat r)) =
        ucast (of_nat (w mod ?m) + of_nat n - of_nat (r mod ?m) :: size_t)"
      by (simp add: effective_difference_def effective_index_eq [OF len] h(2))
    also have "(of_nat (w mod ?m) + of_nat n - of_nat (r mod ?m) :: size_t) = of_nat (w - r) + of_nat n - of_nat ?m"
    proof -
      have "(of_nat (w mod ?m) :: size_t) + of_nat ?m = of_nat (w - r) + of_nat (r mod ?m)" using wrapped(1) by (metis of_nat_add)
      then show ?thesis by (simp add: algebra_simps)
    qed
    also have "(ucast (of_nat (w - r) + of_nat n - of_nat ?m :: size_t) :: 'l word) = of_nat (w - r) + of_nat n - of_nat ?m"
    proof -
      have "(of_nat (w - r) + of_nat n - of_nat ?m :: 'a::len word) = word_of_int (int (w - r) + int n - int ?m)"
        by (simp add: of_int_of_nat_eq)
      moreover have "(ucast (word_of_int k :: size_t) :: 'l word) = word_of_int k" for k
        using len by (intro bit_word_eqI) (auto simp: bit_simps)
      ultimately show ?thesis by metis
    qed
    finally show ?thesis using False by simp
  qed
qed

section \<open>The dump of a queue\<close>

text \<open>
  The dump of a queue that represents a list: the count is the number of its elements, and there is a line
  for each position of the window.
\<close>

theorem dump_of_rep:
  fixes q :: "('v::zero, 'l::len) queue"
  assumes rep: "rep q n w r h xs" and n: "n < 2 ^ 32"
  shows "\<exists>d. dump_state q = Some d \<and> d_entries d = of_nat (length xs) \<and> length (d_lines d) = n \<and>
    (\<forall>x. h \<le> x \<longrightarrow> x < h + n \<longrightarrow> d_lines d ! (x mod n) = position_line TYPE('l) n h xs x) \<and>
    d_difference d = effective_difference (of_nat n) (effective_index (of_nat w :: 'l word)) (effective_index (of_nat r))"
proof -
  note shape = rep_shape [OF rep]
  note ix = rep_indexes [OF rep]
  let ?c = "arr_cells (ring q)"
  let ?ls = "map (\<lambda>j. line_of (capacity q) (of_nat j) (?c ! j)) [0..<n]"
  have ok: "arr_ok (ring q)" using shape by (simp add: ring_shape_def)
  have size: "\<exists>sz. size_of q = Some sz" by (simp add: size_of_def empty_exact [OF rep])
  have shown: "\<exists>l. show_entry q i = Some l" for i
    using arr.at_total [OF ok] by (auto simp: show_entry_def)
  have lines: "for_entries (\<lambda>i e ls. ls @ [line_of (capacity q) i e]) q [] = Some ?ls"
    using for_entries_fold [OF shape n, of "\<lambda>i e ls. ls @ [line_of (capacity q) i e]" "[]"] by (simp only: fold_snoc append_Nil)
  obtain sz a b where "size_of q = Some sz"
      "show_entry q (ucast ((ucast (write_index q) :: size_t) AND arr_index_mask (ring q))) = Some a"
      "show_entry q (ucast ((ucast (read_index q) :: size_t) AND arr_index_mask (ring q))) = Some b"
    using size shown by metis
  then obtain d where d: "dump_state q = Some d" "d_entries d = of_nat (length xs)" "d_lines d = ?ls"
      "d_difference d = effective_difference (capacity q) (effective_index (write_index q)) (effective_index (read_index q))"
    using data_entries_count_correct [OF rep n] lines by (auto simp: dump_state_def Let_def)
  moreover have "d_lines d ! (x mod n) = position_line TYPE('l) n h xs x" if "h \<le> x" "x < h + n" for x
    using contents_cell [OF rep_contents [OF rep] that] line_of_cell [OF shape, of x h xs] shape_bounds(1) [OF shape]
    by (simp add: d(3))
  ultimately show ?thesis using shape_bounds(5) [OF shape] by (simp add: ix(1) ix(4))
qed

end
