(* ===== verification/SmallTests.thy ===== *)
theory SmallTests
  imports PointerQueue SharedQueue MpmcDump "HOL-Library.Monad_Syntax"
begin

text \<open>
  The programs \<^verbatim>\<open>src/test_uniqptr_q.cpp\<close> and \<^verbatim>\<open>src/shared_q_test.cpp\<close>. What they print is the value of the
  definitions; an object is its address, its contents and its deletion.
\<close>

section \<open>The queue of unique pointers\<close>

type_synonym ptr_queue = "((u64, 32) queue, u64) pointer_queue"

text \<open>A pointer queue of one function: constructed, used, and destroyed at the end. The result adds what was deleted.\<close>

definition with_pointers :: "u32 \<Rightarrow> (ptr_queue \<Rightarrow> ('a \<times> ptr_queue) option) \<Rightarrow> ('a \<times> u64 list) option" where
  "with_pointers sz f =
     (case pointer_mpmc_queue (mpmc_queue 0) sz of
        None \<Rightarrow> None
      | Some (Inl err) \<Rightarrow> None
      | Some (Inr s) \<Rightarrow> do {
          (x, s) \<leftarrow> f s;
          s \<leftarrow> ptr_destroy (pop False) s;
          Some (x, deleted s)
        })"

text \<open>\<^verbatim>\<open>q.push(std::make_unique<T>(...))\<close>: the temporary is destroyed, with what it still owns.\<close>

definition push_new :: "u64 \<Rightarrow> ptr_queue \<Rightarrow> ptr_queue option" where
  "push_new p s = do {
     (_, v, s) \<leftarrow> ptr_push (push False) p s;
     Some (s\<lparr>deleted := deleted s @ uptr_destroy v\<rparr>)
   }"

fun push_each :: "u64 list \<Rightarrow> ptr_queue \<Rightarrow> ptr_queue option" where
  "push_each [] s = Some s"
| "push_each (p # ps) s = do { s \<leftarrow> push_new p s; push_each ps s }"

text \<open>One round of the second loop: the line that it prints; the unique pointer ends its life with the round.\<close>

datatype ptr_line = Empty_pointer int | Wrong_value int int | Value_ok int

definition pop_line :: "(u64 \<Rightarrow> int) \<Rightarrow> int \<Rightarrow> ptr_queue \<Rightarrow> (ptr_line \<times> ptr_queue) option" where
  "pop_line data i s = do {
     (_, p, s) \<leftarrow> ptr_pop (pop False) 0 s;
     Some (if p = 0 then Empty_pointer i else if data p \<noteq> i * i then Wrong_value i (data p) else Value_ok i,
           s\<lparr>deleted := deleted s @ uptr_destroy p\<rparr>)
   }"

fun pop_lines :: "(u64 \<Rightarrow> int) \<Rightarrow> int list \<Rightarrow> ptr_queue \<Rightarrow> (ptr_line list \<times> ptr_queue) option" where
  "pop_lines data [] s = Some ([], s)"
| "pop_lines data (i # is) s = do {
     (l, s) \<leftarrow> pop_line data i s;
     (ls, s) \<leftarrow> pop_lines data is s;
     Some (l # ls, s)
   }"

text \<open>\<open>news\<close> are the addresses of the five objects, \<open>i * i\<close> is stored in the \<open>i\<close>-th.\<close>

definition object_data :: "u64 list \<Rightarrow> u64 \<Rightarrow> int" where
  "object_data news p =
     (case map_of (zip news (map (\<lambda>i. i * i) [0, 1, 2, 3, 4])) p of None \<Rightarrow> 0 | Some v \<Rightarrow> v)"

text \<open>The three queues live until the end of the function, and are destroyed in the reverse order.\<close>

definition test1 :: "u64 list \<Rightarrow> (ptr_line list \<times> u64 list) option" where
  "test1 news = do {
     (ls, del) \<leftarrow> with_pointers 64 (\<lambda>s. do { s \<leftarrow> push_each news s; pop_lines (object_data news) [0, 1, 2, 3] s });
     (_, del1) \<leftarrow> with_pointers 4 (\<lambda>s. Some ((), s));
     (_, del2) \<leftarrow> with_pointers 4096 (\<lambda>s. Some ((), s));
     Some (ls, del @ del2 @ del1)
   }"

text \<open>The assertions of \<^verbatim>\<open>test2\<close> and \<^verbatim>\<open>test3\<close>.\<close>

definition asserted :: "size_t \<Rightarrow> bool \<Rightarrow> size_t \<Rightarrow> ptr_queue \<Rightarrow> bool option" where
  "asserted sz mt cap s = do {
     n \<leftarrow> ptr_size size_of s;
     b \<leftarrow> ptr_empty empty s;
     Some (n = sz \<and> b = mt \<and> ptr_capacity capacity s = cap)
   }"

definition test2 :: "(bool \<times> u64 list) option" where
  "test2 = with_pointers 64 (\<lambda>s. do { ok \<leftarrow> asserted 0 True 64 s; Some (ok, s) })"

definition test3 :: "u64 \<Rightarrow> u64 list \<Rightarrow> (bool \<times> u64 list) option" where
  "test3 new news =
     with_pointers 4 (\<lambda>s. do {
       a \<leftarrow> asserted 0 True 4 s;
       s \<leftarrow> push_new new s;
       b \<leftarrow> asserted 1 False 4 s;
       s \<leftarrow> push_each news s;
       c \<leftarrow> asserted 4 False 4 s;
       Some (a \<and> b \<and> c, s)
     })"

section \<open>The pointer tests\<close>

lemma with_pointers_new:
  assumes "unat sz = 2 ^ k" and "k \<le> 30"
  obtains q :: "(u64, 32) queue" where "rep q (2 ^ k) 0 0 0 []"
    and "with_pointers sz f =
      do { (x, s) \<leftarrow> f \<lparr>inner = q, deleted = []\<rparr>; s \<leftarrow> ptr_destroy (pop False) s; Some (x, deleted s) }"
proof -
  have "unat (ucast sz :: u64) = 2 ^ k"
  proof -
    have "unat sz < 2 ^ 32" using unat_bound [of sz] by simp
    then have "take_bit 64 (unat sz) = unat sz" by (intro take_bit_nat_eq_self) simp
    then show ?thesis using assms(1) by (simp add: unsigned_ucast_eq)
  qed
  from ctor_runtime [OF this, where 'v = u64 and 'l = 32] assms(2)
  obtain q :: "(u64, 32) queue" where "mpmc_queue 0 (ucast sz) = Some (Inr q)" "rep q (2 ^ k) 0 0 0 []" by auto
  then show ?thesis by (intro that) (simp_all add: with_pointers_def pointer_mpmc_queue_def)
qed

text \<open>What is pushed is in the queue while there is room, and is deleted otherwise.\<close>

lemma push_each_holds:
  assumes "holds (inner s) n h xs" and "0 \<notin> set ps"
  shows "\<exists>q. push_each ps s = Some \<lparr>inner = q, deleted = deleted s @ drop (n - length xs) ps\<rparr> \<and>
    holds q n h (xs @ take (n - length xs) ps)"
  using assms
proof (induction ps arbitrary: s xs)
  case Nil
  then show ?case by (cases s) auto
next
  case (Cons p ps)
  then have p: "p \<noteq> 0" "0 \<notin> set ps" by auto
  show ?case
  proof (cases rule: mpmc.push_cases [OF Cons.prems(1), of False p, case_names room full])
    case (room q)
    then have "push_new p s = Some \<lparr>inner = q, deleted = deleted s\<rparr>"
      by (simp add: push_new_def ptr_push_def uptr_release_def)
    moreover have "n - length xs = Suc (n - length (xs @ [p]))" using room(1) by simp
    ultimately show ?thesis using Cons.IH [of "\<lparr>inner = q, deleted = deleted s\<rparr>" "xs @ [p]"] room(3) p(2) by simp
  next
    case (full q)
    then have "push_new p s = Some \<lparr>inner = q, deleted = deleted s @ [p]\<rparr>"
      using p(1) by (simp add: push_new_def ptr_push_def uptr_destroy_def)
    then show ?thesis using Cons.IH [of "\<lparr>inner = q, deleted = deleted s @ [p]\<rparr>" xs] full p(2) by auto
  qed
qed

lemma pop_lines_holds:
  assumes "holds (inner s) n h (ps @ rest)" and "0 \<notin> set ps" and "length is = length ps"
    and "\<forall>(i, p) \<in> set (zip is ps). data p = i * i"
  shows "\<exists>q. pop_lines data is s = Some (map Value_ok is, \<lparr>inner = q, deleted = deleted s @ ps\<rparr>) \<and>
    holds q n (h + length ps) rest"
  using assms
proof (induction "is" arbitrary: s h ps)
  case Nil
  then show ?case by (cases s) auto
next
  case (Cons i "is")
  then obtain p ps' where ps: "ps = p # ps'" by (cases ps) auto
  with mpmc.pop_some [of "inner s" n h p "ps' @ rest" False 0] Cons.prems(1)
  obtain q where q: "pop False 0 (inner s) = Some (True, p, q)" "holds q n (h + 1) (ps' @ rest)" by auto
  then have "pop_line data i s = Some (Value_ok i, \<lparr>inner = q, deleted = deleted s @ [p]\<rparr>)"
    using Cons.prems(2,4) ps by (auto simp: pop_line_def ptr_pop_def uptr_reset_def uptr_destroy_def)
  moreover note Cons.IH [of "\<lparr>inner = q, deleted = deleted s @ [p]\<rparr>" "h + 1" ps']
  ultimately show ?case using q(2) Cons.prems(2-4) ps by auto
qed

text \<open>A queue that is not used deletes nothing.\<close>

lemma with_pointers_unused:
  assumes "unat sz = 2 ^ k" and "k \<le> 30"
  shows "with_pointers sz (\<lambda>s. Some (x, s)) = Some (x, [])"
proof -
  obtain q :: "(u64, 32) queue" where q: "rep q (2 ^ k) 0 0 0 []"
    "with_pointers sz (\<lambda>s. Some (x, s)) = do { s \<leftarrow> ptr_destroy (pop False) \<lparr>inner = q, deleted = []\<rparr>; Some (x, deleted s) }"
    using with_pointers_new [OF assms, of "\<lambda>s. Some (x, s)"] by auto
  then show ?thesis using pointers.ptr_destroy_deletes [of "\<lparr>inner = q, deleted = []\<rparr>" "2 ^ k" 0 "[]" False] rep_holds [OF q(1)] by auto
qed

lemma test1_passes:
  assumes "length news = 5" and "distinct news" and "0 \<notin> set news"
  shows "test1 news = Some (map Value_ok [0, 1, 2, 3], news)"
proof -
  let ?data = "object_data news"
  let ?f = "\<lambda>s. do { s \<leftarrow> push_each news s; pop_lines ?data [0, 1, 2, 3] s }"
  obtain a b c d e where news: "news = [a, b, c, d] @ [e]"
    using assms(1) by (auto simp: length_Suc_conv numeral_eq_Suc)
  obtain q :: "(u64, 32) queue" where q: "rep q (2 ^ 6) 0 0 0 []"
    "with_pointers 64 ?f = do { (x, s) \<leftarrow> ?f \<lparr>inner = q, deleted = []\<rparr>; s \<leftarrow> ptr_destroy (pop False) s; Some (x, deleted s) }"
    using with_pointers_new [of 64 6 ?f] by auto
  have "holds (inner \<lparr>inner = q, deleted = []\<rparr>) 64 0 []" using rep_holds [OF q(1)] by simp
  from push_each_holds [OF this assms(3)] assms(1)
  obtain q1 where q1: "push_each news \<lparr>inner = q, deleted = []\<rparr> = Some \<lparr>inner = q1, deleted = []\<rparr>" "holds q1 64 0 news" by auto
  let ?s = "\<lparr>inner = q1, deleted = []\<rparr>"
  have "\<exists>q. pop_lines ?data [0, 1, 2, 3] ?s = Some (map Value_ok [0, 1, 2, 3], \<lparr>inner = q, deleted = deleted ?s @ [a, b, c, d]\<rparr>) \<and>
      holds q 64 (0 + length [a, b, c, d]) [e]"
    by (rule pop_lines_holds) (use q1(2) assms(2,3) in \<open>auto simp: news object_data_def\<close>)
  then obtain q2 where q2: "pop_lines ?data [0, 1, 2, 3] ?s =
      Some (map Value_ok [0, 1, 2, 3], \<lparr>inner = q2, deleted = [a, b, c, d]\<rparr>)" "holds q2 64 (0 + length [a, b, c, d]) [e]"
    by (auto simp del: pop_lines.simps)
  from pointers.ptr_destroy_deletes [of "\<lparr>inner = q2, deleted = [a, b, c, d]\<rparr>" 64 "0 + length [a, b, c, d]" "[e]" False] q2(2) assms(3)
  have "\<exists>s. ptr_destroy (pop False) \<lparr>inner = q2, deleted = [a, b, c, d]\<rparr> = Some s \<and> deleted s = news" by (auto simp: news)
  with q(2) q1(1) q2(1) have "with_pointers 64 ?f = Some (map Value_ok [0, 1, 2, 3], news)"
    by (auto simp del: pop_lines.simps push_each.simps)
  moreover have "with_pointers 4 (\<lambda>s. Some ((), s)) = Some ((), [])" "with_pointers 4096 (\<lambda>s. Some ((), s)) = Some ((), [])"
    using with_pointers_unused [of 4 2] with_pointers_unused [of 4096 12] by simp_all
  ultimately show ?thesis by (simp add: test1_def del: pop_lines.simps push_each.simps)
qed

lemma asserted_at:
  assumes "rep (inner s) n w 0 0 xs" and "w = length xs" and "n < 2 ^ 30"
  shows "asserted (of_nat (length xs)) (xs = []) (of_nat n) s = Some True"
proof -
  have "w \<le> n" using rep_length [OF assms(1)] assms(2) by simp
  then have "w div (2 * half_range TYPE(32)) = 0" using assms(3) by (simp add: half_range_def)
  then have "size_of (inner s) = Some (of_nat (length xs))"
    using size_exact [OF assms(1)] assms(2) by (cases "xs = []") simp_all
  moreover have "capacity (inner s) = of_nat n" by (rule shape_bounds(5) [OF rep_shape [OF assms(1)]])
  ultimately show ?thesis
    using empty_exact [OF assms(1)] by (simp add: asserted_def ptr_size_def ptr_empty_def ptr_capacity_def)
qed

text \<open>Pushes that do not lag keep the indexes exact.\<close>

lemma push_new_rep:
  assumes "rep (inner s) n (length xs) 0 0 xs" and "p \<noteq> 0"
  shows "\<exists>q. push_new p s = Some \<lparr>inner = q, deleted = deleted s @ drop (n - length xs) [p]\<rparr> \<and>
    rep q n (length (xs @ take (n - length xs) [p])) 0 0 (xs @ take (n - length xs) [p])"
proof (cases "length xs < n")
  case True
  then obtain k where "n - length xs = Suc k" by (metis Suc_diff_Suc)
  with push_correct(1) [OF assms(1) True, of False p] show ?thesis
    by (cases s) (auto simp: push_new_def ptr_push_def uptr_release_def)
next
  case False
  then have full: "length xs = n" using rep_length [OF assms(1)] by simp
  from push_correct(2) [OF assms(1) full, of False p] obtain w q where
    q: "push False p (inner s) = Some (False, q)" "length xs \<le> w" "rep q n w 0 0 xs" by blast
  then have "w = length xs" using rep_indexes [OF q(3)] by simp
  with q full assms(2) show ?thesis by (cases s) (simp add: push_new_def ptr_push_def uptr_destroy_def)
qed

lemma push_each_rep:
  assumes "rep (inner s) n (length xs) 0 0 xs" and "0 \<notin> set ps"
  shows "\<exists>q. push_each ps s = Some \<lparr>inner = q, deleted = deleted s @ drop (n - length xs) ps\<rparr> \<and>
    rep q n (length (xs @ take (n - length xs) ps)) 0 0 (xs @ take (n - length xs) ps)"
  using assms
proof (induction ps arbitrary: s xs)
  case Nil
  then show ?case by (cases s) auto
next
  case (Cons p ps)
  then have p: "p \<noteq> 0" "0 \<notin> set ps" by auto
  from push_new_rep [OF Cons.prems(1) p(1)] obtain q where
    q: "push_new p s = Some \<lparr>inner = q, deleted = deleted s @ drop (n - length xs) [p]\<rparr>"
      "rep q n (length (xs @ take (n - length xs) [p])) 0 0 (xs @ take (n - length xs) [p])" by blast
  note rest = Cons.IH [of "\<lparr>inner = q, deleted = deleted s @ drop (n - length xs) [p]\<rparr>" "xs @ take (n - length xs) [p]"]
  show ?case
  proof (cases "n - length xs")
    case (Suc k)
    then have "n - Suc (length xs) = k" by simp
    with Suc rest q p(2) show ?thesis by auto
  qed (use rest q p(2) in auto)
qed

lemma test2_passes: "test2 = Some (True, [])"
proof -
  obtain q :: "(u64, 32) queue" where q: "rep q 64 0 0 0 []"
    "test2 = do { (x, s) \<leftarrow> do { ok \<leftarrow> asserted 0 True 64 \<lparr>inner = q, deleted = []\<rparr>; Some (ok, \<lparr>inner = q, deleted = []\<rparr>) };
       s \<leftarrow> ptr_destroy (pop False) s; Some (x, deleted s) }"
    using with_pointers_new [of 64 6 "\<lambda>s. do { ok \<leftarrow> asserted 0 True 64 s; Some (ok, s) }"] by (auto simp: test2_def)
  have "asserted 0 True 64 \<lparr>inner = q, deleted = []\<rparr> = Some True"
    using asserted_at [of "\<lparr>inner = q, deleted = []\<rparr>" 64 0 "[]"] q(1) by simp
  with q(2) pointers.ptr_destroy_deletes [of "\<lparr>inner = q, deleted = []\<rparr>" 64 0 "[]" False] rep_holds [OF q(1)] show ?thesis by auto
qed

lemma test3_passes:
  assumes "length news = 5" and "0 \<notin> set (new # news)"
  shows "test3 new news = Some (True, drop 3 news @ new # take 3 news)"
proof -
  let ?f = "\<lambda>s. do { a \<leftarrow> asserted 0 True 4 s; s \<leftarrow> push_new new s; b \<leftarrow> asserted 1 False 4 s; s \<leftarrow> push_each news s;
       c \<leftarrow> asserted 4 False 4 s; Some (a \<and> b \<and> c, s) }"
  let ?p = "\<lambda>q. \<lparr>inner = q, deleted = []\<rparr> :: ptr_queue"
  obtain q :: "(u64, 32) queue" where q: "rep q 4 0 0 0 []"
    "with_pointers 4 ?f = do { (x, s) \<leftarrow> ?f (?p q); s \<leftarrow> ptr_destroy (pop False) s; Some (x, deleted s) }"
    using with_pointers_new [of 4 2 ?f] by auto
  have a: "asserted 0 True 4 (?p q) = Some True" using asserted_at [of "?p q" 4 0 "[]"] q(1) by simp
  obtain q1 where q1: "push_new new (?p q) = Some (?p q1)" "rep q1 4 1 0 0 [new]"
    using push_new_rep [of "?p q" 4 "[]" new] q(1) assms(2) by auto
  have b: "asserted 1 False 4 (?p q1) = Some True" using asserted_at [of "?p q1" 4 1 "[new]"] q1(2) by simp
  obtain q2 where q2: "push_each news (?p q1) = Some \<lparr>inner = q2, deleted = drop 3 news\<rparr>" "rep q2 4 4 0 0 (new # take 3 news)"
    using push_each_rep [of "?p q1" 4 "[new]" news] q1(2) assms by auto
  let ?s = "\<lparr>inner = q2, deleted = drop 3 news\<rparr>"
  have len: "length (new # take 3 news) = 4" by (simp add: assms(1))
  have "asserted (of_nat (length (new # take 3 news))) (new # take 3 news = []) (of_nat 4) ?s = Some True"
    by (rule asserted_at [where w = 4]) (use q2(2) len in simp_all)
  then have c: "asserted 4 False 4 ?s = Some True" unfolding len by simp
  have "filter (\<lambda>v. v \<noteq> 0) (new # take 3 news) = new # take 3 news"
    using assms(2) by (auto simp: filter_id_conv dest: in_set_takeD)
  with pointers.ptr_destroy_deletes [of ?s 4 0 "new # take 3 news" False] rep_holds [OF q2(2)]
  have "\<exists>s. ptr_destroy (pop False) ?s = Some s \<and> deleted s = drop 3 news @ new # take 3 news" by auto
  then obtain s' where "ptr_destroy (pop False) ?s = Some s'"
    "deleted s' = drop 3 news @ new # take 3 news" by blast
  then show ?thesis by (simp only: test3_def q(2) a q1(1) b q2(1) c bind.bind_lunit prod.case HOL.simp_thms)
qed

section \<open>The program with the shared queue\<close>

text \<open>
  The processes run one after the other. \<open>bytes\<close> is the size of the queue's type, \<open>junk\<close> the header's memory before it is
  filled in; the result of a process is what it prints about values or the queue, and the file that it leaves.
\<close>

type_synonym shm_queue = "(u32, 32) queue shared_queue"

definition producer_part :: "shm_queue \<Rightarrow> shm_queue option" where
  "producer_part sq = do {
     (_, sq) \<leftarrow> shared_push (push False) 123 (get_producer sq);
     (_, sq) \<leftarrow> shared_push (push False) 234 sq;
     (_, sq) \<leftarrow> shared_push (push False) 345 sq;
     Some (shared_producer_end sq)
   }"

text \<open>One round of the consumer's loop, with the variable \<^verbatim>\<open>value\<close> and what has been printed.\<close>

definition consumer_body ::
  "u32 \<times> u32 list \<times> shm_queue \<Rightarrow> (u32 list \<times> shm_queue, u32 \<times> u32 list \<times> shm_queue) turn option" where
  "consumer_body st = (case st of (v, printed, sq) \<Rightarrow> do {
     (popped, v, sq) \<leftarrow> shared_pop (pop False) v sq;
     Some (if popped then Loop (v, printed @ [v], sq)
           else if get_producers_count sq \<le> 0 then Return (printed, sq)
           else Loop (v, printed, sq))
   })"

definition consumer_part :: "shm_queue \<Rightarrow> (u32 list \<times> shm_queue) option" where
  "consumer_part sq = do {
     (printed, sq) \<leftarrow> spin consumer_body (0, [], get_consumer sq);
     Some (printed, shared_consumer_end sq)
   }"

datatype shared_output = Values "u32 list" | Dumped "(u32, 32 word) state_dump"

text \<open>\<^verbatim>\<open>argc > 1 && argv[1][0] == '-' && argv[1][1] == c\<close>\<close>

definition flag_is :: "char \<Rightarrow> string list \<Rightarrow> bool" where
  "flag_is c args = (case args of (a # b # _) # _ \<Rightarrow> a = CHR ''-'' \<and> b = c | _ \<Rightarrow> False)"

definition shared_q_test ::
  "syscalls \<Rightarrow> u64 \<Rightarrow> shared_file_header \<Rightarrow> string list \<Rightarrow> (u32, 32) queue shm_file
     \<Rightarrow> (shared_output outcome \<times> (u32, 32) queue shm_file) option" where
  "shared_q_test sc bytes junk args f =
     (case shared_mpmc_queue sc 128 bytes (mpmc_queue 128 128) junk f of
        (Mapped sq, f) \<Rightarrow>
          if flag_is CHR ''p'' args
          then do { sq \<leftarrow> producer_part sq; Some (Mapped (Values []), sync sq f) }
          else if flag_is CHR ''c'' args
          then do { (printed, sq) \<leftarrow> consumer_part sq; Some (Mapped (Values printed), sync sq f) }
          else do { d \<leftarrow> dump_state (qp sq); Some (Mapped (Dumped d), sync sq f) }
      | (Exit_1, f) \<Rightarrow> Some (Exit_1, f)
      | (Runtime_error, f) \<Rightarrow> Some (Runtime_error, f)
      | (Ctor_error err, f) \<Rightarrow> Some (Ctor_error err, f)
      | (Crash, f) \<Rightarrow> Some (Crash, f))"

text \<open>Processes one after the other, all with the system calls succeeding.\<close>

fun run_processes ::
  "u64 \<Rightarrow> shared_file_header \<Rightarrow> string list list \<Rightarrow> (u32, 32) queue shm_file
     \<Rightarrow> (shared_output outcome list \<times> (u32, 32) queue shm_file) option" where
  "run_processes bytes junk [] f = Some ([], f)"
| "run_processes bytes junk (args # rest) f = do {
     (out, f) \<leftarrow> shared_q_test all_ok bytes junk args f;
     (outs, f) \<leftarrow> run_processes bytes junk rest f;
     Some (out # outs, f)
   }"

text \<open>A process that has attached to the queue.\<close>

definition attached :: "u64 \<Rightarrow> u32 \<Rightarrow> u32 list \<Rightarrow> shm_queue \<Rightarrow> (u32, 32) queue shm_file \<Rightarrow> bool" where
  "attached bytes c xs sq f \<longleftrightarrow>
     length (head_bytes f) = 4096 \<and> header_wf (header sq) \<and> compatible 128 bytes (header sq) \<and>
     producer_count (header sq) = c \<and> (\<exists>h. holds (qp sq) 128 h xs)"

lemma pushes_hold:
  assumes "holds (qp sq) 128 h xs"
  shows "\<exists>b q. shared_push (push False) d sq = Some (b, sq\<lparr>qp := q\<rparr>) \<and> holds q 128 h (xs @ take (128 - length xs) [d])"
proof (cases rule: mpmc.push_cases [OF assms, of False d, case_names room full])
  case (room q)
  then obtain k where "128 - length xs = Suc k" by (metis Suc_diff_Suc)
  with room show ?thesis by (auto simp: shared_push_def)
qed (auto simp: shared_push_def)

lemma producer_part_holds:
  assumes "attached bytes c xs sq f" and "length xs \<le> 125"
  shows "\<exists>sq'. producer_part sq = Some sq' \<and> attached bytes c (xs @ [123, 234, 345]) sq' f"
proof -
  obtain h where h: "holds (qp (get_producer sq)) 128 h xs"
    using assms(1) by (auto simp: attached_def get_producer_def shared_producer_def)
  obtain b1 q1 where q1: "shared_push (push False) 123 (get_producer sq) = Some (b1, (get_producer sq)\<lparr>qp := q1\<rparr>)"
      "holds q1 128 h (xs @ take (128 - length xs) [123])"
    using pushes_hold [OF h, of 123] by blast
  let ?s1 = "(get_producer sq)\<lparr>qp := q1\<rparr>"
  have "holds (qp ?s1) 128 h (xs @ [123])" using q1(2) assms(2) by (cases "128 - length xs") auto
  from pushes_hold [OF this, of 234] assms(2) obtain b2 q2 where q2:
      "shared_push (push False) 234 ?s1 = Some (b2, (get_producer sq)\<lparr>qp := q2\<rparr>)" "holds q2 128 h (xs @ [123, 234])"
    by (cases "127 - length xs") auto
  let ?s2 = "(get_producer sq)\<lparr>qp := q2\<rparr>"
  have "holds (qp ?s2) 128 h (xs @ [123, 234])" using q2(2) by simp
  from pushes_hold [OF this, of 345] assms(2) obtain b3 q3 where q3:
      "shared_push (push False) 345 ?s2 = Some (b3, (get_producer sq)\<lparr>qp := q3\<rparr>)" "holds q3 128 h (xs @ [123, 234, 345])"
    by (cases "126 - length xs") auto
  have "attached bytes c (xs @ [123, 234, 345]) (shared_producer_end ((get_producer sq)\<lparr>qp := q3\<rparr>)) f"
    using assms(1) q3(2)
    by (auto simp: attached_def shared_producer_end_def producers_dec_def get_producer_def shared_producer_def producers_inc_def
        header_wf_def compatible_def)
  with q1(1) q2(1) q3(1) show ?thesis by (simp add: producer_part_def)
qed

text \<open>The consumer prints what is in the queue; it returns exactly when the header counts no producer.\<close>

lemma count_none: "(get_producers_count sq \<le> 0) = (producer_count (header sq) = 0)"
proof -
  have "c = 0" if z: "(scast c :: size_t) = 0" for c :: u32
  proof (rule bit_word_eqI)
    fix n
    assume "n < LENGTH(32)"
    then have "n \<le> 31" by simp
    then have "bit c n = bit (scast c :: size_t) n" by (simp add: bit_signed_iff min_def)
    then show "bit c n = bit (0 :: u32) n" by (simp only: z bit_0_eq)
  qed
  then show ?thesis unfolding get_producers_count_def word_le_0_iff by auto
qed

lemma consumer_drains:
  assumes "holds (qp sq) 128 h xs"
  shows "\<exists>q v'. holds q 128 (h + length xs) [] \<and>
    spin consumer_body (v, printed, sq) = spin consumer_body (v', printed @ xs, sq\<lparr>qp := q\<rparr>)"
  using assms
proof (induction xs arbitrary: v printed sq h)
  case Nil
  then show ?case by (intro exI [of _ "qp sq"] exI [of _ v]) simp
next
  case (Cons x xs)
  from mpmc.pop_some [OF Cons.prems, of False v] obtain q where
    q: "pop False v (qp sq) = Some (True, x, q)" "holds q 128 (h + 1) xs" by blast
  have "spin consumer_body (v, printed, sq) = spin consumer_body (x, printed @ [x], sq\<lparr>qp := q\<rparr>)"
    using q(1) by (intro spin_Loop) (simp add: consumer_body_def shared_pop_def)
  with Cons.IH [of "sq\<lparr>qp := q\<rparr>" "h + 1" x "printed @ [x]"] q(2) show ?case by simp
qed

lemma consumer_loop:
  assumes "holds (qp sq) 128 h xs"
  shows "if producer_count (header sq) = 0
    then \<exists>q. spin consumer_body (v, [], sq) = Some (xs, sq\<lparr>qp := q\<rparr>) \<and> holds q 128 (h + length xs) []
    else spin consumer_body (v, [], sq) = None"
proof -
  obtain q v' where q: "holds q 128 (h + length xs) []"
      "spin consumer_body (v, [], sq) = spin consumer_body (v', xs, sq\<lparr>qp := q\<rparr>)"
    using consumer_drains [OF assms, of v "[]"] by auto
  have empty: "\<exists>q'. shared_pop (pop False) u (sq\<lparr>qp := r\<rparr>) = Some (False, u, sq\<lparr>qp := q'\<rparr>) \<and> holds q' 128 (h + length xs) []"
    if "holds r 128 (h + length xs) []" for u r
    using mpmc.pop_none [OF that, of False u] by (auto simp: shared_pop_def)
  have count: "(get_producers_count (sq\<lparr>qp := r\<rparr>) \<le> 0) = (producer_count (header sq) = 0)" for r
    by (simp only: count_none) simp
  show ?thesis
  proof (cases "producer_count (header sq) = 0")
    case True
    obtain q' where q': "shared_pop (pop False) v' (sq\<lparr>qp := q\<rparr>) = Some (False, v', sq\<lparr>qp := q'\<rparr>)" "holds q' 128 (h + length xs) []"
      using empty [OF q(1)] by blast
    then have "spin consumer_body (v', xs, sq\<lparr>qp := q\<rparr>) = Some (xs, sq\<lparr>qp := q'\<rparr>)"
      using True count by (intro spin_Return) (simp add: consumer_body_def)
    with q'(2) q(2) True show ?thesis by auto
  next
    case False
    have "spin consumer_body (v', xs, sq\<lparr>qp := q\<rparr>) = None"
    proof (rule spin_diverges [where P = "\<lambda>(u, p, s). \<exists>r. s = sq\<lparr>qp := r\<rparr> \<and> holds r 128 (h + length xs) []"])
      show "case (v', xs, sq\<lparr>qp := q\<rparr>) of (u, p, s) \<Rightarrow> \<exists>r. s = sq\<lparr>qp := r\<rparr> \<and> holds r 128 (h + length xs) []"
        using q(1) by auto
      fix st :: "u32 \<times> u32 list \<times> shm_queue"
      assume "case st of (u, p, s) \<Rightarrow> \<exists>r. s = sq\<lparr>qp := r\<rparr> \<and> holds r 128 (h + length xs) []"
      then obtain u p r where st: "st = (u, p, sq\<lparr>qp := r\<rparr>)" "holds r 128 (h + length xs) []" by auto
      obtain q' where "shared_pop (pop False) u (sq\<lparr>qp := r\<rparr>) = Some (False, u, sq\<lparr>qp := q'\<rparr>)" "holds q' 128 (h + length xs) []"
        using empty [OF st(2)] by blast
      then show "\<exists>s'. consumer_body st = Some (Loop s') \<and> (case s' of (u, p, s) \<Rightarrow> \<exists>r. s = sq\<lparr>qp := r\<rparr> \<and> holds r 128 (h + length xs) [])"
        using False count st(1) by (auto simp: consumer_body_def)
    qed
    with q(2) False show ?thesis by simp
  qed
qed

lemma consumer_part_holds:
  assumes "attached bytes c xs sq f"
  shows "if c = 0 then \<exists>sq'. consumer_part sq = Some (xs, sq') \<and> attached bytes c [] sq' f else consumer_part sq = None"
proof -
  obtain h where h: "holds (qp (get_consumer sq)) 128 h xs" and c: "producer_count (header (get_consumer sq)) = c"
    using assms by (auto simp: attached_def get_consumer_def shared_consumer_def consumers_inc_def)
  show ?thesis
  proof (cases "c = 0")
    case True
    with consumer_loop [OF h, of 0] c obtain q where
      q: "spin consumer_body (0, [], get_consumer sq) = Some (xs, (get_consumer sq)\<lparr>qp := q\<rparr>)" "holds q 128 (h + length xs) []"
      by auto
    have "attached bytes c [] (shared_consumer_end ((get_consumer sq)\<lparr>qp := q\<rparr>)) f"
      using assms q(2)
      by (auto simp: attached_def shared_consumer_end_def consumers_dec_def get_consumer_def shared_consumer_def consumers_inc_def
          header_wf_def compatible_def)
    with q(1) True show ?thesis by (auto simp: consumer_part_def)
  next
    case False
    with consumer_loop [OF h, of 0] c show ?thesis by (simp add: consumer_part_def)
  qed
qed

text \<open>Attaching: the first process creates the queue, a later one finds it as the last one left it.\<close>

lemma attach_first:
  assumes "head_bytes f = []" and "header_wf junk"
  shows "\<exists>sq f'. shared_mpmc_queue all_ok 128 bytes (mpmc_queue 128 128) junk f = (Mapped sq, f') \<and> attached bytes 0 [] sq f'"
proof -
  have "inplace_static_assert 128" by (simp add: inplace_static_assert_def)
  from ctor_static [OF this, of 7, where 'v = u32 and 'l = 32]
  obtain q :: "(u32, 32) queue" where q: "mpmc_queue 128 128 = Some (Inr q)" "rep q 128 0 0 0 []" by auto
  note wf = new_header_wf [OF assms(2), of 128 bytes]
  have "attached bytes 0 [] \<lparr>header = new_header 128 bytes junk, qp = q\<rparr>
      (f\<lparr>head_bytes := header_bytes (new_header 128 bytes junk) @ replicate (4096 - header_size) 0, queue_pages := Some q\<rparr>)"
    using rep_holds [OF q(2)] wf header_bytes_length [OF wf]
    by (auto simp: attached_def new_header_compatible header_size_def) (simp add: new_header_def)
  with create_empty [OF assms, of 128 bytes q] q(1) show ?thesis by auto
qed

lemma attach_again:
  assumes "attached bytes c xs sq f"
  shows "shared_mpmc_queue all_ok 128 bytes new_q junk (sync sq f) = (Mapped sq, sync sq f) \<and> attached bytes c xs sq (sync sq f)"
proof -
  have len: "length (head_bytes f) = 4096" "header_wf (header sq)" "compatible 128 bytes (header sq)"
    using assms by (simp_all add: attached_def)
  have "length (head_bytes (sync sq f)) = 4096"
    using len(1) header_bytes_length [OF len(2)] by (simp add: sync_def file_write_def header_size_def)
  then show ?thesis using attach_synced [OF len(1,2), of 128 bytes new_q junk] len(3) assms by (simp add: attached_def)
qed

lemma attached_process:
  assumes "shared_mpmc_queue all_ok 128 bytes (mpmc_queue 128 128) junk f = (Mapped sq, f')" and "attached bytes c xs sq f'"
  shows "length xs \<le> 125 \<Longrightarrow> \<exists>sq'. shared_q_test all_ok bytes junk [''-p''] f = Some (Mapped (Values []), sync sq' f') \<and>
      attached bytes c (xs @ [123, 234, 345]) sq' f'"
    and "c = 0 \<Longrightarrow> \<exists>sq'. shared_q_test all_ok bytes junk [''-c''] f = Some (Mapped (Values xs), sync sq' f') \<and>
      attached bytes 0 [] sq' f'"
    and "c \<noteq> 0 \<Longrightarrow> shared_q_test all_ok bytes junk [''-c''] f = None"
  using producer_part_holds [OF assms(2)] consumer_part_holds [OF assms(2)] assms(1)
  by (auto simp: shared_q_test_def flag_is_def)

lemma more_producers:
  assumes "attached bytes 0 xs sq f" and "length xs + 3 * m \<le> 128"
  shows "\<exists>sq' f'. run_processes bytes junk (replicate m [''-p'']) (sync sq f) = Some (replicate m (Mapped (Values [])), sync sq' f') \<and>
    attached bytes 0 (xs @ concat (replicate m [123, 234, 345])) sq' f'"
  using assms
proof (induction m arbitrary: xs sq f)
  case 0
  then show ?case by auto
next
  case (Suc m)
  note again = attach_again [OF Suc.prems(1)]
  from attached_process(1) [OF again [THEN conjunct1] again [THEN conjunct2]] Suc.prems(2)
  obtain sq1 where sq1: "shared_q_test all_ok bytes junk [''-p''] (sync sq f) = Some (Mapped (Values []), sync sq1 (sync sq f))"
      "attached bytes 0 (xs @ [123, 234, 345]) sq1 (sync sq f)" by auto
  from Suc.IH [OF sq1(2)] Suc.prems(2) obtain sq2 f2 where
    "run_processes bytes junk (replicate m [''-p'']) (sync sq1 (sync sq f)) = Some (replicate m (Mapped (Values [])), sync sq2 f2)"
    "attached bytes 0 (xs @ 123 # 234 # 345 # concat (replicate m [123, 234, 345])) sq2 f2" by auto
  with sq1(1) show ?case by auto
qed

lemma run_processes_append:
  "run_processes bytes junk (as @ bs) f =
   do { (outs, f) \<leftarrow> run_processes bytes junk as f; (outs', f) \<leftarrow> run_processes bytes junk bs f; Some (outs @ outs', f) }"
  by (induction as arbitrary: f) (auto simp: split: bind_splits)

text \<open>Producers leave their values in the file; the consumer prints them in order, and a second consumer finds nothing.\<close>

lemma processes_in_turn:
  assumes f: "head_bytes f = []" and junk: "header_wf junk" and m: "0 < m" "m \<le> 42"
  shows "\<exists>f'. run_processes bytes junk (replicate m [''-p''] @ [[''-c''], [''-c'']]) f =
    Some (replicate m (Mapped (Values [])) @ [Mapped (Values (concat (replicate m [123, 234, 345]))), Mapped (Values [])], f')"
proof -
  obtain k where k: "m = Suc k" using m(1) by (cases m) auto
  obtain sq0 f0 where first: "shared_mpmc_queue all_ok 128 bytes (mpmc_queue 128 128) junk f = (Mapped sq0, f0)" "attached bytes 0 [] sq0 f0"
    using attach_first [OF f junk] by blast
  from attached_process(1) [OF first] obtain sq1 where
    sq1: "shared_q_test all_ok bytes junk [''-p''] f = Some (Mapped (Values []), sync sq1 f0)" "attached bytes 0 [123, 234, 345] sq1 f0"
    by auto
  from more_producers [OF sq1(2), of k junk] m(2) k obtain sq2 f2 where
    sq2: "run_processes bytes junk (replicate k [''-p'']) (sync sq1 f0) = Some (replicate k (Mapped (Values [])), sync sq2 f2)"
      "attached bytes 0 (concat (replicate m [123, 234, 345])) sq2 f2" by auto
  note again = attach_again [OF sq2(2)]
  from attached_process(2) [OF again [THEN conjunct1] again [THEN conjunct2]] obtain sq3 where
    sq3: "shared_q_test all_ok bytes junk [''-c''] (sync sq2 f2) =
        Some (Mapped (Values (concat (replicate m [123, 234, 345]))), sync sq3 (sync sq2 f2))"
      "attached bytes 0 [] sq3 (sync sq2 f2)" by auto
  note again = attach_again [OF sq3(2)]
  from attached_process(2) [OF again [THEN conjunct1] again [THEN conjunct2]] obtain f4 where
    "shared_q_test all_ok bytes junk [''-c''] (sync sq3 (sync sq2 f2)) = Some (Mapped (Values []), f4)" by auto
  with sq1(1) sq2(1) sq3(1) show ?thesis by (auto simp: k run_processes_append)
qed

text \<open>A producer that ended without its destructor stays counted, and the consumer waits for it for ever.\<close>

lemma consumer_waits:
  assumes "length (head_bytes f) = 4096" and "header_wf (header sq)" and "compatible 128 bytes (header sq)"
    and "holds (qp sq) 128 h xs" and "producer_count (header sq) \<noteq> 0"
  shows "shared_q_test all_ok bytes junk [''-c''] (sync sq f) = None"
proof -
  have "attached bytes (producer_count (header sq)) xs sq f" using assms(1-4) by (auto simp: attached_def)
  note again = attach_again [OF this]
  from attached_process(3) [OF again [THEN conjunct1] again [THEN conjunct2] assms(5)] show ?thesis .
qed

end
