(* ===== verification/Schedules.thy ===== *)
theory Schedules
  imports Clients
begin

text \<open>
  Executable schedulers for programs over one queue and over several, with which concrete runs are evaluated, and
  the freshness of runs that are short.
\<close>

section \<open>One queue\<close>

text \<open>An executable scheduler: a thread takes a step of its own, starts its call, moves in it, or returns.\<close>

datatype 'a turn_of = By_itself nat 'a | Calls nat | Moves nat | Returns nat

fun program_exec1 ::
  "('a, 'g, 'v::zero, 'l::len word) queue_program \<Rightarrow> bool \<Rightarrow> bool \<Rightarrow> 'a turn_of \<Rightarrow> ('v, 'l) sys \<times> 'g \<Rightarrow>
     (('a, 'v, 'l word) program_move \<times> ('v, 'l) sys \<times> 'g) option" where
  "program_exec1 K lp lo (By_itself t a) (s, g) =
     (if halted K g \<or> call_of K g t \<noteq> None then None else map_option (\<lambda>g'. (Own t a, s, g')) (own_step K t a g))"
| "program_exec1 K lp lo (Calls t) (s, g) =
     (if halted K g then None
      else case call_of K g t of
             None \<Rightarrow> None
           | Some c \<Rightarrow> map_option (\<lambda>(l, s'). (Queue l, s', g)) (exec1 lp lo (Do_call t c) s))"
| "program_exec1 K lp lo (Moves t) (s, g) =
     (if halted K g then None else map_option (\<lambda>(l, s'). (Queue l, s', g)) (exec1 lp lo (Do_step t) s))"
| "program_exec1 K lp lo (Returns t) (s, g) =
     (if halted K g then None
      else case pcs s t of
             Finished c e \<Rightarrow> map_option (\<lambda>(l, s'). (Queue l, s', resume K t e g)) (exec1 lp lo (Do_ret t) s)
           | _ \<Rightarrow> None)"

fun program_exec ::
  "('a, 'g, 'v::zero, 'l::len word) queue_program \<Rightarrow> bool \<Rightarrow> bool \<Rightarrow> 'a turn_of list \<Rightarrow> ('a, 'v, 'l word) program_move list \<times> ('v, 'l) sys \<times> 'g \<Rightarrow>
     (('a, 'v, 'l word) program_move list \<times> ('v, 'l) sys \<times> 'g) option" where
  "program_exec K lp lo [] st = Some st"
| "program_exec K lp lo (x # xs) (ms, sg) =
     (case program_exec1 K lp lo x sg of None \<Rightarrow> None | Some (m, sg') \<Rightarrow> program_exec K lp lo xs (ms @ [m], sg'))"

lemma program_exec1_run:
  assumes "program_run K lp lo s0 g0 ms s g" and "program_exec1 K lp lo x (s, g) = Some (m, s', g')"
  shows "program_run K lp lo s0 g0 (ms @ [m]) s' g'"
proof (cases x)
  case (By_itself t a)
  with assms show ?thesis by (auto intro: client_own split: if_splits)
next
  case (Calls t)
  with assms(2) obtain c where c: "\<not> halted K g" "call_of K g t = Some c" "exec1 lp lo (Do_call t c) s = Some (Call t c, s')"
      "m = Queue (Call t c)" "g' = g"
    by (auto split: if_splits option.splits pc.splits)
  from client_call [OF assms(1) c(1,2) exec1_step [OF c(3)]] c(4,5) show ?thesis by simp
next
  case (Moves t)
  with assms(2) obtain ev where c: "\<not> halted K g" "exec1 lp lo (Do_step t) s = Some (Act t ev, s')" "m = Queue (Act t ev)" "g' = g"
    by (auto split: if_splits)
  from client_act [OF assms(1) c(1) exec1_step [OF c(2)]] c(3,4) show ?thesis by simp
next
  case (Returns t)
  with assms(2) obtain e where c: "\<not> halted K g" "exec1 lp lo (Do_ret t) s = Some (Ret t e, s')" "m = Queue (Ret t e)" "g' = resume K t e g"
    by (auto split: if_splits pc.splits)
  from client_ret [OF assms(1) c(1) exec1_step [OF c(2)]] c(3,4) show ?thesis by simp
qed

lemma program_exec_run:
  "program_run K lp lo s0 g0 ms s g \<Longrightarrow> program_exec K lp lo xs (ms, s, g) = Some (ms', s', g') \<Longrightarrow>
   program_run K lp lo s0 g0 ms' s' g'"
  by (induction xs arbitrary: ms s g) (auto split: option.splits dest: program_exec1_run)

section \<open>Several queues\<close>

text \<open>The queue of a step is the one that the thread has called.\<close>

fun queues_exec1 ::
  "('a, 'g, 'v::zero, 'l::len word) queues_program \<Rightarrow> bool \<Rightarrow> bool \<Rightarrow> 'a turn_of \<Rightarrow> (nat \<Rightarrow> ('v, 'l) sys) \<times> 'g \<Rightarrow>
     (('a, 'v, 'l word) queues_move \<times> (nat \<Rightarrow> ('v, 'l) sys) \<times> 'g) option" where
  "queues_exec1 K lp lo (By_itself t a) (S, g) =
     (if halted K g \<or> call_of K g t \<noteq> None then None else map_option (\<lambda>g'. (Own_move t a, S, g')) (own_step K t a g))"
| "queues_exec1 K lp lo (Calls t) (S, g) =
     (if halted K g then None
      else case call_of K g t of
             None \<Rightarrow> None
           | Some (j, c) \<Rightarrow> map_option (\<lambda>(l, s'). (At j l, S(j := s'), g)) (exec1 lp lo (Do_call t c) (S j)))"
| "queues_exec1 K lp lo (Moves t) (S, g) =
     (if halted K g then None
      else case call_of K g t of
             None \<Rightarrow> None
           | Some (j, c) \<Rightarrow> map_option (\<lambda>(l, s'). (At j l, S(j := s'), g)) (exec1 lp lo (Do_step t) (S j)))"
| "queues_exec1 K lp lo (Returns t) (S, g) =
     (if halted K g then None
      else case call_of K g t of
             None \<Rightarrow> None
           | Some (j, c) \<Rightarrow>
               (case pcs (S j) t of
                  Finished c e \<Rightarrow> map_option (\<lambda>(l, s'). (At j l, S(j := s'), resume K t e g)) (exec1 lp lo (Do_ret t) (S j))
                | _ \<Rightarrow> None))"

fun queues_exec ::
  "('a, 'g, 'v::zero, 'l::len word) queues_program \<Rightarrow> bool \<Rightarrow> bool \<Rightarrow> 'a turn_of list \<Rightarrow>
     ('a, 'v, 'l word) queues_move list \<times> (nat \<Rightarrow> ('v, 'l) sys) \<times> 'g \<Rightarrow>
     (('a, 'v, 'l word) queues_move list \<times> (nat \<Rightarrow> ('v, 'l) sys) \<times> 'g) option" where
  "queues_exec K lp lo [] st = Some st"
| "queues_exec K lp lo (x # xs) (ms, sg) =
     (case queues_exec1 K lp lo x sg of None \<Rightarrow> None | Some (m, sg') \<Rightarrow> queues_exec K lp lo xs (ms @ [m], sg'))"

lemma exec1_labels:
  "exec1 lp lo (Do_call t c) s = Some (l, s') \<Longrightarrow> l = Call t c"
  "exec1 lp lo (Do_step t) s = Some (l, s') \<Longrightarrow> \<exists>ev. l = Act t ev"
  "pcs s t = Finished d e \<Longrightarrow> exec1 lp lo (Do_ret t) s = Some (l, s') \<Longrightarrow> l = Ret t e"
  by (auto split: option.splits pc.splits)

lemma queues_exec1_run:
  assumes run: "queues_run K lp lo S0 g0 ms S g" and step: "queues_exec1 K lp lo x (S, g) = Some (m, S', g')"
  shows "queues_run K lp lo S0 g0 (ms @ [m]) S' g'"
proof (cases "\<exists>t a. x = By_itself t a")
  case True
  then obtain t a where "x = By_itself t a" by blast
  with step have c: "\<not> halted K g" "call_of K g t = None" "own_step K t a g = Some g'" "m = Own_move t a" "S' = S"
    by (auto simp del: not_None_eq split: if_splits)
  from queues_own [OF run c(1-3)] c(4,5) show ?thesis by simp
next
  case False
  with step have g: "\<not> halted K g" by (cases x) (auto split: if_splits)
  from False step g obtain t j c where call: "call_of K g t = Some (j, c)" and x: "x \<in> {Calls t, Moves t, Returns t}"
    by (cases x) (auto split: option.splits)
  show ?thesis
  proof (cases x)
    case (Calls t')
    with step g call x obtain l s' where e: "exec1 lp lo (Do_call t c) (S j) = Some (l, s')" "m = At j l" "S' = S(j := s')" "g' = g"
      by auto
    with queues_call [OF run g call exec1_step [OF e(1) [unfolded exec1_labels(1) [OF e(1)]]]] exec1_labels(1) [OF e(1)]
    show ?thesis by simp
  next
    case (Moves t')
    with step g call x obtain l s' where e: "exec1 lp lo (Do_step t) (S j) = Some (l, s')" "m = At j l" "S' = S(j := s')" "g' = g"
      by auto
    obtain ev where l: "l = Act t ev" using exec1_labels(2) [OF e(1)] by blast
    with queues_act [OF run g exec1_step [OF e(1) [unfolded l]]] e(2-4) show ?thesis by simp
  next
    case (Returns t')
    with step g call x obtain d e l s' where e: "pcs (S j) t = Finished d e" "exec1 lp lo (Do_ret t) (S j) = Some (l, s')" "m = At j l"
        "S' = S(j := s')" "g' = resume K t e g"
      by (auto split: pc.splits)
    note l = exec1_labels(3) [OF e(1,2)]
    from queues_ret [OF run g exec1_step [OF e(2) [unfolded l]]] e(3-5) l show ?thesis by simp
  qed (use False in blast)
qed

lemma queues_exec_run:
  "queues_run K lp lo S0 g0 ms S g \<Longrightarrow> queues_exec K lp lo xs (ms, S, g) = Some (ms', S', g') \<Longrightarrow>
   queues_run K lp lo S0 g0 ms' S' g'"
  by (induction xs arbitrary: ms S g) (auto split: option.splits dest: queues_exec1_run)

section \<open>Short runs are fresh\<close>

lemma step_pushes: "sys_step lp lo s l s' \<Longrightarrow> pushes s' \<le> Suc (pushes s)" for s s' :: "('v::zero, 'l::len) sys"
  by (cases rule: sys_step.cases, assumption) (auto simp: count_pushes split: option.split event.split)

lemma run_pushes: "sys_run lp lo (initial q) tr s \<Longrightarrow> pushes s \<le> length tr" for s :: "('v::zero, 'l::len) sys"
proof (induction rule: sys_run.induct)
  case stop
  show ?case by (simp add: initial_def)
next
  case (more tr s l s')
  from more.IH step_pushes [OF more.hyps(2)] show ?case by simp
qed

lemma labels_at_length: "length (labels_at j ms) \<le> length ms"
  by (induction j ms rule: labels_at.induct) auto

lemma short_queues_fresh:
  fixes q :: "nat \<Rightarrow> ('v::zero, 'l::len) queue"
  assumes run: "queues_run K lp lo (\<lambda>j. initial (q j)) g0 ms S g" and q: "\<And>j. rep (q j) n 0 0 0 []"
    and few: "length ms + n \<le> half_range TYPE('l)"
  shows "fresh_queues lp lo n (\<lambda>j. initial (q j)) ms S"
  unfolding fresh_queues_def
proof
  fix j
  note r = queues_sys_run [OF run, of j]
  have "pushes (S j) + n \<le> half_range TYPE('l)" using run_pushes [OF r] labels_at_length [of j ms] few by linarith
  then show "fresh_run lp lo n (initial (q j)) (labels_at j ms) (S j)" by (rule short_run_fresh [OF r q])
qed

end
