(* ===== verification/PackRuns.thy ===== *)
theory PackRuns
  imports Clients PackBench
begin

text \<open>
  The pack benchmark on the queues themselves: the threads of \<open>PackBench\<close> as a program in the sense of \<open>Clients\<close> over as many
  queues as the pack has. Their pushes and the pops that a consumer makes one after the other are executed by the
  atomic steps of the lock-free queues; the counters of the pack stay in the state of the program.
\<close>

section \<open>The program\<close>

definition pk_call :: "(u32 \<Rightarrow> 'v) \<Rightarrow> u32 \<Rightarrow> 'v pack_bench \<Rightarrow> nat \<Rightarrow> (nat \<times> ('v, 'i) op) option" where
  "pk_call conv N g t =
     (case role_of t of
        Main_role \<Rightarrow> None
      | Producer_role i \<Rightarrow>
          if i < length (pk_producers g) \<and> a_pc (pk_producers g ! i) = A_push \<and> a_x (pk_producers g ! i) < N
          then Some (unat (queue_index (a_pro (pk_producers g ! i))), Push (pk_value conv N i (a_x (pk_producers g ! i))))
          else None
      | Consumer_role j \<Rightarrow>
          if pk_main g \<noteq> W_producers \<and> j < length (pk_consumers g) then
            (case k_pc (pk_consumers g ! j) of
               K_pop st \<Rightarrow> Some (unat (read_queue_index (k_con (pk_consumers g ! j))), Pop)
             | _ \<Rightarrow> None)
          else None)"

text \<open>A pop that finds its queue empty leaves the variable \<^verbatim>\<open>v\<close> as it was.\<close>

fun pop_answer :: "('v, 'i) event \<Rightarrow> 'v \<Rightarrow> bool \<times> 'v" where
  "pop_answer (Popped i v) d = (True, v)"
| "pop_answer e d = (False, d)"

definition pk_resume ::
  "tested_queue \<Rightarrow> (u32 \<Rightarrow> 'v) \<Rightarrow> ('v \<Rightarrow> u64) \<Rightarrow> u32 \<Rightarrow> nat \<Rightarrow> ('v, 'i) event \<Rightarrow> 'v pack_bench \<Rightarrow> 'v pack_bench" where
  "pk_resume u conv num N t e g =
     (case role_of t of
        Main_role \<Rightarrow> g
      | Producer_role i \<Rightarrow>
          (let p = pk_producers g ! i
           in g\<lparr>pk_producers := (pk_producers g)[i := pushed_turn num (pk_value conv N i (a_x p)) (returned e) p]\<rparr>)
      | Consumer_role j \<Rightarrow>
          (let k = pk_consumers g ! j; (b, v) = pop_answer e (k_v k)
           in case k_pc k of
                K_pop st \<Rightarrow> g\<lparr>pk_consumers := (pk_consumers g)[j := popped_turn u num st b v k]\<rparr>
              | _ \<Rightarrow> g))"

definition pk_act_of :: "nat \<Rightarrow> pk_act" where
  "pk_act_of t = (case role_of t of Main_role \<Rightarrow> Main_act | Producer_role i \<Rightarrow> Producer_act i | Consumer_role j \<Rightarrow> Consumer_act j)"

text \<open>The consumers have steps only after their creation.\<close>

definition pk_own ::
  "tested_queue \<Rightarrow> (u32 \<Rightarrow> 'v::zero) \<Rightarrow> ('v \<Rightarrow> u64) \<Rightarrow> u32 \<Rightarrow> u32 \<Rightarrow> u32 \<Rightarrow> nat \<Rightarrow> unit \<Rightarrow> 'v pack_bench \<Rightarrow> 'v pack_bench option" where
  "pk_own u conv num N P C t a g =
     (case role_of t of
        Consumer_role j \<Rightarrow> if pk_main g = W_producers then None else pk_step u 0 conv num N P C (pk_act_of t) g
      | _ \<Rightarrow> pk_step u 0 conv num N P C (pk_act_of t) g)"

definition pk_program ::
  "tested_queue \<Rightarrow> (u32 \<Rightarrow> 'v::zero) \<Rightarrow> ('v \<Rightarrow> u64) \<Rightarrow> u32 \<Rightarrow> u32 \<Rightarrow> u32 \<Rightarrow> (unit, 'v pack_bench, 'v, 'i) queues_program" where
  "pk_program u conv num N P C =
     \<lparr>call_of = pk_call conv N, resume = pk_resume u conv num N, own_step = pk_own u conv num N P C, halted = (\<lambda>g. False)\<rparr>"

lemma pk_program_fields [simp]:
  "call_of (pk_program u conv num N P C) = pk_call conv N" "resume (pk_program u conv num N P C) = pk_resume u conv num N"
  "own_step (pk_program u conv num N P C) = pk_own u conv num N P C" "halted (pk_program u conv num N P C) g = False"
  by (simp_all add: pk_program_def)

section \<open>The threads do not look at each other in a call\<close>

lemma pk_call_cases:
  assumes "pk_call conv N g t = Some jc"
  obtains (producer) i p where "role_of t = Producer_role i" and "i < length (pk_producers g)" and "pk_producers g ! i = p"
      and "a_pc p = A_push" and "a_x p < N" and "jc = (unat (queue_index (a_pro p)), Push (pk_value conv N i (a_x p)))"
    | (consumer) j k st where "role_of t = Consumer_role j" and "pk_main g \<noteq> W_producers" and "j < length (pk_consumers g)"
      and "pk_consumers g ! j = k" and "k_pc k = K_pop st" and "jc = (unat (read_queue_index (k_con k)), Pop)"
  using assms by (auto simp: pk_call_def split: role.splits if_splits pk_consumer_pc.splits)

lemma pushed_pc [simp]: "a_pc (pushed_turn num v b p) = a_pc p"
  by (simp add: pushed_turn_def)

lemma popped_pc: "k_pc (popped_turn u num st b v k) \<notin> {K_done, K_leave, K_open}"
  by (auto simp: popped_turn_def split: prod.split sum.split if_splits)

lemma pk_resume_frame [simp]:
  "qpack (pk_resume u conv num N t e g) = qpack g" "prod_sum (pk_resume u conv num N t e g) = prod_sum g"
  "cons_sum (pk_resume u conv num N t e g) = cons_sum g" "active_producers (pk_resume u conv num N t e g) = active_producers g"
  "active_consumers (pk_resume u conv num N t e g) = active_consumers g"
  "benchmark_state (pk_resume u conv num N t e g) = benchmark_state g"
  "consumers_pops (pk_resume u conv num N t e g) = consumers_pops g" "pk_main (pk_resume u conv num N t e g) = pk_main g"
  "length (pk_producers (pk_resume u conv num N t e g)) = length (pk_producers g)"
  "length (pk_consumers (pk_resume u conv num N t e g)) = length (pk_consumers g)"
  by (simp_all add: pk_resume_def Let_def split: role.split pk_consumer_pc.split prod.split)

lemma pk_resume_update:
  "pk_resume u conv num N t e (g\<lparr>pk_main := m\<rparr>) = (pk_resume u conv num N t e g)\<lparr>pk_main := m\<rparr>"
  "pk_resume u conv num N t e (g\<lparr>benchmark_state := b\<rparr>) = (pk_resume u conv num N t e g)\<lparr>benchmark_state := b\<rparr>"
  by (simp_all add: pk_resume_def Let_def split: role.split pk_consumer_pc.split prod.split)

lemma pk_resume_nth:
  "role_of t \<noteq> Producer_role i \<Longrightarrow> pk_producers (pk_resume u conv num N t e g) ! i = pk_producers g ! i"
  "role_of t \<noteq> Consumer_role j \<Longrightarrow> pk_consumers (pk_resume u conv num N t e g) ! j = pk_consumers g ! j"
  by (auto simp: pk_resume_def Let_def split: role.split pk_consumer_pc.split prod.split)

lemma pk_call_resume:
  assumes "v \<noteq> t"
  shows "pk_call conv N (pk_resume u conv num N t e g) v = pk_call conv N g v"
proof (cases "role_of v")
  case (Producer_role i)
  then have "role_of t \<noteq> Producer_role i" using roles_differ [OF assms] by auto
  from pk_resume_nth(1) [OF this, of u conv num N e g] Producer_role show ?thesis by (simp add: pk_call_def)
next
  case (Consumer_role j)
  then have "role_of t \<noteq> Consumer_role j" using roles_differ [OF assms] by auto
  from pk_resume_nth(2) [OF this, of u conv num N e g] Consumer_role show ?thesis
    by (simp add: pk_call_def split: pk_consumer_pc.split)
qed (simp add: pk_call_def)

lemma pk_resume_resume:
  assumes "v \<noteq> t"
  shows "pk_resume u conv num N v f (pk_resume u conv num N t e g) = pk_resume u conv num N t e (pk_resume u conv num N v f g)"
  using roles_differ [OF assms] roles_differ [OF assms [symmetric]]
  by (cases "role_of v"; cases "role_of t")
    (auto simp: pk_resume_def Let_def list_update_swap split: pk_consumer_pc.split prod.split)

text \<open>The main thread waits in \<^verbatim>\<open>join\<close> while a thread is in a call, and when it has just returned from one.\<close>

definition pk_busy :: "'v pack_bench \<Rightarrow> bool" where
  "pk_busy g \<longleftrightarrow> (\<exists>p \<in> set (pk_producers g). a_pc p \<noteq> A_done) \<or> (\<exists>k \<in> set (pk_consumers g). k_pc k \<noteq> K_done)"

lemma pk_caller_busy:
  assumes "pk_call conv N g t = Some jc"
  shows "pk_busy g"
  using assms
proof (cases rule: pk_call_cases)
  case (producer i p)
  then show ?thesis using nth_mem [of i "pk_producers g"] unfolding pk_busy_def by fastforce
next
  case (consumer j k st)
  then show ?thesis using nth_mem [of j "pk_consumers g"] unfolding pk_busy_def by fastforce
qed

lemma pk_caller_busy_after:
  assumes "pk_call conv N g t = Some jc"
  shows "pk_busy (pk_resume u conv num N t e g)"
  using assms
proof (cases rule: pk_call_cases)
  case (producer i p)
  then show ?thesis
    unfolding pk_busy_def using set_update_memI [of i "pk_producers g"]
    by (intro disjI1 bexI [of _ "pushed_turn num (pk_value conv N i (a_x p)) (returned e) p"]) (simp_all add: pk_resume_def Let_def)
next
  case (consumer j k st)
  obtain b v where "pop_answer e (k_v k) = (b, v)" by fastforce
  with consumer popped_pc [of u num st b v k] set_update_memI [of j "pk_consumers g"] show ?thesis
    unfolding pk_busy_def
    by (intro disjI2 bexI [of _ "popped_turn u num st b v k"]) (simp_all add: pk_resume_def Let_def)
qed

lemma pk_main_resume:
  assumes call: "pk_call conv N g t = Some jc" and own: "pk_main_step P C g = Some g'"
  shows "pk_main_step P C (pk_resume u conv num N t e g) = Some (pk_resume u conv num N t e g')"
proof (cases "pk_main g")
  case W_join
  have wait: "pk_main_step P C x = Some x" if "pk_main x = W_join" "pk_busy x" for x :: "'a pack_bench"
    using that by (auto simp: pk_main_step_def pk_busy_def)
  have "g' = g" using own wait [OF W_join pk_caller_busy [OF call]] by simp
  moreover have "pk_main_step P C (pk_resume u conv num N t e g) = Some (pk_resume u conv num N t e g)"
    by (rule wait) (simp_all add: W_join pk_caller_busy_after [OF call])
  ultimately show ?thesis by simp
next
  case W_producers
  then have "role_of t \<noteq> Consumer_role j" for j using call by (auto simp: pk_call_def)
  with W_producers own show ?thesis
    by (cases "role_of t") (auto simp: pk_main_step_def pk_resume_def Let_def split: if_splits)
qed (use own in \<open>auto simp: pk_main_step_def pk_resume_update\<close>)

lemma pk_producer_resume:
  assumes call: "pk_call conv N g t = Some jc" and i: "role_of t \<noteq> Producer_role i" "i < length (pk_producers g)"
    and none: "a_pc (pk_producers g ! i) = A_push \<Longrightarrow> \<not> a_x (pk_producers g ! i) < N"
    and own: "pk_producer_step u n conv num N i g = Some g'"
  shows "pk_producer_step u n conv num N i (pk_resume u conv num N t e g) = Some (pk_resume u conv num N t e g')"
proof -
  note same = pk_resume_nth(1) [OF i(1), of u conv num N e g]
  from call show ?thesis
  proof (cases rule: pk_call_cases)
    case (producer i' p)
    then have "i' \<noteq> i" using i(1) by auto
    with producer same none own show ?thesis
      by (cases "a_pc (pk_producers g ! i)")
        (auto simp: pk_producer_step_def pk_resume_def Let_def list_update_swap split: if_splits prod.splits)
  next
    case (consumer j k st)
    obtain b v where "pop_answer e (k_v k) = (b, v)" by fastforce
    with consumer same none own show ?thesis
      by (cases "a_pc (pk_producers g ! i)")
        (auto simp: pk_producer_step_def pk_resume_def Let_def split: if_splits prod.splits)
  qed
qed

lemma pk_consumer_resume:
  assumes call: "pk_call conv N g t = Some jc" and j: "role_of t \<noteq> Consumer_role j" "j < length (pk_consumers g)"
    and none: "\<And>st. k_pc (pk_consumers g ! j) \<noteq> K_pop st" and own: "pk_consumer_step u num j g = Some g'"
  shows "pk_consumer_step u num j (pk_resume u conv num N t e g) = Some (pk_resume u conv num N t e g')"
proof -
  note same = pk_resume_nth(2) [OF j(1), of u conv num N e g]
  from call show ?thesis
  proof (cases rule: pk_call_cases)
    case (producer i p)
    with same none own show ?thesis
      by (cases "k_pc (pk_consumers g ! j)")
        (auto simp: pk_consumer_step_def pk_resume_def Let_def split: if_splits prod.splits)
  next
    case (consumer j' k st)
    then have "j' \<noteq> j" using j(1) by auto
    moreover obtain b v where "pop_answer e (k_v k) = (b, v)" by fastforce
    ultimately show ?thesis using consumer same none own
      by (cases "k_pc (pk_consumers g ! j)")
        (auto simp: pk_consumer_step_def pk_resume_def Let_def list_update_swap split: if_splits prod.splits)
  qed
qed

lemma pk_call_none:
  "role_of v = Producer_role i \<Longrightarrow> pk_call conv N g v = (None :: (nat \<times> ('v, 'i) op) option) \<Longrightarrow> i < length (pk_producers g) \<Longrightarrow>
   a_pc (pk_producers g ! i) = A_push \<Longrightarrow> \<not> a_x (pk_producers g ! i) < N"
  "role_of v = Consumer_role j \<Longrightarrow> pk_call conv N g v = (None :: (nat \<times> ('v, 'i) op) option) \<Longrightarrow> j < length (pk_consumers g) \<Longrightarrow>
   pk_main g \<noteq> W_producers \<Longrightarrow> k_pc (pk_consumers g ! j) \<noteq> K_pop st"
  by (auto simp: pk_call_def split: if_splits)

lemma pk_own_resume:
  assumes ne: "v \<noteq> t" and t: "pk_call conv N g t = Some jc" and none: "pk_call conv N g v = (None :: (nat \<times> ('v::zero, 'i) op) option)"
    and own: "pk_own u conv num N P C v a g = Some g'"
  shows "pk_own u conv num N P C v a (pk_resume u conv num N t (e :: ('v, 'i) event) g) = Some (pk_resume u conv num N t e g')"
proof (cases "role_of v")
  case Main_role
  with own pk_main_resume [OF t] show ?thesis by (simp add: pk_own_def pk_act_of_def pk_step_def)
next
  case (Producer_role i)
  then have other: "role_of t \<noteq> Producer_role i" using roles_differ [OF ne] by auto
  have i: "i < length (pk_producers g)" "pk_producer_step u 0 conv num N i g = Some g'"
    using own Producer_role by (simp_all add: pk_own_def pk_step_def pk_act_of_def split: if_splits)
  from pk_producer_resume [OF t other i(1) pk_call_none(1) [OF Producer_role none i(1)] i(2)] Producer_role i(1) show ?thesis
    by (simp add: pk_own_def pk_step_def pk_act_of_def)
next
  case (Consumer_role j)
  then have other: "role_of t \<noteq> Consumer_role j" using roles_differ [OF ne] by auto
  have j: "pk_main g \<noteq> W_producers" "j < length (pk_consumers g)" "pk_consumer_step u num j g = Some g'"
    using own Consumer_role by (simp_all add: pk_own_def pk_step_def pk_act_of_def split: if_splits)
  from pk_consumer_resume [OF t other j(2) pk_call_none(2) [OF Consumer_role none j(2,1)] j(3)] Consumer_role j(1,2) show ?thesis
    by (simp add: pk_own_def pk_step_def pk_act_of_def)
qed

lemma pk_producer_frame:
  assumes "pk_producer_step u n conv num N i s = Some s'"
  shows "length (pk_producers s') = length (pk_producers s)" and "pk_consumers s' = pk_consumers s" and "pk_main s' = pk_main s"
    and "\<And>i'. i' \<noteq> i \<Longrightarrow> pk_producers s' ! i' = pk_producers s ! i'"
  using assms
  by (cases "a_pc (pk_producers s ! i)"; auto simp: pk_producer_step_def Let_def split: if_splits prod.splits option.splits)+

lemma pk_consumer_frame:
  assumes "pk_consumer_step u num j s = Some s'"
  shows "length (pk_consumers s') = length (pk_consumers s)" and "pk_producers s' = pk_producers s" and "pk_main s' = pk_main s"
    and "\<And>j'. j' \<noteq> j \<Longrightarrow> pk_consumers s' ! j' = pk_consumers s ! j'"
  using assms
  by (cases "k_pc (pk_consumers s ! j)"; auto simp: pk_consumer_step_def Let_def split: if_splits prod.splits option.splits)+

text \<open>A step of one thread does not change the calls of the others.\<close>

lemma pk_own_call:
  assumes own: "pk_own u conv num N P C v a g = Some g'" and t: "pk_call conv N g t = Some jc" and ne: "v \<noteq> t"
    and none: "pk_call conv N g v = (None :: (nat \<times> ('v::zero, 'i) op) option)"
  shows "pk_call conv N g' t = Some (jc :: nat \<times> ('v, 'i) op)"
proof (cases "role_of v")
  case Main_role
  with own t show ?thesis
    by (cases "pk_main g"; cases "role_of t")
      (auto simp: pk_own_def pk_act_of_def pk_step_def pk_main_step_def pk_call_def split: if_splits pk_consumer_pc.splits)
next
  case (Producer_role i)
  then have i: "i < length (pk_producers g)" "pk_producer_step u 0 conv num N i g = Some g'"
    using own by (simp_all add: pk_own_def pk_step_def pk_act_of_def split: if_splits)
  note frame = pk_producer_frame [OF i(2)]
  show ?thesis
  proof (cases "role_of t")
    case (Producer_role i')
    then have "i' \<noteq> i" using \<open>role_of v = Producer_role i\<close> roles_differ [OF ne] by auto
    with Producer_role frame t show ?thesis by (auto simp: pk_call_def split: if_splits)
  qed (use t frame in \<open>auto simp: pk_call_def split: if_splits pk_consumer_pc.splits\<close>)
next
  case (Consumer_role j)
  then have j: "pk_main g \<noteq> W_producers" "j < length (pk_consumers g)" "pk_consumer_step u num j g = Some g'"
    using own by (simp_all add: pk_own_def pk_step_def pk_act_of_def split: if_splits)
  note frame = pk_consumer_frame [OF j(3)]
  show ?thesis
  proof (cases "role_of t")
    case (Consumer_role j')
    then have "j' \<noteq> j" using \<open>role_of v = Consumer_role j\<close> roles_differ [OF ne] by auto
    with frame(4) have "pk_consumers g' ! j' = pk_consumers g ! j'" by blast
    with Consumer_role frame t show ?thesis by (auto simp: pk_call_def split: if_splits pk_consumer_pc.splits)
  qed (use t frame in \<open>simp_all add: pk_call_def split: if_splits\<close>)
qed

interpretation pk_prog: queues_client "pk_program u conv num N P C :: (unit, 'v::zero pack_bench, 'v, 'l::len word) queues_program"
proof
  let ?K = "pk_program u conv num N P C :: (unit, 'v pack_bench, 'v, 'l word) queues_program"
  fix v t :: nat and g g' :: "'v pack_bench" and c d :: "nat \<times> ('v, 'l word) op" and e f :: "('v, 'l word) event" and a :: unit
  show "call_of ?K (resume ?K t e g) v = Some d" if "v \<noteq> t" "call_of ?K g v = Some d"
    using that by (simp add: pk_call_resume)
  show "halted ?K (resume ?K t e g) = halted ?K g" by simp
  show "resume ?K v f (resume ?K t e g) = resume ?K t e (resume ?K v f g)" if "v \<noteq> t"
    using pk_resume_resume [OF that] by simp
  show "call_of ?K (resume ?K t e g) v = None \<and> own_step ?K v a (resume ?K t e g) = Some (resume ?K t e g')"
    if "v \<noteq> t" "call_of ?K g t = Some c" "call_of ?K g v = None" "own_step ?K v a g = Some g'"
    using pk_own_resume [of v t conv N g c u num P C a g' e] that by (simp add: pk_call_resume)
  show "call_of ?K g' t = Some c" if "own_step ?K v a g = Some g'" "call_of ?K g t = Some c" "call_of ?K g v = None"
  proof -
    have "v \<noteq> t" using that(2,3) by auto
    from pk_own_call [OF that(1) [unfolded pk_program_fields] that(2) [unfolded pk_program_fields] this that(3) [unfolded pk_program_fields]]
    show ?thesis by simp
  qed
qed

section \<open>On abstract queues it is the model of PackBench\<close>

text \<open>The program with the lists of the abstract queues in its pack.\<close>

definition with_lists :: "tested_queue \<Rightarrow> (nat \<Rightarrow> nat \<times> 'v list) \<Rightarrow> 'v pack_bench \<Rightarrow> 'v pack_bench" where
  "with_lists u Q g = g\<lparr>qpack := (qpack g)\<lparr>queues := map (\<lambda>j. snd (Q j)) [0..<unat (groups u)]\<rparr>\<rparr>"

lemma with_lists_fields [simp]:
  "pk_producers (with_lists u Q g) = pk_producers g" "pk_consumers (with_lists u Q g) = pk_consumers g"
  "prod_sum (with_lists u Q g) = prod_sum g" "cons_sum (with_lists u Q g) = cons_sum g"
  "active_producers (with_lists u Q g) = active_producers g" "active_consumers (with_lists u Q g) = active_consumers g"
  "benchmark_state (with_lists u Q g) = benchmark_state g" "consumers_pops (with_lists u Q g) = consumers_pops g"
  "pk_main (with_lists u Q g) = pk_main g" "queues (qpack (with_lists u Q g)) = map (\<lambda>j. snd (Q j)) [0..<unat (groups u)]"
  by (simp_all add: with_lists_def)

lemma with_lists_put:
  assumes "j < unat (groups u)"
  shows "(qpack (with_lists u Q g))\<lparr>queues := (map (\<lambda>j. snd (Q j)) [0..<unat (groups u)])[j := xs]\<rparr> =
    qpack (with_lists u (Q(j := (h, xs))) g)"
proof -
  have "(map (\<lambda>j. snd (Q j)) [0..<unat (groups u)])[j := xs] = map (\<lambda>i. snd ((Q(j := (h, xs))) i)) [0..<unat (groups u)]"
    using assms by (auto simp: nth_list_update intro!: nth_equalityI)
  then show ?thesis by (simp add: with_lists_def)
qed

lemma accessor_lists:
  "producer_accessor u (p\<lparr>queues := qs\<rparr>) = (fst (producer_accessor u p), (snd (producer_accessor u p))\<lparr>queues := qs\<rparr>)"
  "consumer_accessor u (p\<lparr>queues := qs\<rparr>) = (fst (consumer_accessor u p), (snd (consumer_accessor u p))\<lparr>queues := qs\<rparr>)"
  by (cases u; simp add: producer_new_def consumer_new_def)+

lemma pk_producer_lists:
  assumes "pk_producer_step u 0 conv num N i g = Some g'" and "a_pc (pk_producers g ! i) = A_push \<Longrightarrow> \<not> a_x (pk_producers g ! i) < N"
  shows "pk_producer_step u n conv num N i (with_lists u Q g) = Some (with_lists u Q g')"
  using assms
  by (cases "a_pc (pk_producers g ! i)")
    (auto simp: pk_producer_step_def with_lists_def accessor_lists Let_def split: if_splits prod.splits)

lemma pk_consumer_lists:
  assumes "pk_consumer_step u num j g = Some g'" and "\<And>st. k_pc (pk_consumers g ! j) \<noteq> K_pop st"
  shows "pk_consumer_step u num j (with_lists u Q g) = Some (with_lists u Q g')"
  using assms
  by (cases "k_pc (pk_consumers g ! j)")
    (auto simp: pk_consumer_step_def with_lists_def accessor_lists Let_def split: if_splits prod.splits)

lemma pk_own_lists:
  assumes none: "pk_call conv N g t = (None :: (nat \<times> ('v::zero, 'i) op) option)" and own: "pk_own u conv num N P C t a g = Some g'"
  shows "pk_step u n conv num N P C (pk_act_of t) (with_lists u Q g) = Some (with_lists u Q g')"
proof (cases "role_of t")
  case Main_role
  with own show ?thesis
    by (cases "pk_main g") (auto simp: pk_own_def pk_act_of_def pk_step_def pk_main_step_def with_lists_def split: if_splits)
next
  case (Producer_role i)
  then have i: "i < length (pk_producers g)" "pk_producer_step u 0 conv num N i g = Some g'"
    using own by (simp_all add: pk_own_def pk_step_def pk_act_of_def split: if_splits)
  from pk_producer_lists [OF i(2) pk_call_none(1) [OF Producer_role none i(1)]] i(1) Producer_role show ?thesis
    by (simp add: pk_step_def pk_act_of_def)
next
  case (Consumer_role j)
  then have j: "pk_main g \<noteq> W_producers" "j < length (pk_consumers g)" "pk_consumer_step u num j g = Some g'"
    using own by (simp_all add: pk_own_def pk_step_def pk_act_of_def split: if_splits)
  from pk_consumer_lists [OF j(3) pk_call_none(2) [OF Consumer_role none j(2,1)]] j(2) Consumer_role show ?thesis
    by (simp add: pk_step_def pk_act_of_def)
qed

text \<open>A call that takes effect at once is a step of the abstract model.\<close>

lemma pk_event_lists:
  assumes call: "pk_call conv N g t = Some (j, c)" and ans: "answers c (e :: ('v::zero, 'l::len word) event)"
    and spec: "spec_step n (Q j) e = Some hx" and ok: "pack_bench_ok u num N P C (with_lists u Q g)"
  shows "pk_step u n conv num N P C (pk_act_of t) (with_lists u Q g) = Some (with_lists u (Q(j := hx)) (pk_resume u conv num N t e g))"
proof -
  obtain h xs h' xs' where Q: "Q j = (h, xs)" and hx: "hx = (h', xs')" by (cases "Q j"; cases hx)
  let ?qs = "map (\<lambda>j. snd (Q j)) [0..<unat (groups u)]"
  from call show ?thesis
  proof (cases rule: pk_call_cases)
    case (producer i p)
    then have j: "j = unat (queue_index (a_pro p))" and c: "c = Push (pk_value conv N i (a_x p))" by simp_all
    have "pk_producer_ok u N p" using ok producer(2,3) by (auto simp: pack_bench_ok_def)
    then have lt: "j < unat (groups u)" using producer(4) j by (simp add: pk_producer_ok_def)
    have "q_push n (pk_value conv N i (a_x p)) xs = (returned e, xs')"
      using ans spec c Q hx by (cases e) (auto simp: q_push_def split: if_splits)
    then have "producer_push (list_push n) (a_pro p) (pk_value conv N i (a_x p)) (qpack (with_lists u Q g)) =
        Some (returned e, qpack (with_lists u (Q(j := hx)) g))"
      using lt j Q hx with_lists_put [OF lt, of Q xs' g h'] by (simp add: producer_push_def list_push_def)
    with producer show ?thesis
      by (simp add: pk_step_def pk_act_of_def pk_producer_step_def pk_resume_def Let_def) (simp add: with_lists_def)
  next
    case (consumer i k st)
    then have j: "j = unat (read_queue_index (k_con k))" and c: "c = Pop" by simp_all
    have "pk_consumer_ok u k" using ok consumer(3,4) by (auto simp: pack_bench_ok_def)
    then have lt: "j < unat (groups u)" using consumer(5) j by (simp add: pk_consumer_ok_def reads_in_def)
    obtain b v where bv: "pop_answer e (k_v k) = (b, v)" by fastforce
    then have "list_pop (k_v k) xs = Some (b, v, xs')"
      using ans spec c Q hx by (cases e) (auto simp: list_pop_def split: if_splits list.splits)
    then have "pop_current list_pop (k_con k) (k_v k) (qpack (with_lists u Q g)) = Some (b, v, qpack (with_lists u (Q(j := hx)) g))"
      using lt j Q hx with_lists_put [OF lt, of Q xs' g h'] by (simp add: pop_current_def)
    with consumer bv show ?thesis
      by (simp add: pk_step_def pk_act_of_def pk_consumer_step_def pk_resume_def Let_def) (simp add: with_lists_def)
  qed
qed

lemma pk_run_append:
  "pk_run u n conv num N P C (as @ bs) s = Option.bind (pk_run u n conv num N P C as s) (pk_run u n conv num N P C bs)"
  by (induction as arbitrary: s) (auto split: bind_split)

lemma pk_reach:
  assumes "queues_reach (pk_program u conv num N P C :: (unit, 'v::zero pack_bench, 'v, 'l::len word) queues_program) n (pack_bench_start u P C) Q g"
    and "0 < groups u"
  shows "\<exists>as. pk_run u n conv num N P C as (pack_bench_start u P C) = Some (with_lists u Q g)"
  using assms
proof (induction rule: queues_reach.induct)
  case queues_start
  show ?case by (rule exI [of _ "[]"]) (simp add: with_lists_def pack_bench_start_def map_replicate_const)
next
  case (queues_own_step Q g t a g')
  then obtain as where "pk_run u n conv num N P C as (pack_bench_start u P C) = Some (with_lists u Q g)" by blast
  moreover have "pk_step u n conv num N P C (pk_act_of t) (with_lists u Q g) = Some (with_lists u Q g')"
    using pk_own_lists [of conv N g t u num P C a g' n Q] queues_own_step.hyps by simp
  ultimately show ?case by (intro exI [of _ "as @ [pk_act_of t]"]) (simp add: pk_run_append)
next
  case (queues_event Q g t j c e hx)
  then obtain as where as: "pk_run u n conv num N P C as (pack_bench_start u P C) = Some (with_lists u Q g)" by blast
  have "pack_bench_ok u num N P C (with_lists u Q g)" by (rule pk_run_ok [OF pack_bench_start_ok [OF queues_event.prems] as])
  then have "pk_step u n conv num N P C (pk_act_of t) (with_lists u Q g) = Some (with_lists u (Q(j := hx)) (pk_resume u conv num N t e g))"
    using pk_event_lists [of conv N g t j c e n Q hx u num P C] queues_event.hyps by simp
  with as show ?case by (intro exI [of _ "as @ [pk_act_of t]"]) (simp add: pk_run_append del: fun_upd_apply)
qed

section \<open>The report\<close>

theorem pack_queues_report:
  fixes q :: "nat \<Rightarrow> ('v::zero, 'l::len) queue"
  assumes run: "queues_run (pk_program u conv num N P C) lp lo (\<lambda>j. initial (q j)) (pack_bench_start u P C) ms S g"
    and fr: "fresh_queues lp lo n (\<lambda>j. initial (q j)) ms S" and q: "\<And>j. rep (q j) n 0 0 0 []"
    and report: "pk_main g = W_report" and u: "0 < groups u"
  shows "\<exists>Q. (\<forall>j. holds (mem (S j)) n (fst (Q j)) (snd (Q j))) \<and>
    prod_sum g = cons_sum g + sum_list (map num (concat (map (\<lambda>j. snd (Q j)) [0..<unat (groups u)]))) \<and>
    pk_total_pops g + of_nat (length (concat (map (\<lambda>j. snd (Q j)) [0..<unat (groups u)]))) = ucast P * ucast N"
proof -
  let ?K = "pk_program u conv num N P C :: (unit, 'v pack_bench, 'v, 'l word) queues_program"
  obtain Q and ds :: "(nat \<times> ('v, 'l word) event) list" where st: "\<forall>j. sim n (S j) (fst (Q j)) (snd (Q j))"
      "queues_reach ?K n (pack_bench_start u P C) Q (pk_prog.resumed u conv num N P C ds g)" "pk_prog.tracked u conv num N P C S g ds"
    using pk_prog.queues_refine [OF run fr q] by blast
  have due: "pk_prog.due u conv num N P C ds g" by (rule pk_prog.tracked_at(3) [OF st(3)])
  obtain as where as: "pk_run u n conv num N P C as (pack_bench_start u P C) = Some (with_lists u Q (pk_prog.resumed u conv num N P C ds g))"
    using pk_reach [OF st(2) u] by blast
  note ok = pk_run_ok [OF pack_bench_start_ok [OF u] as]
  have main: "pk_main (pk_prog.resumed u conv num N P C ds' g) = W_report" for ds' :: "(nat \<times> ('v, 'l word) event) list"
    using report by (induction ds') auto
  have "ds = []"
  proof (rule pk_prog.nothing_due [OF due, where P = "\<lambda>x. \<not> pk_busy x"])
    show "\<not> pk_busy (pk_prog.resumed u conv num N P C ds g)"
      using ok main [of ds] by (auto simp: pack_bench_ok_def pk_busy_def)
  qed (auto dest: pk_caller_busy_after)
  with ok have "pack_bench_ok u num N P C (with_lists u Q g)" by simp
  from pack_bench_report [OF this] report st(1) show ?thesis
    by (intro exI [of _ Q]) (auto simp: left_over_def pk_total_pops_def intro: rep_holds sim_rep)
qed

end
