(* ===== verification/PackUse.thy ===== *)
theory PackUse
  imports Clients PackSteps "HOL-Library.Multiset" "HOL-Library.Sublist"
begin

text \<open>
  Threads that share a pack, on the lock-free queues: any number of producers and consumers, each with an accessor of its own, which
  push and pop whatever and whenever they like. The accessors are those of \<open>PackSteps\<close>, so that the pack may be a single queue.
  The logs of a thread record what its successful operations moved; they do not influence what it does.
\<close>

section \<open>The program\<close>

record 'v pusher =
  pu_accessor :: "producer option"
  pu_pending :: "'v option"
  pu_log :: "'v list"

record 'v popper =
  po_accessor :: "consumer option"
  po_stage :: "pop_stage option"
  po_d :: 'v
  po_log :: "(nat \<times> 'v) list"

text \<open>Of the pack only the counters are in the state of the program; its queues are those of the run.\<close>

record 'v pack_use =
  counters :: "unit pack"
  pushers :: "'v pusher list"
  poppers :: "'v popper list"

definition use_start :: "nat \<Rightarrow> nat \<Rightarrow> 'v::zero pack_use" where
  "use_start P C =
     \<lparr>counters = \<lparr>queues = [], writers_count = 0, readers_count = 0\<rparr>,
      pushers = replicate P \<lparr>pu_accessor = None, pu_pending = None, pu_log = []\<rparr>,
      poppers = replicate C \<lparr>po_accessor = None, po_stage = None, po_d = 0, po_log = []\<rparr>\<rparr>"

datatype 'v use_act = Open_accessor | Push_value 'v | Pop_value

definition use_own :: "tested_queue \<Rightarrow> nat \<Rightarrow> 'v use_act \<Rightarrow> 'v pack_use \<Rightarrow> 'v pack_use option" where
  "use_own u t a g =
     (case role_of t of
        Main_role \<Rightarrow> None
      | Producer_role i \<Rightarrow>
          if i < length (pushers g) then
            (let p = pushers g ! i
             in case (a, pu_accessor p, pu_pending p) of
                  (Open_accessor, None, None) \<Rightarrow>
                    (case producer_accessor u (counters g) of
                       (pr, c) \<Rightarrow> Some (g\<lparr>counters := c, pushers := (pushers g)[i := p\<lparr>pu_accessor := Some pr\<rparr>]\<rparr>))
                | (Push_value v, Some pr, None) \<Rightarrow> Some (g\<lparr>pushers := (pushers g)[i := p\<lparr>pu_pending := Some v\<rparr>]\<rparr>)
                | _ \<Rightarrow> None)
          else None
      | Consumer_role j \<Rightarrow>
          if j < length (poppers g) then
            (let p = poppers g ! j
             in case (a, po_accessor p, po_stage p) of
                  (Open_accessor, None, None) \<Rightarrow>
                    (case consumer_accessor u (counters g) of
                       (co, c) \<Rightarrow> Some (g\<lparr>counters := c, poppers := (poppers g)[j := p\<lparr>po_accessor := Some co\<rparr>]\<rparr>))
                | (Pop_value, Some co, None) \<Rightarrow> Some (g\<lparr>poppers := (poppers g)[j := p\<lparr>po_stage := Some Pop_first\<rparr>]\<rparr>)
                | _ \<Rightarrow> None)
          else None)"

definition use_call :: "'v pack_use \<Rightarrow> nat \<Rightarrow> (nat \<times> ('v, 'i) op) option" where
  "use_call g t =
     (case role_of t of
        Main_role \<Rightarrow> None
      | Producer_role i \<Rightarrow>
          if i < length (pushers g) then
            (case (pu_accessor (pushers g ! i), pu_pending (pushers g ! i)) of
               (Some pr, Some v) \<Rightarrow> Some (unat (queue_index pr), Push v) | _ \<Rightarrow> None)
          else None
      | Consumer_role j \<Rightarrow>
          if j < length (poppers g) then
            (case (po_accessor (poppers g ! j), po_stage (poppers g ! j)) of
               (Some co, Some st) \<Rightarrow> Some (unat (read_queue_index co), Pop) | _ \<Rightarrow> None)
          else None)"

text \<open>The results: a push returns what its queue said, a pop goes on with the next queue or returns.\<close>

definition push_return :: "bool \<Rightarrow> 'v \<Rightarrow> 'v pusher \<Rightarrow> 'v pusher" where
  "push_return b v p = p\<lparr>pu_pending := None, pu_log := (if b then pu_log p @ [v] else pu_log p)\<rparr>"

definition pop_return :: "tested_queue \<Rightarrow> consumer \<Rightarrow> pop_stage \<Rightarrow> ('v, 'i) event \<Rightarrow> 'v popper \<Rightarrow> 'v popper" where
  "pop_return u co st e p =
     (case e of
        Popped i v \<Rightarrow>
          p\<lparr>po_accessor := Some (snd (accessor_turn u st True co)), po_stage := None, po_d := v,
            po_log := po_log p @ [(unat (read_queue_index co), v)]\<rparr>
      | _ \<Rightarrow>
          (case accessor_turn u st False co of
             (Inl r, co') \<Rightarrow> p\<lparr>po_accessor := Some co', po_stage := None\<rparr>
           | (Inr st', co') \<Rightarrow> p\<lparr>po_accessor := Some co', po_stage := Some st'\<rparr>))"

definition use_resume :: "tested_queue \<Rightarrow> nat \<Rightarrow> ('v, 'i) event \<Rightarrow> 'v pack_use \<Rightarrow> 'v pack_use" where
  "use_resume u t e g =
     (case role_of t of
        Main_role \<Rightarrow> g
      | Producer_role i \<Rightarrow>
          (case pu_pending (pushers g ! i) of
             None \<Rightarrow> g | Some v \<Rightarrow> g\<lparr>pushers := (pushers g)[i := push_return (returned e) v (pushers g ! i)]\<rparr>)
      | Consumer_role j \<Rightarrow>
          (case (po_accessor (poppers g ! j), po_stage (poppers g ! j)) of
             (Some co, Some st) \<Rightarrow> g\<lparr>poppers := (poppers g)[j := pop_return u co st e (poppers g ! j)]\<rparr>
           | _ \<Rightarrow> g))"

definition use_program :: "tested_queue \<Rightarrow> ('v use_act, 'v pack_use, 'v, 'i) queues_program" where
  "use_program u = \<lparr>call_of = use_call, resume = use_resume u, own_step = use_own u, halted = (\<lambda>g. False)\<rparr>"

lemma use_program_fields [simp]:
  "call_of (use_program u) = use_call" "resume (use_program u) = use_resume u" "own_step (use_program u) = use_own u"
  "halted (use_program u) g = False"
  by (simp_all add: use_program_def)

section \<open>The threads do not look at each other\<close>

lemma use_call_cases:
  assumes "use_call g t = Some jc"
  obtains (pusher) i p pr v where "role_of t = Producer_role i" and "i < length (pushers g)" and "pushers g ! i = p"
      and "pu_accessor p = Some pr" and "pu_pending p = Some v" and "jc = (unat (queue_index pr), Push v)"
    | (popper) j p co st where "role_of t = Consumer_role j" and "j < length (poppers g)" and "poppers g ! j = p"
      and "po_accessor p = Some co" and "po_stage p = Some st" and "jc = (unat (read_queue_index co), Pop)"
  using assms by (auto simp: use_call_def split: role.splits if_splits option.splits)

lemma use_own_cases:
  assumes "use_own u t a g = Some g'"
  obtains (pusher) i p where "role_of t = Producer_role i" and "i < length (pushers g)" and "pu_pending (pushers g ! i) = None"
      and "pushers g' = (pushers g)[i := p]" and "poppers g' = poppers g"
    | (popper) j p where "role_of t = Consumer_role j" and "j < length (poppers g)" and "po_stage (poppers g ! j) = None"
      and "poppers g' = (poppers g)[j := p]" and "pushers g' = pushers g"
  using assms
  by (cases "role_of t") (auto simp: use_own_def Let_def split: if_splits option.splits use_act.splits prod.splits)

lemma use_resume_frame [simp]:
  "counters (use_resume u t e g) = counters g" "length (pushers (use_resume u t e g)) = length (pushers g)"
  "length (poppers (use_resume u t e g)) = length (poppers g)"
  "role_of t \<noteq> Producer_role i \<Longrightarrow> pushers (use_resume u t e g) ! i = pushers g ! i"
  "role_of t \<noteq> Consumer_role j \<Longrightarrow> poppers (use_resume u t e g) ! j = poppers g ! j"
  by (auto simp: use_resume_def split: role.split option.split)

lemma use_call_resume:
  assumes "v \<noteq> t"
  shows "use_call (use_resume u t e g) v = use_call g v"
  using roles_differ [OF assms] by (cases "role_of v") (auto simp: use_call_def)

lemma use_resume_resume:
  assumes "v \<noteq> t"
  shows "use_resume u v f (use_resume u t e g) = use_resume u t e (use_resume u v f g)"
  using roles_differ [OF assms] roles_differ [OF assms [symmetric]]
  by (cases "role_of v"; cases "role_of t") (auto simp: use_resume_def list_update_swap split: option.split)

lemma use_own_resume:
  assumes "v \<noteq> t" and "use_own u v a g = Some g'"
  shows "use_own u v a (use_resume u t e g) = Some (use_resume u t e g')"
proof (cases "role_of v")
  case (Producer_role i)
  then have "role_of t \<noteq> Producer_role i" using roles_differ [OF assms(1)] by auto
  with Producer_role assms(2) show ?thesis
    by (cases "role_of t")
      (auto simp: use_own_def use_resume_def Let_def list_update_swap split: if_splits option.splits use_act.splits prod.splits)
next
  case (Consumer_role j)
  then have "role_of t \<noteq> Consumer_role j" using roles_differ [OF assms(1)] by auto
  with Consumer_role assms(2) show ?thesis
    by (cases "role_of t")
      (auto simp: use_own_def use_resume_def Let_def list_update_swap split: if_splits option.splits use_act.splits prod.splits)
qed (use assms in \<open>simp add: use_own_def\<close>)

lemma use_own_call:
  assumes "use_own u v a g = Some g'" and "v \<noteq> t"
  shows "use_call g' t = use_call g t"
  using assms(1)
proof (cases rule: use_own_cases)
  case (pusher i p)
  with roles_differ [OF assms(2)] show ?thesis by (cases "role_of t") (auto simp: use_call_def nth_list_update)
next
  case (popper j p)
  with roles_differ [OF assms(2)] show ?thesis by (cases "role_of t") (auto simp: use_call_def nth_list_update)
qed

interpretation use_prog: queues_client "use_program u :: ('v::zero use_act, 'v pack_use, 'v, 'l::len word) queues_program"
proof
  let ?K = "use_program u :: ('v use_act, 'v pack_use, 'v, 'l word) queues_program"
  fix v t :: nat and g g' :: "'v pack_use" and c d :: "nat \<times> ('v, 'l word) op" and e f :: "('v, 'l word) event" and a :: "'v use_act"
  show "call_of ?K (resume ?K t e g) v = Some d" if "v \<noteq> t" "call_of ?K g v = Some d"
    using that by (simp add: use_call_resume)
  show "halted ?K (resume ?K t e g) = halted ?K g" by simp
  show "resume ?K v f (resume ?K t e g) = resume ?K t e (resume ?K v f g)" if "v \<noteq> t"
    using use_resume_resume [OF that] by simp
  show "call_of ?K (resume ?K t e g) v = None \<and> own_step ?K v a (resume ?K t e g) = Some (resume ?K t e g')"
    if "v \<noteq> t" "call_of ?K g v = None" "own_step ?K v a g = Some g'"
    using use_own_resume [of v t u a g g' e] that by (simp add: use_call_resume)
  show "call_of ?K g' t = Some c" if "own_step ?K v a g = Some g'" "call_of ?K g t = Some c" "call_of ?K g v = None"
  proof -
    have "v \<noteq> t" using that(2,3) by auto
    with that(1) use_own_call [of u v a g g' t] have "use_call g' t = (use_call g t :: (nat \<times> ('v, 'l word) op) option)" by simp
    with that(2) show ?thesis by simp
  qed
qed

section \<open>The history of a queue\<close>

text \<open>
  The list \<open>hist\<close> of everything that was ever pushed to a queue, in order: its first elements have been popped and the others are
  in the queue. What each thread pushed, and what each thread popped, is a subsequence, and nothing else was pushed or popped.
\<close>

definition history :: "nat \<times> 'v list \<Rightarrow> 'v list \<Rightarrow> 'v list list \<Rightarrow> 'v list list \<Rightarrow> bool" where
  "history hx hist pl cl \<longleftrightarrow>
     fst hx \<le> length hist \<and> snd hx = drop (fst hx) hist \<and>
     (\<forall>l \<in> set pl. subseq l hist) \<and> mset hist = sum_list (map mset pl) \<and>
     (\<forall>l \<in> set cl. subseq l (take (fst hx) hist)) \<and> mset (take (fst hx) hist) = sum_list (map mset cl)"

lemma history_start: "history (0, []) [] (replicate P []) (replicate C ([] :: 'a list))"
proof -
  have "sum_list (replicate k ({#} :: 'a multiset)) = {#}" for k by (induction k) simp_all
  then show ?thesis by (simp add: history_def)
qed

lemma sum_list_msets_snoc:
  "i < length ls \<Longrightarrow> sum_list (map mset (ls[i := ls ! i @ [v]])) = add_mset v (sum_list (map mset ls))"
  using sum_update_add [of i ls mset "ls ! i @ [v]"] by (simp add: add.commute)

lemma history_push:
  assumes "history (h, xs) hist pl cl" and "i < length pl"
  shows "history (h, xs @ [v]) (hist @ [v]) (pl[i := pl ! i @ [v]]) cl"
proof -
  have "subseq l (hist @ [v])" if "l \<in> set (pl[i := pl ! i @ [v]])" for l
  proof -
    have "l = pl ! i @ [v] \<or> l \<in> set pl" using that set_update_subset_insert by fastforce
    with assms show ?thesis by (auto simp: history_def subseq_rev_drop_many)
  qed
  with assms show ?thesis by (auto simp: history_def sum_list_msets_snoc)
qed

lemma history_pop:
  assumes hist: "history (h, v # ys) hist pl cl" and k: "k < length cl"
  shows "history (h + 1, ys) hist pl (cl[k := cl ! k @ [v]])"
proof -
  have next_v: "h < length hist" "hist ! h = v" "ys = drop (h + 1) hist"
  proof -
    have d: "drop h hist = v # ys" using hist by (simp add: history_def)
    then show "h < length hist" by (metis drop_all list.distinct(1) not_le)
    show "hist ! h = v" by (rule nth_via_drop [OF d])
    show "ys = drop (h + 1) hist" using d by (metis add.commute drop_drop drop0 drop_Suc_Cons plus_1_eq_Suc)
  qed
  have take: "take (h + 1) hist = take h hist @ [v]" using next_v by (simp add: take_Suc_conv_app_nth)
  have "subseq l (take h hist @ [v])" if "l \<in> set (cl[k := cl ! k @ [v]])" for l
  proof -
    have "l = cl ! k @ [v] \<or> l \<in> set cl" using that set_update_subset_insert by fastforce
    with hist k show ?thesis by (auto simp: history_def subseq_rev_drop_many)
  qed
  with hist k next_v take show ?thesis by (auto simp: history_def sum_list_msets_snoc)
qed

text \<open>What a producer pushed to queue \<open>j\<close>, and what a consumer took from it.\<close>

definition pushed_to :: "nat \<Rightarrow> 'v pusher \<Rightarrow> 'v list" where
  "pushed_to j p = (case pu_accessor p of Some pr \<Rightarrow> if unat (queue_index pr) = j then pu_log p else [] | None \<Rightarrow> [])"

definition taken_from :: "nat \<Rightarrow> 'v popper \<Rightarrow> 'v list" where
  "taken_from j p = map snd (filter (\<lambda>x. fst x = j) (po_log p))"

definition pusher_wf :: "tested_queue \<Rightarrow> 'v pusher \<Rightarrow> bool" where
  "pusher_wf u p = (case pu_accessor p of None \<Rightarrow> pu_log p = [] | Some pr \<Rightarrow> unat (queue_index pr) < unat (groups u))"

definition popper_wf :: "tested_queue \<Rightarrow> 'v popper \<Rightarrow> bool" where
  "popper_wf u p \<longleftrightarrow>
     (case po_accessor p of None \<Rightarrow> True | Some co \<Rightarrow> reads_in (groups u) co) \<and> (\<forall>x \<in> set (po_log p). fst x < unat (groups u))"

definition use_wf :: "tested_queue \<Rightarrow> 'v pack_use \<Rightarrow> bool" where
  "use_wf u g \<longleftrightarrow> (\<forall>p \<in> set (pushers g). pusher_wf u p) \<and> (\<forall>p \<in> set (poppers g). popper_wf u p)"

lemma use_wf_update:
  "use_wf u g \<Longrightarrow> i < length (pushers g) \<Longrightarrow> pusher_wf u p \<Longrightarrow> pushers g' = (pushers g)[i := p] \<Longrightarrow> poppers g' = poppers g \<Longrightarrow> use_wf u g'"
  "use_wf u g \<Longrightarrow> i < length (poppers g) \<Longrightarrow> popper_wf u r \<Longrightarrow> poppers g' = (poppers g)[i := r] \<Longrightarrow> pushers g' = pushers g \<Longrightarrow> use_wf u g'"
  unfolding use_wf_def using ball_update by metis+

definition logged :: "(nat \<Rightarrow> nat \<times> 'v list) \<Rightarrow> 'v pack_use \<Rightarrow> bool" where
  "logged Q g \<longleftrightarrow> (\<forall>j. \<exists>hist. history (Q j) hist (map (pushed_to j) (pushers g)) (map (taken_from j) (poppers g)))"

lemma use_start_ok: "use_wf u (use_start P C)" "logged (\<lambda>j. (0, [])) (use_start P C)"
  by (auto simp: use_wf_def pusher_wf_def popper_wf_def logged_def use_start_def pushed_to_def taken_from_def map_replicate_const intro: history_start)

lemma same_logs:
  assumes "logged Q g" and "\<And>j. map (pushed_to j) (pushers g') = map (pushed_to j) (pushers g)"
    and "\<And>j. map (taken_from j) (poppers g') = map (taken_from j) (poppers g)"
  shows "logged Q g'"
  using assms by (simp add: logged_def)

lemma map_update_same: "f y = f (xs ! i) \<Longrightarrow> map f (xs[i := y]) = map f xs"
  by (metis list_update_id map_update)

lemma use_own_ok:
  assumes own: "use_own u t a g = Some g'" and wf: "use_wf u g" and u: "0 < groups u" and log: "logged Q g"
  shows "use_wf u g' \<and> logged Q g'"
proof (cases "role_of t")
  case (Producer_role i)
  let ?p = "pushers g ! i"
  from own Producer_role obtain p where i: "i < length (pushers g)" "pushers g' = (pushers g)[i := p]" "poppers g' = poppers g"
      "pu_log p = pu_log ?p" "pu_accessor p = pu_accessor ?p \<or>
        pu_accessor ?p = None \<and> pu_accessor p = Some (fst (producer_accessor u (counters g)))"
    by (auto simp: use_own_def Let_def split: if_splits option.splits use_act.splits prod.splits)
  have old: "pusher_wf u ?p" using wf i(1) by (simp add: use_wf_def)
  then have "pusher_wf u p" using i(4,5) accessor_new(1) [OF u, of "counters g"] by (auto simp: pusher_wf_def split: option.splits)
  then have "use_wf u g'" using use_wf_update(1) [OF wf i(1)] i(2,3) by simp
  moreover have "pushed_to j p = pushed_to j ?p" for j using i(4,5) old by (auto simp: pushed_to_def pusher_wf_def split: option.splits)
  then have "logged Q g'" by (intro same_logs [OF log]) (simp_all add: i(2,3) map_update_same)
  ultimately show ?thesis ..
next
  case (Consumer_role j)
  let ?p = "poppers g ! j"
  from own Consumer_role obtain p where j: "j < length (poppers g)" "poppers g' = (poppers g)[j := p]" "pushers g' = pushers g"
      "po_log p = po_log ?p" "po_accessor p = po_accessor ?p \<or> po_accessor p = Some (fst (consumer_accessor u (counters g)))"
    by (auto simp: use_own_def Let_def split: if_splits option.splits use_act.splits prod.splits)
  have "popper_wf u ?p" using wf j(1) by (simp add: use_wf_def)
  then have "popper_wf u p" using j(4,5) accessor_new(2) [OF u, of "counters g"] by (auto simp: popper_wf_def split: option.splits)
  then have "use_wf u g'" using use_wf_update(2) [OF wf j(1)] j(2,3) by simp
  moreover have "logged Q g'" by (intro same_logs [OF log]) (simp_all add: j(2-4) map_update_same taken_from_def)
  ultimately show ?thesis ..
qed (use own in \<open>simp add: use_own_def\<close>)

lemma logged_push:
  assumes log: "logged Q g" and Q: "Q j = (h, xs)" and i: "i < length (pushers g)"
    and p: "pu_accessor (pushers g ! i) = Some pr" "unat (queue_index pr) = j"
  shows "logged (Q(j := (h, xs @ [v]))) (g\<lparr>pushers := (pushers g)[i := push_return True v (pushers g ! i)]\<rparr>)"
  unfolding logged_def
proof
  fix k
  let ?p = "pushers g ! i"
  obtain hist where hist: "history (Q k) hist (map (pushed_to k) (pushers g)) (map (taken_from k) (poppers g))"
    using log by (auto simp: logged_def)
  have at: "pushed_to k (push_return True v ?p) = (if k = j then pushed_to k ?p @ [v] else pushed_to k ?p)"
    using p by (auto simp: pushed_to_def push_return_def)
  show "\<exists>hist. history ((Q(j := (h, xs @ [v]))) k) hist
      (map (pushed_to k) (pushers (g\<lparr>pushers := (pushers g)[i := push_return True v ?p]\<rparr>)))
      (map (taken_from k) (poppers (g\<lparr>pushers := (pushers g)[i := push_return True v ?p]\<rparr>)))"
  proof (cases "k = j")
    case True
    with hist Q have "history (h, xs) hist (map (pushed_to k) (pushers g)) (map (taken_from k) (poppers g))" by simp
    from history_push [OF this, of i v] i have "history (h, xs @ [v]) (hist @ [v])
        ((map (pushed_to k) (pushers g))[i := pushed_to k ?p @ [v]]) (map (taken_from k) (poppers g))" by simp
    with True at show ?thesis by (intro exI [of _ "hist @ [v]"]) (simp add: map_update)
  next
    case False
    with hist at show ?thesis by (intro exI [of _ hist]) (simp add: map_update_same)
  qed
qed

lemma logged_pop:
  assumes log: "logged Q g" and Q: "Q j = (h, v # ys)" and i: "i < length (poppers g)"
    and p: "po_log p = po_log (poppers g ! i) @ [(j, v)]"
  shows "logged (Q(j := (h + 1, ys))) (g\<lparr>poppers := (poppers g)[i := p]\<rparr>)"
  unfolding logged_def
proof
  fix k
  let ?p = "poppers g ! i"
  obtain hist where hist: "history (Q k) hist (map (pushed_to k) (pushers g)) (map (taken_from k) (poppers g))"
    using log by (auto simp: logged_def)
  have at: "taken_from k p = (if k = j then taken_from k ?p @ [v] else taken_from k ?p)"
    using p by (simp add: taken_from_def)
  show "\<exists>hist. history ((Q(j := (h + 1, ys))) k) hist (map (pushed_to k) (pushers (g\<lparr>poppers := (poppers g)[i := p]\<rparr>)))
      (map (taken_from k) (poppers (g\<lparr>poppers := (poppers g)[i := p]\<rparr>)))"
  proof (cases "k = j")
    case True
    with hist Q have "history (h, v # ys) hist (map (pushed_to k) (pushers g)) (map (taken_from k) (poppers g))" by simp
    from history_pop [OF this, of i] i have "history (h + 1, ys) hist (map (pushed_to k) (pushers g))
        ((map (taken_from k) (poppers g))[i := taken_from k ?p @ [v]])" by simp
    with True at show ?thesis by (intro exI [of _ hist]) (simp add: map_update)
  next
    case False
    with hist at show ?thesis by (intro exI [of _ hist]) (simp add: map_update_same)
  qed
qed

lemma pusher_event_ok:
  assumes pusher: "role_of t = Producer_role i" "i < length (pushers g)" "pushers g ! i = p" "pu_accessor p = Some pr" "pu_pending p = Some v"
      "(j, c) = (unat (queue_index pr), Push v)"
    and ans: "answers c (e :: ('v::zero, 'l::len word) event)" and spec: "spec_step n (Q j) e = Some hx" and wf: "use_wf u g" and log: "logged Q g"
  shows "use_wf u (use_resume u t e g) \<and> logged (Q(j := hx)) (use_resume u t e g)"
proof -
  obtain h xs where Q: "Q j = (h, xs)" by fastforce
  have same: "Q(j := hx) = Q" if "hx = (h, xs)" using that Q by auto
  let ?g = "\<lambda>b. g\<lparr>pushers := (pushers g)[i := push_return b v p]\<rparr>"
  have r: "use_resume u t e g = ?g (returned e)" using pusher(1,2,3,5) by (simp add: use_resume_def)
  have "pusher_wf u p" using wf pusher(2,3) nth_mem [OF pusher(2)] by (simp add: use_wf_def)
  then have "pusher_wf u (push_return b v p)" for b using pusher(4) by (simp add: pusher_wf_def push_return_def)
  then have w: "use_wf u (?g b)" for b by (rule use_wf_update(1) [OF wf pusher(2)]) simp_all
  from ans pusher(6) consider (moved) i' where "e = Pushed i' v" | (full) "e = Push_full" by (cases e) auto
  then show ?thesis
  proof cases
    case moved
    then have "hx = (h, xs @ [v])" using spec Q by (simp split: if_splits)
    with logged_push [OF log Q pusher(2), of pr v] pusher r moved w show ?thesis by simp
  next
    case full
    then have "hx = (h, xs)" using spec Q by (simp split: if_splits)
    moreover have "pushed_to k (push_return False v p) = pushed_to k (pushers g ! i)" for k
      by (simp add: pusher(3) pushed_to_def push_return_def split: option.split)
    then have "logged Q (?g False)" by (intro same_logs [OF log]) (simp_all add: map_update_same)
    ultimately show ?thesis using r full w same by simp
  qed
qed

lemma popper_event_ok:
  assumes popper: "role_of t = Consumer_role i" "i < length (poppers g)" "poppers g ! i = p" "po_accessor p = Some co" "po_stage p = Some st"
      "(j, c) = (unat (read_queue_index co), Pop)"
    and ans: "answers c (e :: ('v::zero, 'l::len word) event)" and spec: "spec_step n (Q j) e = Some hx" and wf: "use_wf u g"
    and u: "0 < groups u" and log: "logged Q g"
  shows "use_wf u (use_resume u t e g) \<and> logged (Q(j := hx)) (use_resume u t e g)"
proof -
  obtain h xs where Q: "Q j = (h, xs)" by fastforce
  have same: "Q(j := hx) = Q" if "hx = (h, xs)" using that Q by auto
  let ?g = "\<lambda>q. g\<lparr>poppers := (poppers g)[i := q]\<rparr>"
  have r: "use_resume u t e g = ?g (pop_return u co st e p)" using popper by (simp add: use_resume_def)
  have "popper_wf u p" using wf popper(2,3) nth_mem [OF popper(2)] by (simp add: use_wf_def)
  then have old: "reads_in (groups u) co" "\<forall>x \<in> set (po_log p). fst x < unat (groups u)" using popper(4) by (simp_all add: popper_wf_def)
  note reads = accessor_reads [OF old(1) u]
  have w: "use_wf u (?g q)" if "po_accessor q = Some co'" "reads_in (groups u) co'" "\<forall>x \<in> set (po_log q). fst x < unat (groups u)" for q co'
    by (rule use_wf_update(2) [OF wf popper(2)]) (use that in \<open>simp_all add: popper_wf_def\<close>)
  from ans popper(6) consider (moved) i' v where "e = Popped i' v" | (empty) "e = Pop_empty" by (cases e) auto
  then show ?thesis
  proof cases
    case moved
    then obtain ys where ys: "xs = v # ys" "hx = (h + 1, ys)" using spec Q by (cases xs) (auto split: if_splits)
    have "use_wf u (?g (pop_return u co st e p))"
      using moved old popper(6) reads by (intro w [OF _ reads [of st True]]) (auto simp: pop_return_def reads_in_def)
    moreover have "logged (Q(j := hx)) (?g (pop_return u co st e p))"
      using logged_pop [OF log, of j h v ys i "pop_return u co st e p"] popper Q ys moved by (simp add: pop_return_def)
    ultimately show ?thesis using r by simp
  next
    case empty
    obtain x co' where turn: "accessor_turn u st False co = (x, co')" by fastforce
    then have co': "reads_in (groups u) co'" using reads [of st False] by simp
    have p': "po_accessor (pop_return u co st e p) = Some co'" "po_log (pop_return u co st e p) = po_log p"
      using empty turn by (cases x; simp add: pop_return_def)+
    have "use_wf u (?g (pop_return u co st e p))" using p' co' old by (intro w) simp_all
    moreover have "taken_from k (pop_return u co st e p) = taken_from k (poppers g ! i)" for k
      by (simp add: popper(3) taken_from_def p')
    then have "logged Q (?g (pop_return u co st e p))" by (intro same_logs [OF log]) (simp_all add: map_update_same)
    moreover have "hx = (h, xs)" using empty spec Q by (simp split: if_splits)
    ultimately show ?thesis using r same by simp
  qed
qed

lemma use_event_ok:
  assumes call: "use_call g t = Some (j, c)" and ans: "answers c (e :: ('v::zero, 'l::len word) event)"
    and spec: "spec_step n (Q j) e = Some hx" and wf: "use_wf u g" and u: "0 < groups u" and log: "logged Q g"
  shows "use_wf u (use_resume u t e g) \<and> logged (Q(j := hx)) (use_resume u t e g)"
  using call
proof (cases rule: use_call_cases)
  case (pusher i p pr v)
  then show ?thesis by (rule pusher_event_ok [OF _ _ _ _ _ _ ans spec wf log])
next
  case (popper i p co st)
  then show ?thesis by (rule popper_event_ok [OF _ _ _ _ _ _ ans spec wf u log])
qed

lemma use_reach:
  assumes "queues_reach (use_program u :: ('v::zero use_act, 'v pack_use, 'v, 'l::len word) queues_program) n (use_start P C) Q g"
    and "0 < groups u"
  shows "use_wf u g \<and> logged Q g"
  using assms
proof (induction rule: queues_reach.induct)
  case queues_start
  then show ?case by (simp add: use_start_ok)
next
  case (queues_own_step Q g t a g')
  then show ?case using use_own_ok [of u t a g g' Q] by simp
next
  case (queues_event Q g t j c e hx)
  then show ?case using use_event_ok [of g t j c e n Q hx u] by (simp del: fun_upd_apply)
qed

text \<open>
  When no operation is under way, every queue in memory has a history, and the threads have pushed and taken what it says, each in its
  order.
\<close>

theorem pack_histories:
  fixes q :: "nat \<Rightarrow> ('v::zero, 'l::len) queue"
  assumes run: "queues_run (use_program u) lp lo (\<lambda>j. initial (q j)) (use_start P C) ms S g"
    and fr: "fresh_queues lp lo n (\<lambda>j. initial (q j)) ms S" and q: "\<And>j. rep (q j) n 0 0 0 []" and u: "0 < groups u"
    and quiet: "\<And>t. use_call g t = (None :: (nat \<times> ('v, 'l word) op) option)"
  shows "use_wf u g" and "\<exists>k hist. holds (mem (S j)) n k (drop k hist) \<and>
    history (k, drop k hist) hist (map (pushed_to j) (pushers g)) (map (taken_from j) (poppers g))"
proof -
  let ?K = "use_program u :: ('v use_act, 'v pack_use, 'v, 'l word) queues_program"
  obtain Q where st: "\<forall>j. holds (mem (S j)) n (fst (Q j)) (snd (Q j))" "queues_reach ?K n (use_start P C) Q g"
    using use_prog.quiet_queues [OF run fr q] quiet by auto
  note ok = use_reach [OF st(2) u]
  then show "use_wf u g" ..
  from ok obtain hist where hist: "history (Q j) hist (map (pushed_to j) (pushers g)) (map (taken_from j) (poppers g))"
    by (auto simp: logged_def)
  then have "snd (Q j) = drop (fst (Q j)) hist" by (simp add: history_def)
  with st(1) hist show "\<exists>k hist. holds (mem (S j)) n k (drop k hist) \<and>
      history (k, drop k hist) hist (map (pushed_to j) (pushers g)) (map (taken_from j) (poppers g))"
    by (metis prod.collapse)
qed

end
