(* ===== verification/PackMain.thy ===== *)
theory PackMain
  imports PackBench MpmcInit
begin

text \<open>
  \<^verbatim>\<open>main\<close> of \<^verbatim>\<open>pack_benchmark.cpp\<close>: the benchmarks that it runs, each on a single queue and then on a pack of the same queues, and
  the queues that they construct. The ratio of the two times, which it prints, is left out.
\<close>

section \<open>The benchmarks\<close>

text \<open>The template arguments of \<^verbatim>\<open>mpmc_queue\<close> and the arguments of \<^verbatim>\<open>bw_benchmark\<close>.\<close>

record bw_run =
  bw_queue :: tested_queue
  bw_size :: size_t
  bw_value_bits :: nat
  bw_lazy :: "bool \<times> bool"
  bw_depth :: u32
  bw_P :: u32
  bw_C :: u32
  bw_N :: u32

text \<open>\<^verbatim>\<open>bw_benchmark(unsigned queue_depth = 32, unsigned P = 3, unsigned C = 3, unsigned N = 1000000)\<close>.\<close>

definition bw_call :: "tested_queue \<Rightarrow> size_t \<Rightarrow> nat \<Rightarrow> bool \<times> bool \<Rightarrow> u32 list \<Rightarrow> bw_run" where
  "bw_call u N bits lazy arguments =
     (let arg = (\<lambda>i d. if i < length arguments then arguments ! i else d)
      in \<lparr>bw_queue = u, bw_size = N, bw_value_bits = bits, bw_lazy = lazy,
          bw_depth = arg 0 32, bw_P = arg 1 3, bw_C = arg 2 3, bw_N = arg 3 1000000\<rparr>)"

text \<open>One block of \<^verbatim>\<open>main\<close>: \<^verbatim>\<open>simple_q_time\<close> and \<^verbatim>\<open>q_pack_time\<close>.\<close>

definition speed_up :: "size_t \<Rightarrow> nat \<Rightarrow> bool \<times> bool \<Rightarrow> u32 \<times> u32 \<Rightarrow> u32 list \<Rightarrow> bw_run list" where
  "speed_up N bits lazy GK arguments =
     [bw_call Single_queue N bits lazy arguments, bw_call (Queue_pack (fst GK) (snd GK)) N bits lazy arguments]"

definition pack_benchmarks :: "bw_run list" where
  "pack_benchmarks =
     speed_up 0 32 (False, False) (3, 10) [32, 1, 1] @
     speed_up 0 32 (False, False) (3, 10) [32] @
     speed_up 32 32 (False, False) (3, 10) [32] @
     speed_up 32 32 (False, False) (4, 16) [32, 2, 2] @
     speed_up 32 32 (False, False) (4, 16) [32, 1, 1] @
     speed_up 0 64 (True, True) (4, 16) [] @
     speed_up 0 64 (False, False) (4, 16) []"

text \<open>\<^verbatim>\<open>std::make_unique<queue_pack_type>(queue_depth)\<close>; the index type is \<^verbatim>\<open>uint32_t\<close> throughout.\<close>

definition bw_construct :: "bw_run \<Rightarrow> (ctor_error + ('v::zero, 32) queue pack) option" where
  "bw_construct b =
     (case bw_queue b of
        Single_queue \<Rightarrow>
          map_option (map_sum id (\<lambda>q. \<lparr>queues = [q], writers_count = 0, readers_count = 0\<rparr>)) (mpmc_queue (bw_size b) (ucast (bw_depth b)))
      | Queue_pack G K \<Rightarrow> mpmc_queue_pack G (mpmc_queue (bw_size b)) (bw_depth b))"

section \<open>All of them are constructed\<close>

lemma benchmarks_sizes:
  "b \<in> set pack_benchmarks \<Longrightarrow> static_asserts TYPE(32) (bw_size b) \<and> bw_size b \<in> {0, 32} \<and> bw_depth b = 32 \<and> 0 < groups (bw_queue b)"
proof -
  have "\<forall>b \<in> set pack_benchmarks. static_asserts TYPE(32) (bw_size b) \<and> bw_size b \<in> {0, 32} \<and> bw_depth b = 32 \<and> 0 < groups (bw_queue b)"
    by code_simp
  then show "b \<in> set pack_benchmarks \<Longrightarrow> static_asserts TYPE(32) (bw_size b) \<and> bw_size b \<in> {0, 32} \<and> bw_depth b = 32 \<and> 0 < groups (bw_queue b)"
    by blast
qed

text \<open>The values of different producers are different, and so are those of one: the 32-bit arithmetic does not wrap around.\<close>

lemma benchmarks_values:
  assumes "b \<in> set pack_benchmarks" and "i < unat (bw_P b)" and "x < bw_N b"
  shows "unat (x + 10 * bw_N b * of_nat i) = unat x + 10000000 * i"
proof -
  have "\<forall>b \<in> set pack_benchmarks. unat (bw_P b) \<le> 3 \<and> bw_N b = 1000000" by code_simp
  with assms have b: "i < 3" "bw_N b = 1000000" "unat x < 1000000" by (auto simp: word_less_nat_alt)
  then have "i = 0 \<or> i = 1 \<or> i = 2" by auto
  moreover have "unat (x + c) = unat x + unat c" if "unat c \<le> 20000000" for c :: u32
    using unat_add_lem [of x c] b(3) that by simp
  ultimately show ?thesis using b(2) by auto
qed

lemma benchmarks_distinct:
  assumes "b \<in> set pack_benchmarks"
  shows "inj_on (\<lambda>(i, x). pk_value id (bw_N b) i x) {(i, x). i < unat (bw_P b) \<and> x < bw_N b}"
proof (rule inj_onI, clarsimp simp: pk_value_def)
  fix i x i' x'
  assume b: "i < unat (bw_P b)" "x < bw_N b" "i' < unat (bw_P b)" "x' < bw_N b"
    and eq: "x + 10 * bw_N b * word_of_nat i = x' + 10 * bw_N b * word_of_nat i'"
  have "\<forall>b \<in> set pack_benchmarks. bw_N b = 1000000" by code_simp
  with assms b have x: "unat x < 10000000" "unat x' < 10000000" by (auto simp: word_less_nat_alt)
  have eq': "unat x + 10000000 * i = unat x' + 10000000 * i'"
    using benchmarks_values [OF assms b(1,2)] benchmarks_values [OF assms b(3,4)] eq by simp
  have "(unat x + 10000000 * i) div 10000000 = i" "(unat x' + 10000000 * i') div 10000000 = i'" using x by simp_all
  with eq' have "i = i'" "unat x = unat x'" by simp_all
  then show "i = i' \<and> x = x'" by (simp add: word_unat_eq_iff)
qed

lemma benchmarks_construct:
  assumes "b \<in> set pack_benchmarks"
  shows "\<exists>q :: ('v::zero, 32) queue. constructed (bw_size b) 32 32 q \<and>
    bw_construct b = Some (Inr \<lparr>queues = replicate (unat (groups (bw_queue b))) q, writers_count = 0, readers_count = 0\<rparr>)"
proof -
  note b = benchmarks_sizes [OF assms]
  have "inplace_static_assert 32" by (simp add: inplace_static_assert_def)
  from ctor_runtime [of 32 5, where 'l = 32 and 'v = 'v] ctor_static [OF this, of 5, where 'l = 32 and 'v = 'v] b
  obtain q :: "('v, 32) queue" where q: "mpmc_queue (bw_size b) 32 = Some (Inr q)" by auto
  moreover have "constructed (bw_size b) 32 32 q" using q b by (simp add: constructed_def)
  ultimately show ?thesis using b
    by (cases "bw_queue b") (auto simp: bw_construct_def mpmc_queue_pack_def construct_all_same)
qed

end
