(* ===== verification/SizeRuns.thy ===== *)
theory SizeRuns
  imports Runs MpmcObserve
begin

text \<open>
  \<^verbatim>\<open>size()\<close> while other threads use the queue. It makes up to four loads of the indexes after the two of \<^verbatim>\<open>empty()\<close>, and between any two
  of them the queue may change. The operands of its comparison and of its differences are loaded from left to right.
\<close>

section \<open>The loads of size\<close>

datatype 'i size_pc =
    Z_index | Z_entry 'i | Z_write | Z_read 'i | Z_write_less | Z_read_less 'i | Z_write_more | Z_read_more 'i | Z_done size_t

fun size_step :: "('v, 'l::len) queue \<Rightarrow> 'l word size_pc \<Rightarrow> 'l word size_pc option" where
  "size_step q Z_index = Some (Z_entry (read_index q))"
| "size_step q (Z_entry i) = map_option (\<lambda>e. if get_seq e = seq_empty i then Z_done 0 else Z_write) (entry_at q i)"
| "size_step q Z_write = Some (Z_read (write_index q))"
| "size_step q (Z_read w) = Some (if w \<ge> read_index q then Z_write_less else Z_write_more)"
| "size_step q Z_write_less = Some (Z_read_less (write_index q))"
| "size_step q (Z_read_less w) = Some (Z_done (ucast (w - read_index q)))"
| "size_step q Z_write_more = Some (Z_read_more (write_index q))"
| "size_step q (Z_read_more w) = Some (Z_done (ucast w + capacity q - ucast (read_index q)))"
| "size_step q (Z_done v) = None"

text \<open>The loads interleave with the steps of a run; \<open>tr\<close> are the labels of those steps.\<close>

inductive size_run ::
  "bool \<Rightarrow> bool \<Rightarrow> ('v::zero, 'l::len) sys \<Rightarrow> ('v, 'l word) label list \<Rightarrow> ('v, 'l) sys \<Rightarrow> 'l word size_pc \<Rightarrow> bool"
  for lp lo s0 where
  size_start: "size_run lp lo s0 [] s0 Z_index"
| size_other: "size_run lp lo s0 tr s p \<Longrightarrow> sys_step lp lo s l s' \<Longrightarrow> size_run lp lo s0 (tr @ [l]) s' p"
| size_own: "size_run lp lo s0 tr s p \<Longrightarrow> size_step (mem s) p = Some p' \<Longrightarrow> size_run lp lo s0 tr s p'"

text \<open>A schedule: \<open>None\<close> is a load of \<open>size\<close>.\<close>

fun size_exec ::
  "bool \<Rightarrow> bool \<Rightarrow> ('v, 'l word) command option list \<Rightarrow> ('v, 'l word) label list \<times> ('v::zero, 'l::len) sys \<times> 'l word size_pc
     \<Rightarrow> (('v, 'l word) label list \<times> ('v, 'l) sys \<times> 'l word size_pc) option" where
  "size_exec lp lo [] st = Some st"
| "size_exec lp lo (None # xs) (tr, s, p) = Option.bind (size_step (mem s) p) (\<lambda>p'. size_exec lp lo xs (tr, s, p'))"
| "size_exec lp lo (Some x # xs) (tr, s, p) = Option.bind (exec1 lp lo x s) (\<lambda>(l, s'). size_exec lp lo xs (tr @ [l], s', p))"

lemma size_exec_run:
  "size_run lp lo s0 tr s p \<Longrightarrow> size_exec lp lo xs (tr, s, p) = Some (tr', s', p') \<Longrightarrow> size_run lp lo s0 tr' s' p'"
proof (induction xs arbitrary: tr s p)
  case (Cons x xs)
  show ?case
  proof (cases x)
    case None
    with Cons.prems(2) obtain p1 where "size_step (mem s) p = Some p1" "size_exec lp lo xs (tr, s, p1) = Some (tr', s', p')"
      by (auto simp: bind_eq_Some_conv)
    with Cons.IH size_own [OF Cons.prems(1)] show ?thesis by blast
  next
    case (Some y)
    with Cons.prems(2) obtain l s1 where "exec1 lp lo y s = Some (l, s1)" "size_exec lp lo xs (tr @ [l], s1, p) = Some (tr', s', p')"
      by (auto simp: bind_eq_Some_conv)
    with Cons.IH size_other [OF Cons.prems(1) exec1_step] show ?thesis by blast
  qed
qed simp

lemma size_sys_run: "size_run lp lo s0 tr s p \<Longrightarrow> sys_run lp lo q0 tr0 s0 \<Longrightarrow> sys_run lp lo q0 (tr0 @ tr) s"
proof (induction rule: size_run.induct)
  case (size_other tr s p l s')
  then show ?case using sys_run.more [of lp lo q0 "tr0 @ tr" s l s'] by simp
qed simp_all

section \<open>Alone\<close>

text \<open>Without other steps the loads give what the sequential definition says.\<close>

definition size_sees :: "('v, 'l::len) queue \<Rightarrow> 'l word size_pc \<Rightarrow> bool" where
  "size_sees q p \<longleftrightarrow>
     (case p of
        Z_index \<Rightarrow> True
      | Z_entry i \<Rightarrow> i = read_index q
      | Z_write \<Rightarrow> empty q = Some False
      | Z_read w \<Rightarrow> empty q = Some False \<and> w = write_index q
      | Z_write_less \<Rightarrow> empty q = Some False \<and> write_index q \<ge> read_index q
      | Z_read_less w \<Rightarrow> empty q = Some False \<and> write_index q \<ge> read_index q \<and> w = write_index q
      | Z_write_more \<Rightarrow> empty q = Some False \<and> \<not> write_index q \<ge> read_index q
      | Z_read_more w \<Rightarrow> empty q = Some False \<and> \<not> write_index q \<ge> read_index q \<and> w = write_index q
      | Z_done v \<Rightarrow> size_of q = Some v)"

lemma size_sees_step: "size_sees q p \<Longrightarrow> size_step q p = Some p' \<Longrightarrow> size_sees q p'"
  by (cases p) (auto simp: size_sees_def size_of_def empty_def Let_def split: if_splits)

lemma size_alone:
  assumes "size_run lp lo s0 tr s (Z_done v)" and "tr = []"
  shows "size_of (mem s0) = Some v"
proof -
  have "tr = [] \<longrightarrow> s = s0 \<and> size_sees (mem s0) p" if "size_run lp lo s0 tr s p" for p tr s
    using that
  proof (induction rule: size_run.induct)
    case size_start
    show ?case by (simp add: size_sees_def)
  next
    case (size_own tr s p p')
    then show ?case using size_sees_step [of "mem s0" p p'] by blast
  qed simp
  from this [OF assms(1)] assms(2) show ?thesis by (simp add: size_sees_def)
qed

section \<open>Together with others\<close>

text \<open>What an invariant of the run says of the words that were loaded since the state \<open>s0\<close>.\<close>

definition seen_write :: "('v::zero, 'l::len) sys \<Rightarrow> ('v, 'l) sys \<Rightarrow> 'l word \<Rightarrow> bool" where
  "seen_write s0 s i \<longleftrightarrow> (\<exists>x. i = of_nat x \<and> wpos s0 \<le> x \<and> x \<le> wpos s)"

definition seen_read :: "('v::zero, 'l::len) sys \<Rightarrow> ('v, 'l) sys \<Rightarrow> 'l word \<Rightarrow> bool" where
  "seen_read s0 s i \<longleftrightarrow> (\<exists>y. i = of_nat y \<and> rpos s0 \<le> y \<and> y \<le> rpos s)"

definition size_ok :: "('v::zero, 'l::len) sys \<Rightarrow> ('v, 'l) sys \<Rightarrow> 'l word size_pc \<Rightarrow> bool" where
  "size_ok s0 s p \<longleftrightarrow>
     later s0 s \<and>
     (case p of
        Z_entry i \<Rightarrow> seen_read s0 s i
      | Z_read w \<Rightarrow> seen_write s0 s w
      | Z_read_less w \<Rightarrow> seen_write s0 s w
      | Z_write_more \<Rightarrow> False
      | Z_read_more w \<Rightarrow> False
      | Z_done v \<Rightarrow> wpos s0 \<le> unat v + rpos s \<and> unat v + rpos s0 \<le> wpos s
      | _ \<Rightarrow> True)"

lemma later_step:
  assumes "sys_step lp lo s l s'"
  shows "later s s'"
  using assms
proof cases
  case (act t p q ev)
  then show ?thesis using later_act by metis
qed (simp_all add: later_def)

lemma size_ok_later: "size_ok s0 s p \<Longrightarrow> later s s' \<Longrightarrow> size_ok s0 s' p"
  by (cases p) (fastforce simp: size_ok_def seen_write_def seen_read_def later_def)+

text \<open>As long as fewer elements have been removed than there were at first, the loads stay in order.\<close>

lemma loads_in_order:
  assumes sim0: "sim n s0 h0 xs0" and sim: "sim n s h xs" and lt: "later s0 s" and room: "pops s < pushes s0"
    and few: "pushes s + n \<le> half_range TYPE('l)" and w: "seen_write s0 s (i :: 'l::len word)"
  obtains x where "i = of_nat x" and "wpos s0 \<le> x" and "x \<le> wpos s" and "rpos s \<le> x" and "x < half_range TYPE('l)"
    and "read_index (mem s) = of_nat (rpos s)"
proof -
  note ix0 = rep_indexes [OF sim_rep [OF sim0]] and ix = rep_indexes [OF sim_rep [OF sim]]
  from w obtain x where x: "i = of_nat x" "wpos s0 \<le> x" "x \<le> wpos s" by (auto simp: seen_write_def)
  have c: "pushes s0 = h0 + length xs0" "pops s = h" "pushes s = h + length xs" using sim0 sim by (simp_all add: sim_def)
  have "rpos s \<le> x" using ix0 ix x(2) c room by linarith
  moreover have "0 < n" using shape_bounds(1) [OF rep_shape [OF sim_rep [OF sim]]] .
  then have "x < half_range TYPE('l)" using x(3) ix c few by linarith
  ultimately show ?thesis using x ix(4) by (intro that) simp_all
qed

lemma size_own_ok:
  fixes s0 :: "('v::zero, 'l::len) sys"
  assumes ok: "size_ok s0 s p" and sim0: "sim n s0 h0 xs0" and sim: "sim n s h xs" and room: "pops s < pushes s0"
    and few: "pushes s + n \<le> half_range TYPE('l)" and step: "size_step (mem s) p = Some p'"
  shows "size_ok s0 s p'"
proof -
  note rep = sim_rep [OF sim] and lt = ok [unfolded size_ok_def, THEN conjunct1]
  note ix = rep_indexes [OF rep]
  have c: "pops s = h" "pushes s = h + length xs" "pushes s0 \<le> pushes s" using sim lt by (simp_all add: sim_def later_def)
  have now: "seen_write s0 s (write_index (mem s))" "seen_read s0 s (read_index (mem s))"
    using ix lt by (auto simp: seen_write_def seen_read_def later_def)
  have small: "unat (of_nat x :: 'l word) = x" if "x < half_range TYPE('l)" for x
    by (rule widen_index) (use that in linarith)
  show ?thesis
  proof (cases p)
    case (Z_entry i)
    then obtain y where y: "i = of_nat y" "y \<le> rpos s" using ok by (auto simp: size_ok_def seen_read_def)
    obtain z where z: "h \<le> z" "z < h + n" "z mod n = y mod n" "entry_at (mem s) (of_nat y) = Some (cell h xs z)"
      by (rule cell_seen [OF rep_shape [OF rep] rep_contents [OF rep], of y])
    have "y \<le> h" "h + n \<le> y + half_range TYPE('l)" using y(2) ix c few by linarith+
    from peek_view [OF rep_shape [OF rep] this z(1-3), of xs] room c
    have "get_seq (cell h xs z :: ('v, 'l) entry) \<noteq> seq_empty (of_nat y)"
      by (auto simp flip: peek_verdict_Refuse [of "capacity (mem s)"] split: verdict.splits)
    with step Z_entry y(1) z(4) lt show ?thesis by (simp add: size_ok_def)
  next
    case (Z_read w)
    then have "seen_write s0 s w" using ok by (simp add: size_ok_def)
    then obtain x where x: "w = of_nat x" "rpos s \<le> x" "x < half_range TYPE('l)" "read_index (mem s) = of_nat (rpos s)"
      by (rule loads_in_order [OF sim0 sim lt room few])
    then have "read_index (mem s) \<le> w" by (simp add: word_le_nat_alt small)
    with step Z_read lt show ?thesis by (auto simp: size_ok_def)
  next
    case (Z_read_less w)
    then have "seen_write s0 s w" using ok by (simp add: size_ok_def)
    then obtain x where x: "w = of_nat x" "wpos s0 \<le> x" "x \<le> wpos s" "rpos s \<le> x" "x < half_range TYPE('l)"
        "read_index (mem s) = of_nat (rpos s)"
      by (rule loads_in_order [OF sim0 sim lt room few])
    then have "w - read_index (mem s) = of_nat (x - rpos s)" by simp
    moreover have "x - rpos s < 2 ^ LENGTH('l)" using x(5) unfolding full_range by linarith
    moreover have "LENGTH('l) \<le> 64" by (rule shape_bounds(4) [OF rep_shape [OF rep]])
    ultimately have "p' = Z_done (of_nat (x - rpos s))" "unat (of_nat (x - rpos s) :: size_t) = x - rpos s"
      using step Z_read_less power_increasing [of "LENGTH('l)" 64 "2 :: nat"]
      by (auto simp: widen_of_nat unsigned_of_nat take_bit_nat_eq_self)
    moreover have "rpos s0 \<le> rpos s" using lt by (simp add: later_def)
    then have "wpos s0 \<le> (x - rpos s) + rpos s" "(x - rpos s) + rpos s0 \<le> wpos s" using x(2-4) by linarith+
    ultimately show ?thesis using lt by (simp only: size_ok_def size_pc.case simp_thms)
  qed (use step lt now ok in \<open>auto simp: size_ok_def\<close>)
qed

lemma size_run_ok:
  fixes q :: "('v::zero, 'l::len) queue"
  assumes "size_run lp lo s0 tr s p" and run0: "sys_run lp lo (initial q) tr0 s0" and q: "rep q n 0 0 0 []"
    and "pops s < pushes s0" and "pushes s + n \<le> half_range TYPE('l)"
  shows "size_ok s0 s p"
  using assms(1,4,5)
proof (induction rule: size_run.induct)
  case size_start
  show ?case by (simp add: size_ok_def later_def)
next
  case (size_other tr s p l s')
  have l: "later s s'" by (rule later_step [OF size_other.hyps(2)])
  with size_other.prems have "pops s < pushes s0" "pushes s + n \<le> half_range TYPE('l)" by (simp_all add: later_def)
  then show ?case by (rule size_ok_later [OF size_other.IH l])
next
  case (size_own tr s p p')
  have ok: "size_ok s0 s p" by (rule size_own.IH [OF size_own.prems])
  then have few0: "pushes s0 + n \<le> half_range TYPE('l)" using size_own.prems(2) by (simp add: size_ok_def later_def)
  obtain h0 xs0 where sim0: "sim n s0 h0 xs0" using linearize [OF short_run_fresh [OF run0 q few0] q] by blast
  obtain h xs where sim: "sim n s h xs"
    using linearize [OF short_run_fresh [OF size_sys_run [OF size_own.hyps(1) run0] q size_own.prems(2)] q] by blast
  show ?case by (rule size_own_ok [OF ok sim0 sim size_own.prems size_own.hyps(2)])
qed

theorem size_bounds:
  fixes q :: "('v::zero, 'l::len) queue"
  assumes run: "size_run lp lo s0 tr s (Z_done v)" and run0: "sys_run lp lo (initial q) tr0 s0" and q: "rep q n 0 0 0 []"
    and room: "pops s < pushes s0" and few: "pushes s + n \<le> half_range TYPE('l)"
  shows "pushes s0 \<le> unat v + pops s + 1 \<and> unat v + pops s0 \<le> pushes s + 1"
proof -
  have ok: "size_ok s0 s (Z_done v)" by (rule size_run_ok [OF assms])
  then have few0: "pushes s0 + n \<le> half_range TYPE('l)" using few by (simp add: size_ok_def later_def)
  obtain h0 xs0 where sim0: "sim n s0 h0 xs0" using linearize [OF short_run_fresh [OF run0 q few0] q] by blast
  obtain h xs where sim: "sim n s h xs"
    using linearize [OF short_run_fresh [OF size_sys_run [OF run run0] q few] q] by blast
  note ix0 = rep_indexes [OF sim_rep [OF sim0]] and ix = rep_indexes [OF sim_rep [OF sim]]
  have "pushes s0 \<le> wpos s0 + 1" "pops s0 \<le> rpos s0 + 1" "wpos s \<le> pushes s" "rpos s \<le> pops s"
    using ix0 ix sim0 sim by (simp_all add: sim_def)
  with ok show ?thesis by (simp add: size_ok_def)
qed

end
