(* ===== verification/ClientRuns.thy ===== *)
theory ClientRuns
  imports Examples BandwidthRuns HashQueue HashIo SumQueue TimingQueue SmallTests Schedules PackRuns PackUse PackMain SizeRuns
begin

text \<open>
  Runs of the programs on the lock-free queue, every access to shared memory a step of its own, evaluated by
  rewriting. The witnesses of the properties use them.
\<close>

section \<open>Schedules\<close>

text \<open>A call from its start to its return, in \<open>k\<close> steps; \<open>k\<close> steps of the thread's own.\<close>

definition call_through :: "nat \<Rightarrow> nat \<Rightarrow> 'a turn_of list" where
  "call_through t k = Calls t # replicate k (Moves t) @ [Returns t]"

definition own_turns :: "'a \<Rightarrow> nat \<Rightarrow> nat \<Rightarrow> 'a turn_of list" where
  "own_turns a t k = replicate k (By_itself t a)"

definition demo_four :: "('v::zero, 32) queue" where
  "demo_four = \<lparr>write_index = 0, read_index = 0,
     ring = Inplace \<lparr>inplace_data = map (\<lambda>i. \<lparr>e_data = 0, e_seq = i\<rparr>) [0, 2, 4, 6]\<rparr>\<rparr>"

lemma demo_four_new:
  "mpmc_queue 4 4 = Some (Inr (demo_four :: (data2, 32) queue))"
  "mpmc_queue 4 4 = Some (Inr (demo_four :: (data3, 32) queue))"
  "mpmc_queue 4 4 = Some (Inr (demo_four :: (u64, 32) queue))"
  by code_simp+

lemma demo_four_static: "static_asserts TYPE(32) 4"
  by code_simp

lemma demo_four_constructed:
  "constructed 4 4 4 (demo_four :: (data2, 32) queue)" "constructed 4 4 4 (demo_four :: (data3, 32) queue)"
  "constructed 4 4 4 (demo_four :: (u64, 32) queue)"
  by (simp_all add: constructed_def demo_four_new demo_four_static)

text \<open>What such a run gives: a run of the program, fresh because it is short.\<close>

lemma exec_fresh:
  fixes K :: "('a, 'g, 'v::zero, 32 word) queue_program"
  assumes "program_exec K False False xs ([], initial q, g0) = Some (ms, s, g)" and "constructed N sz n q"
    and "pushes s + n \<le> 100"
  shows "program_run K False False (initial q) g0 ms s g" and "fresh_run False False n (initial q) (queue_labels ms) s"
proof -
  show run: "program_run K False False (initial q) g0 ms s g"
    by (rule program_exec_run [OF client_stop assms(1)])
  show "fresh_run False False n (initial q) (queue_labels ms) s"
    by (rule short_run_fresh [OF program_sys_run [OF run] constructed_rep [OF assms(2)]])
      (use assms(3) in \<open>simp add: half_range_def\<close>)
qed

section \<open>The bandwidth measurement\<close>

text \<open>
  The consumer takes the element before the producer, in the middle of its push, has moved the write index.
\<close>

definition demo_measure :: "bool turn_of list" where
  "demo_measure =
     own_turns False 1 1 @ own_turns False 2 1 @ own_turns False 0 4 @ own_turns False 1 2 @
     Calls 1 # replicate 3 (Moves 1) @ own_turns False 2 2 @ call_through 2 4 @ [Moves 1, Returns 1] @
     own_turns True 0 1 @ own_turns False 1 3 @ own_turns False 0 2 @ call_through 2 2 @
     own_turns False 2 2 @ call_through 2 2 @ own_turns False 2 2 @ own_turns False 0 2"

lemma demo_measure_exec:
  "case program_exec (bench_program (ucast :: u64 \<Rightarrow> u32)) False False demo_measure ([], initial demo_queue, bench_start 1 1) of
     None \<Rightarrow> False
   | Some (ms, s, g) \<Rightarrow> main_thread g = M_report \<and> total_push g = 1 \<and> pushes s = 1"
  by code_simp

lemma demo_measure_run:
  "\<exists>ms s g. program_run (bench_program (ucast :: u64 \<Rightarrow> u32)) False False (initial demo_queue) (bench_start 1 1) ms s g \<and>
     fresh_run False False 2 (initial demo_queue) (queue_labels ms) s \<and> main_thread g = M_report \<and> total_push g = 1"
  using demo_measure_exec exec_fresh [OF _ demo_constructed] by (fastforce split: option.splits)

section \<open>The hash tests\<close>

text \<open>
  In \<open>demo_left_behind\<close>, four producers and three consumers, every consumer has found the queue empty when the last
  producer pushes its element and leaves; the consumers then read that no producer is left.
\<close>

definition demo_left_behind :: "bool turn_of list" where
  "demo_left_behind =
     concat (map (\<lambda>t. own_turns False t 1 @ call_through t 4 @ own_turns False t 2) [1, 3, 5]) @ own_turns False 7 1 @
     call_through 0 2 @ concat (replicate 3 (call_through 2 2 @ call_through 2 4 @ own_turns False 2 4)) @
     concat (map (\<lambda>t. call_through t 2) [2, 4, 6]) @ call_through 7 4 @ own_turns False 7 2 @
     concat (map (\<lambda>t. own_turns False t 1) [2, 4, 6, 0])"

lemma demo_left_behind_exec:
  "case program_exec (hash_program hash3 1 3) False False demo_left_behind ([], initial demo_four, hash_start 4) of
     None \<Rightarrow> False
   | Some (ms, s, g) \<Rightarrow> hmain g = HM_report \<and> \<not> hash_same g \<and> pushes s = 4"
  by code_simp

text \<open>Two consumers pop two elements of one producer; the second one signs first, or waits for its turn.\<close>

definition demo_overtaking :: "bool turn_of list \<Rightarrow> bool turn_of list" where
  "demo_overtaking signing =
     concat (replicate 2 (own_turns False 1 1 @ call_through 1 4)) @ own_turns False 1 2 @ call_through 0 2 @
     call_through 2 2 @ call_through 2 4 @ call_through 4 2 @ call_through 4 4 @ signing @
     call_through 2 2 @ own_turns False 2 1 @ call_through 4 2 @ own_turns False 4 1 @ own_turns False 0 1"

lemma demo_overtaking_exec:
  "case program_exec (hash_program hash2 2 2) False False (demo_overtaking (own_turns False 4 4 @ own_turns False 2 4))
      ([], initial demo_four, hash_start 1) of
     None \<Rightarrow> False
   | Some (ms, s, g) \<Rightarrow> hmain g = HM_report \<and> \<not> hash_same g \<and> pushes s = 2 \<and> empty (mem s) = Some True"
  "case program_exec (hash_program hash3 2 2) False False (demo_overtaking (own_turns False 4 3 @ own_turns False 2 4 @ own_turns False 4 4))
      ([], initial demo_four, hash_start 1) of
     None \<Rightarrow> False
   | Some (ms, s, g) \<Rightarrow> hmain g = HM_report \<and> hash_same g \<and> pushes s = 2"
  by code_simp+

text \<open>\<open>HashInputOutput\<close> with two numbers: the reader looks too early, and between the steps of the second push.\<close>

definition demo_in_out :: "unit turn_of list" where
  "demo_in_out =
     call_through 2 2 @ own_turns () 1 1 @ call_through 1 4 @ own_turns () 1 1 @ Calls 1 # replicate 3 (Moves 1) @
     call_through 2 4 @ own_turns () 2 1 @ call_through 2 4 @ own_turns () 2 1 @ [Moves 1, Returns 1]"

lemma demo_in_out_exec:
  "case program_exec (io_program 2) False False demo_in_out ([], initial demo_four, io_start) of
     None \<Rightarrow> False
   | Some (ms, s, g) \<Rightarrow> io_joined 2 g \<and> hs_state (h_out g) \<noteq> 1 \<and> pushes s = 2"
  by code_simp

section \<open>The timing of a queue\<close>

text \<open>
  Four rounds of one push and one pop, then one stamp of 50 that is read at 70, and the 0; the reader looks once between them.
\<close>

definition demo_timed :: "u64 turn_of list" where
  "demo_timed =
     concat (replicate 4 (own_turns 1 0 1 @ call_through 0 4 @ own_turns 1 0 1 @ call_through 0 4 @ own_turns 1 0 1)) @ own_turns 1 0 1 @
     own_turns 50 1 1 @ call_through 1 4 @ own_turns 51 1 1 @ own_turns 1 2 1 @ call_through 2 4 @ own_turns 70 2 2 @
     call_through 2 2 @ own_turns 1 2 1 @ call_through 1 4 @ call_through 2 4 @ own_turns 80 2 4"

lemma demo_timed_exec:
  "case program_exec (timed_program (\<lambda>x. x \<noteq> 0) 1) False False demo_timed ([], initial demo_four, timed_start 1) of
     None \<Rightarrow> False
   | Some (ms, s, g) \<Rightarrow> main_at g = T_join \<and> reader_pc (both g) = R_done \<and> writer_pc (both g) = W_done \<and>
       diffs (both g) ! 0 = Some 20 \<and> pushes s = 6"
  by code_simp

text \<open>One consumer of \<open>hash2\<close>, two producers.\<close>

definition demo_alone :: "bool turn_of list" where
  "demo_alone =
     concat (map (\<lambda>t. own_turns False t 1 @ call_through t 4 @ own_turns False t 2) [1, 3]) @ call_through 0 2 @
     concat (replicate 2 (call_through 2 2 @ call_through 2 4 @ own_turns False 2 4)) @
     call_through 2 2 @ own_turns False 2 1 @ own_turns False 0 1"

lemma demo_alone_exec:
  "case program_exec (hash_program hash2 1 1) False False demo_alone ([], initial demo_four, hash_start 2) of
     None \<Rightarrow> False
   | Some (ms, s, g) \<Rightarrow> hmain g = HM_report \<and> hash_same g \<and> pushes s = 2"
  by code_simp

section \<open>The examples\<close>

definition demo_adding :: "unit turn_of list" where
  "demo_adding =
     call_through 2 2 @ concat (replicate 2 (call_through 1 4 @ own_turns () 1 1)) @ own_turns () 1 2 @
     concat (replicate 2 (call_through 2 4 @ own_turns () 2 1)) @ own_turns () 2 2"

lemma demo_adding_exec:
  "case program_exec (sum_program False 2 :: (unit, u64 sum_run, u32, 32 word) queue_program) False False demo_adding
      ([], initial demo_queue, sum_start 1) of
     None \<Rightarrow> False
   | Some (ms, s, g) \<Rightarrow> joined g \<and> pushes s = 2"
  by code_simp

lemma demo_adding_run:
  "\<exists>ms s g. program_run (sum_program False 2 :: (unit, u64 sum_run, u32, 32 word) queue_program) False False (initial demo_queue) (sum_start 1) ms s g \<and>
     fresh_run False False 2 (initial demo_queue) (queue_labels ms) s \<and> joined g"
  using demo_adding_exec exec_fresh [OF _ demo_constructed] by (fastforce split: option.splits)

section \<open>Threads that share a pack\<close>

text \<open>What a run over several queues gives.\<close>

lemma queues_exec_fresh:
  fixes K :: "('a, 'g, 'v::zero, 32 word) queues_program"
  assumes "queues_exec K False False xs ([], \<lambda>j. initial q, g0) = Some (ms, S, g)" and "constructed N sz n q" and "length ms + n \<le> 1000"
  shows "queues_run K False False (\<lambda>j. initial q) g0 ms S g" and "fresh_queues False False n (\<lambda>j. initial q) ms S"
proof -
  show run: "queues_run K False False (\<lambda>j. initial q) g0 ms S g"
    by (rule queues_exec_run [OF queues_stop assms(1)])
  show "fresh_queues False False n (\<lambda>j. initial q) ms S"
    by (rule short_queues_fresh [OF run constructed_rep [OF assms(2)]]) (use assms(3) in \<open>simp add: half_range_def\<close>)
qed

text \<open>
  Two producers and a consumer on a pack of two queues: the producers use different queues, the consumer takes two elements of
  the first before it goes on to the second.
\<close>

definition demo_sharing :: "u32 use_act turn_of list" where
  "demo_sharing =
     own_turns Open_accessor 1 1 @ own_turns Open_accessor 3 1 @ own_turns (Push_value 7) 1 1 @ own_turns (Push_value 8) 3 1 @
     Calls 1 # Calls 3 # replicate 3 (Moves 1) @ replicate 4 (Moves 3) @ [Returns 3] @
     own_turns Open_accessor 2 1 @ own_turns Pop_value 2 1 @ call_through 2 4 @ [Moves 1, Returns 1] @
     own_turns (Push_value 9) 1 1 @ call_through 1 4 @ concat (replicate 2 (own_turns Pop_value 2 1 @ call_through 2 4))"

lemma demo_sharing_exec:
  "case queues_exec (use_program (Queue_pack 2 2) :: (u32 use_act, u32 pack_use, u32, 32 word) queues_program) False False demo_sharing
      ([], \<lambda>j. initial demo_queue, use_start 2 1) of
     None \<Rightarrow> False
   | Some (ms, S, g) \<Rightarrow>
       map pu_log (pushers g) = [[7, 9], [8]] \<and> map po_log (poppers g) = [[(0, 7), (0, 9), (1, 8)]] \<and> length ms \<le> 100 \<and>
       list_all (\<lambda>p. pu_pending p = None) (pushers g) \<and> list_all (\<lambda>p. po_stage p = None) (poppers g)"
  by code_simp

text \<open>
  The pack benchmark with one producer of two values, on a pack of two queues. The consumer finds the second value with a scan.
\<close>

definition demo_packed :: "unit turn_of list" where
  "demo_packed =
     own_turns () 1 1 @ own_turns () 0 1 @ own_turns () 1 2 @ own_turns () 2 2 @ own_turns () 0 2 @
     call_through 1 4 @ call_through 2 4 @ call_through 1 4 @ own_turns () 1 3 @
     call_through 2 2 @ call_through 2 4 @ call_through 2 2 @ call_through 2 2 @ own_turns () 2 4 @ own_turns () 0 2"

lemma demo_packed_exec:
  "case queues_exec (pk_program (Queue_pack 2 1) (\<lambda>x. x) ucast 2 1 1 :: (unit, u32 pack_bench, u32, 32 word) queues_program)
      False False demo_packed ([], \<lambda>j. initial demo_queue, pack_bench_start (Queue_pack 2 1) 1 1) of
     None \<Rightarrow> False
   | Some (ms, S, g) \<Rightarrow> pk_main g = W_report \<and> pk_total_pops g = 2 \<and> pk_ok g \<and> length ms \<le> 100"
  by code_simp

section \<open>The size of a queue in use\<close>

text \<open>
  A queue of capacity 2 with one element. In \<open>demo_size_late\<close> an element is pushed and both are popped between the loads of the two indexes
  of the difference; in \<open>demo_size\<close> an element is pushed while \<open>size\<close> runs.
\<close>

definition demo_one :: "(u32, u32) command list" where
  "demo_one = Do_call 0 (Push 7) # replicate 4 (Do_step 0) @ [Do_ret 0]"

definition demo_size :: "(u32, u32) command option list" where
  "demo_size = replicate 3 None @ Some (Do_call 1 (Push 8)) # replicate 4 (Some (Do_step 1)) @ replicate 3 None"

definition demo_size_late :: "(u32, u32) command option list" where
  "demo_size_late =
     replicate 5 None @ map Some (Do_call 1 (Push 8) # replicate 4 (Do_step 1) @
       concat (replicate 2 (Do_call 2 Pop # replicate 4 (Do_step 2) @ [Do_ret 2]))) @ [None]"

lemma demo_sizes_exec:
  "case exec False False demo_one (initial demo_queue) of None \<Rightarrow> False
   | Some (tr0, s0) \<Rightarrow> events tr0 = [Pushed 0 7] \<and>
      (case size_exec False False demo_size ([], s0, Z_index) of None \<Rightarrow> False
       | Some (tr, s, p) \<Rightarrow> events tr = [Pushed 1 8] \<and> p = Z_done 2) \<and>
      (case size_exec False False demo_size_late ([], s0, Z_index) of None \<Rightarrow> False
       | Some (tr, s, p) \<Rightarrow> events tr = [Pushed 1 8, Popped 0 7, Popped 1 8] \<and> p = Z_done 4294967295)"
  by code_simp

lemma demo_sizes:
  obtains tr0 s0 tr s tr' s' where "sys_run False False (initial demo_queue) tr0 s0" and "events tr0 = [Pushed 0 7]"
    and "size_run False False s0 tr s (Z_done 2)" and "events tr = [Pushed 1 8]"
    and "size_run False False s0 tr' s' (Z_done 4294967295)" and "events tr' = [Pushed 1 8, Popped 0 7, Popped 1 8]"
proof -
  obtain tr0 s0 where s0: "exec False False demo_one (initial demo_queue) = Some (tr0, s0)"
    using demo_sizes_exec by (cases "exec False False demo_one (initial demo_queue)") auto
  note e = demo_sizes_exec [unfolded s0 option.case prod.case]
  obtain tr s where s: "size_exec False False demo_size ([], s0, Z_index) = Some (tr, s, Z_done 2)" "events tr = [Pushed 1 8]"
    using e by (cases "size_exec False False demo_size ([], s0, Z_index)") auto
  obtain tr' s' where s': "size_exec False False demo_size_late ([], s0, Z_index) = Some (tr', s', Z_done 4294967295)"
      "events tr' = [Pushed 1 8, Popped 0 7, Popped 1 8]"
    using e by (cases "size_exec False False demo_size_late ([], s0, Z_index)") auto
  show ?thesis
    by (rule that [OF exec_run [OF s0] conjunct1 [OF e] size_exec_run [OF size_start s(1)] s(2) size_exec_run [OF size_start s'(1)] s'(2)])
qed

end
