(* ===== verification/Spec2Isabelle.thy ===== *)
theory Spec2Isabelle
  imports ClientRuns
begin

text \<open>
  This development models the lock-free queue library \<^verbatim>\<open>lockfree_mpmc_queue\<close> (C++) and proves it
  correct: the bounded queue for many producers and consumers, the pack of queues, the queue of
  unique pointers, the queue in shared memory, and the programs of the repository that test and
  measure them.

  \<^bold>\<open>The program.\<close> A queue (\<^verbatim>\<open>mpmc_queue.h\<close>) is an array of entries and two atomic indexes. An entry holds
  the data and a sequence word, position times two plus one bit that says whether it is full, in one
  atomic word. A push loads the write index, reads the entry there and tries to replace it, empty by
  full, with one compare and exchange; it then moves the index. A pop does the same with the read
  index, leaving the sequence word of the next round. A thread that finds the entry already replaced
  moves the index for the other. The lazy variants leave the index to the next call. The other classes
  are clients of the queue: \<^verbatim>\<open>mpmc_queue_pack.h\<close> spreads the elements over several queues,
  \<^verbatim>\<open>pointer_mpmc_queue.h\<close> passes the ownership of unique pointers through one, and
  \<^verbatim>\<open>shared_mpmc_queue.h\<close> maps one from a file. The programs under \<^verbatim>\<open>src/\<close> are clients of these.

  \<^bold>\<open>The theories\<close>, with the code each models:

    \<^item> \<open>Prelude\<close>, \<open>Loops\<close>: words, windows of indexes, lists; \<^verbatim>\<open>while (true)\<close> loops as \<open>spin\<close>, a
      \<open>partial_function\<close> whose value is \<open>None\<close> exactly when the loop does not end. No fuel is used in the
      sequential models, so that a statement \<open>f x = Some y\<close> says that the code returns.
    \<^item> \<open>Arrays\<close>, \<open>Entries\<close>: \<^verbatim>\<open>array_inplace\<close>, \<^verbatim>\<open>array_runtime\<close> and \<^verbatim>\<open>entry\<close>. The locale \<open>ring_array\<close> is the
      contract of an array with masked access; both classes, and the choice between them, satisfy it.
    \<^item> \<open>Mpmc\<close>: every public operation of \<^verbatim>\<open>mpmc_queue\<close> as sequential code, one definition for a function and one
      for the body of its loop. \<open>Ring\<close> defines when a queue represents a list (\<open>rep q n w r h xs\<close>: capacity \<open>n\<close>, the
      indexes at \<open>w\<close> and \<open>r\<close>, \<open>h\<close> elements removed so far; \<open>holds\<close> hides the indexes). \<open>Fifo\<close> states the contract of
      a queue as the locales \<open>fifo\<close> and \<open>indexed_fifo\<close>, with the client loops proved once inside them;
      \<open>MpmcCorrect\<close> interprets them on the model. \<open>MpmcObserve\<close> treats \<^verbatim>\<open>peek\<close>, \<^verbatim>\<open>pop_if\<close>, \<^verbatim>\<open>exchange\<close>, \<^verbatim>\<open>empty\<close> and \<^verbatim>\<open>size\<close>,
      \<open>MpmcInit\<close> the constructor and the destructor, \<open>MpmcDump\<close> the numbers that \<^verbatim>\<open>dump_state\<close> computes and prints.
    \<^item> \<open>Machine\<close>: \<^verbatim>\<open>push\<close>, \<^verbatim>\<open>pop\<close>, \<^verbatim>\<open>peek\<close>, \<^verbatim>\<open>pop_if\<close>, \<^verbatim>\<open>exchange\<close> and \<^verbatim>\<open>empty\<close> as programs of atomic steps (\<open>tstep\<close>), one
      for every access to shared memory, and the step relation of any number of threads. \<open>Linearize\<close> is the
      simulation of the abstract bounded queue, \<open>Runs\<close> draws the consequences for whole runs, \<open>Progress\<close>
      shows lock freedom, \<open>Solo\<close> (locale \<open>call_loop\<close>) that a thread which runs alone computes what \<open>Mpmc\<close> says, and \<open>SizeRuns\<close>
      adds the loads of \<^verbatim>\<open>size\<close> to a run.
    \<^item> \<open>QueuePack\<close>, \<open>PointerQueue\<close> (locale \<open>pointer_fifo\<close>), \<open>SharedQueue\<close> with \<open>Bytes\<close>: the three clients. Their
      inner queue is an argument, and their proofs use only the locale \<open>fifo\<close>.
    \<^item> \<open>HashSig\<close>: the signatures of \<^verbatim>\<open>hash_signature.h\<close>.
    \<^item> \<open>Clients\<close>: programs whose threads call one queue, or several. The locales \<open>queues_client\<close> and \<open>client\<close> ask that the
      steps of one thread do not look at the call of another; inside them every run of such a program with the
      atomic steps of \<open>Machine\<close> is shown to be a run of the same program with each call taking effect at once.
      \<open>Schedules\<close> executes such programs on a given schedule.
    \<^item> \<open>TestSuite\<close> and \<open>HashRuns\<close>: the sequential and the concurrent tests of \<^verbatim>\<open>gtest_mpmc_queue.cpp\<close>.
    \<^item> \<open>Bandwidth\<close> and \<open>Timing\<close>: \<^verbatim>\<open>QBandwidth\<close> and \<^verbatim>\<open>QTiming\<close> of \<^verbatim>\<open>mpmc_queue_timing.h\<close>; \<open>PackBench\<close> and \<open>PackMain\<close>:
      \<^verbatim>\<open>pack_benchmark.cpp\<close>, for a single queue and for a pack; \<open>TestApp\<close>: the options of \<^verbatim>\<open>q_bandwidth.cpp\<close>; \<open>SumRuns\<close>: \<^verbatim>\<open>example1.cpp\<close> and
      \<^verbatim>\<open>example2.cpp\<close>; \<open>SmallTests\<close>: \<^verbatim>\<open>shared_q_test.cpp\<close> and \<^verbatim>\<open>test_uniqptr_q.cpp\<close>. In these the threads share an
      abstract queue. \<open>BandwidthRuns\<close>, \<open>TimingQueue\<close>, \<open>HashQueue\<close>, \<open>HashIo\<close> and \<open>SumQueue\<close> interpret \<open>client\<close> on them,
      which puts \<^verbatim>\<open>QBandwidth\<close>, \<^verbatim>\<open>QTiming\<close>, the three concurrent tests and the examples on the lock-free queue.
    \<^item> \<open>PackSteps\<close>, \<open>PackUse\<close>, \<open>PackRuns\<close>: a pack under concurrency. \<open>PackSteps\<close> cuts the accessors of \<open>QueuePack\<close> into
      their calls of the queues; \<open>PackUse\<close> and \<open>PackRuns\<close> interpret \<open>queues_client\<close> on arbitrary users of a pack and
      on the benchmark.
    \<^item> \<open>Examples\<close> and \<open>ClientRuns\<close>: concrete queues, schedules and runs of programs, which the witnesses use.

  \<^bold>\<open>The lemmas.\<close> For the sequential queue: the functional behaviour of each operation on a queue that
  represents a list, every branch included, and when an operation does not return. For the concurrent
  queue: an invariant (\<open>sim\<close>) of memory, threads and abstract queue, kept by every step; a step with an event
  is a step of the abstract queue, every other step leaves it alone. For the multi-threaded programs: an
  invariant of each, kept by every step of every thread, and what it says when the threads are joined.

  \<^bold>\<open>Bounds.\<close> Index words wrap around, and the queue relies on no thread sleeping through half their range.
  \<open>fresh_run\<close> is that assumption: an index that a thread holds is less than half the index range, less the
  capacity, old. A run with fewer pushes than that satisfies it,
  whatever its threads do. The counters of the programs keep their widths; sums are modulo \<open>2\<^sup>6\<^sup>4\<close> or
  \<open>2\<^sup>3\<^sup>2\<close> as in the code.

  \<^bold>\<open>Taken for granted.\<close> Memory is sequentially consistent, as the default order of the atomics makes the
  accesses; the one plain read, of the sequence word in \<^verbatim>\<open>push\<close>, is taken as atomic too. The strong compare
  and exchange does not fail spuriously. \<^verbatim>\<open>mmap\<close> of an open file succeeds. In \<open>Machine\<close> the condition of
  \<^verbatim>\<open>pop_if\<close> keeps no state.

  \<^bold>\<open>Not modelled.\<close> The text of what is printed (the values are), \<^verbatim>\<open>usage\<close>, the clock (its readings are arguments
  or choices of the scheduler), the layout of an entry in memory and the 16-byte builtins, the comparison
  with boost, \<^verbatim>\<open>dump_state\<close> under concurrency, scripts and build files.
\<close>

section \<open>The concurrent queue\<close>

text \<open>
  C1. Linearizability. In every run of any number of threads on a queue made by the constructor,
  in which no thread holds an index older than half the index range, the events of the calls, in
  the order in which they happen, are a history of the abstract bounded FIFO queue, and the queue in
  memory represents the abstract queue that the history leads to.
\<close>

theorem linearizable:
  fixes q :: "('v::zero, 'l::len) queue"
  assumes "constructed N sz n q" and "fresh_run lp lo n (initial q) tr s"
  shows "\<exists>h xs. spec_run n (0, []) (events tr) = Some (h, xs) \<and> rep (mem s) n (wpos s) (rpos s) h xs"
  using linearize [OF assms(2) constructed_rep [OF assms(1)]] sim_rep by blast

theorem linearizable_witness:
  "events (fst demo_run) = [Pushed 0 7, Pushed 1 8, Popped 0 7] \<and>
    (\<exists>h xs. spec_run 2 (0, []) (events (fst demo_run)) = Some (h, xs) \<and>
      rep (mem (snd demo_run)) 2 (wpos (snd demo_run)) (rpos (snd demo_run)) h xs)"
  using linearizable [OF demo_constructed demo_fresh_run] by (simp add: demo_run_facts)

text \<open>
  C2. First in, first out, with nothing lost or invented: the elements popped, followed by those
  still in the queue, are exactly the elements pushed, in the order of the pushes, each with the
  index that its push returned; and at most \<open>n\<close> of them are in the queue. (Runs without a successful
  \<open>exchange\<close>, which replaces an element in place.)
\<close>

theorem fifo_order:
  fixes q :: "('v::zero, 'l::len) queue"
  assumes "constructed N sz n q" and "fresh_run lp lo n (initial q) tr s" and "\<forall>e \<in> set (events tr). \<not> swaps e"
  shows "\<exists>xs. popped (events tr) @ numbered (length (popped (events tr))) xs = pushed (events tr) \<and>
    length xs \<le> n \<and> holds (mem s) n (length (popped (events tr))) xs"
proof -
  obtain h xs where st: "spec_run n (0, []) (events tr) = Some (h, xs)" "sim n s h xs"
    using linearize [OF assms(2) constructed_rep [OF assms(1)]] by blast
  have "h = length (popped (events tr))" using spec_counts(1) [OF st(1)] by simp
  moreover have "popped (events tr) @ numbered h xs = pushed (events tr)"
    using spec_in_order [OF st(1) assms(3)] by (simp add: numbered_def)
  moreover have "holds (mem s) n h xs" by (rule rep_holds [OF sim_rep [OF st(2)]])
  ultimately show ?thesis using holds_bound by blast
qed

theorem fifo_order_witness:
  "\<exists>xs. [(0, 7)] @ numbered 1 xs = [(0 :: 32 word, 7), (1, 8)] \<and> length xs \<le> 2 \<and>
    holds (mem (snd demo_run)) 2 1 xs"
  using fifo_order [OF demo_constructed demo_fresh_run] by (simp add: demo_run_facts)

text \<open>
  C3. Every call has one event, at one of its own steps, between its call and its return; the event
  is one that the operation may have (a push pushes its argument, \<open>pop_if\<close> removes only what its
  condition accepts), and the call returns what the event says. This holds of every run.
\<close>

theorem one_event_per_call:
  fixes q :: "('v::zero, 'l::len) queue"
  assumes "sys_run lp lo (initial q) tr s"
  shows "phase_run t Outside tr = Some (phase_of (pcs s t))"
  using calls_bracketed [OF assms] by blast

theorem one_event_per_call_witness:
  "phase_run 0 Outside (fst demo_run) = Some (Decided (Push 7) (Pushed 0 7))"
  using one_event_per_call [OF demo_sys_run, of 0] by (simp add: demo_run_facts)

text \<open>
  C4. Lock freedom. If a thread in the middle of a push or a pop takes more than eight steps without
  starting another call, some call takes effect meanwhile, its own or another thread's.
\<close>

theorem lock_free:
  fixes q :: "('v::zero, 'l::len) queue"
  assumes "constructed N sz n q" and "fresh_run lp lo n (initial q) tr s" and "fresh_run lp lo n s tr' s'"
    and "in_call (pcs s t) = Some c" and "plain c" and "calls_of t tr' = 0" and "8 < steps_of t tr'"
  shows "events tr' \<noteq> []"
proof
  assume quiet: "events tr' = []"
  obtain h xs where sim: "sim n s h xs"
    using linearize [OF assms(2) constructed_rep [OF assms(1)]] by blast
  have "fresh n s" by (rule fresh_run_fresh [OF assms(2) fresh_initial])
  from quiet_run [OF assms(3) sim this _ quiet assms(6)] assms(4,5)
  have "steps_of t tr' + rank n s' t \<le> rank n s t" by simp
  then show False using assms(7) pc_rank_bound [of n s "stamp s t" "pcs s t"] by (simp add: rank_def)
qed

theorem lock_free_witness: "events (fst demo_tail) \<noteq> []"
  by (rule lock_free [OF demo_constructed demo_fresh_start demo_fresh_tail demo_start_facts(4)])
    (use demo_start_facts(6,7) in simp_all)

text \<open>
  C5. Obstruction freedom. From every state that a run can reach, a thread in a push or a pop that
  runs alone returns within nine steps, whatever the other threads have left unfinished.
\<close>

theorem alone_returns:
  fixes q :: "('v::zero, 'l::len) queue"
  assumes "constructed N sz n q" and "fresh_run lp lo n (initial q) tr s"
    and "in_call (pcs s t) = Some c" and "plain c"
  shows "\<exists>k ev q'. k \<le> 9 \<and> solo lp lo k (pcs s t, mem s) = Some (Finished c ev, q')"
proof -
  obtain h xs where sim: "sim n s h xs"
    using linearize [OF assms(2) constructed_rep [OF assms(1)]] by blast
  have "fresh n s" by (rule fresh_run_fresh [OF assms(2) fresh_initial])
  from solo_finishes [OF sim this assms(3,4), where lp = lp and lo = lo]
  obtain k ev q' where "k \<le> rank n s t + 1" "solo lp lo k (pcs s t, mem s) = Some (Finished c ev, q')" by blast
  moreover have "rank n s t \<le> 8" unfolding rank_def by (rule pc_rank_bound)
  ultimately show ?thesis by (intro exI [of _ k] exI [of _ ev] exI [of _ q']) simp
qed

theorem alone_returns_witness:
  "\<exists>k ev q'. k \<le> 9 \<and>
    solo False False k (pcs (snd demo_mid) 1, mem (snd demo_mid)) = Some (Finished (Push 8) ev, q')"
  by (rule alone_returns [OF demo_constructed demo_fresh_start demo_start_facts(4)]) simp

text \<open>
  C6. A call that reports failure is right when its event happens: at the event of a push that
  returns false, \<open>n\<close> more elements have been pushed than popped; at the event of a pop or a peek that
  finds nothing, and of an \<open>empty\<close> that returns true, all elements pushed have been popped.
\<close>

theorem failures_exact:
  fixes q :: "('v::zero, 'l::len) queue"
  assumes "constructed N sz n q" and "fresh_run lp lo n (initial q) tr s" and "sys_step lp lo s (Act t (Some ev)) s'"
  shows "(ev = Push_full \<longrightarrow> length (pushed (events tr)) = length (popped (events tr)) + n) \<and>
    (ev \<in> {Pop_empty, Peek_empty, Saw_empty True} \<longrightarrow> length (pushed (events tr)) = length (popped (events tr)))"
proof -
  obtain h xs where sim: "sim n s h xs"
    using linearize [OF assms(2) constructed_rep [OF assms(1)]] by blast
  have "fresh n s" by (rule fresh_run_fresh [OF assms(2) fresh_initial])
  from failure_counts [OF sim this assms(3)] run_counts [OF fresh_run_sys_run [OF assms(2)]]
  show ?thesis by simp
qed

theorem failures_exact_witness:
  "length (pushed (events (fst demo_pop))) = length (popped (events (fst demo_pop)))"
proof -
  obtain s' where "sys_step False False (snd demo_pop) (Act 0 (Some Pop_empty)) s'" using demo_pop_step(2) by blast
  from failures_exact [OF demo_constructed demo_pop_step(1) this] show ?thesis by simp
qed

text \<open>
  C7. A run in which at most half the index range, less the capacity, of elements are pushed needs no
  assumption about old indexes: with 64-bit indexes that is every run of fewer than \<open>2\<^sup>6\<^sup>2\<close> pushes.
\<close>

theorem short_runs_linearizable:
  fixes q :: "('v::zero, 'l::len) queue"
  assumes "constructed N sz n q" and "sys_run lp lo (initial q) tr s"
    and "length (pushed (events tr)) + n \<le> half_range TYPE('l)"
  shows "\<exists>h xs. spec_run n (0, []) (events tr) = Some (h, xs) \<and> holds (mem s) n h xs"
proof -
  note rep = constructed_rep [OF assms(1)]
  have "pushes s + n \<le> half_range TYPE('l)" using assms(3) run_counts [OF assms(2)] by simp
  from linearize [OF short_run_fresh [OF assms(2) rep this] rep] show ?thesis
    using rep_holds [OF sim_rep] by blast
qed

theorem short_runs_linearizable_witness:
  "\<exists>h xs. spec_run 2 (0, []) (events (fst demo_run)) = Some (h, xs) \<and> holds (mem (snd demo_run)) 2 h xs"
  by (rule short_runs_linearizable [OF demo_constructed demo_sys_run]) (simp add: demo_run_facts half_range_def)

text \<open>
  C8. A thread that runs alone computes the sequential operation: its \<open>push\<close> or \<open>pop\<close> finishes with an event
  exactly when the sequential definition returns the corresponding values and the same queue, and it
  never finishes exactly when the sequential definition does not return.
\<close>

theorem solo_sequential:
  fixes q :: "('v::zero, 'l::len) queue"
  shows "((\<exists>k. solo lp lo k (start (Push d), q) = Some (Finished (Push d) ev, q')) \<longleftrightarrow>
      (case ev of Pushed j d' \<Rightarrow> d' = d \<and> push_index lp d i q = Some (True, j, q')
       | Push_full \<Rightarrow> push_index lp d i q = Some (False, i, q') | _ \<Rightarrow> False)) \<and>
    ((\<exists>k. solo lp lo k (start Pop, q) = Some (Finished Pop ev, q')) \<longleftrightarrow>
      (case ev of Popped j x \<Rightarrow> pop_index lo d i q = Some (True, x, j, q')
       | Pop_empty \<Rightarrow> pop_index lo d i q = Some (False, d, i, q') | _ \<Rightarrow> False))"
  using solo_push_iff solo_pop_iff by (rule conjI)

section \<open>The operations, one call at a time\<close>

text \<open>
  C9. \<open>push\<close> always returns. On a queue with room it returns true, with the position of the element
  as its index, and appends the element; on a full queue it returns false, leaves the index alone and
  changes nothing. Both overloads agree, for all four lazy variants and wherever the indexes lag.
\<close>

theorem push_contract:
  fixes q :: "('v::zero, 'l::len) queue"
  assumes "holds q n h xs"
  shows "\<exists>q'. push lp d q = Some (length xs < n, q') \<and>
    push_index lp d i q = Some (length xs < n, if length xs < n then of_nat (h + length xs) else i, q') \<and>
    holds q' n h (if length xs < n then xs @ [d] else xs)"
proof -
  have pp: "push lp d q = map_option (\<lambda>(b, _, q'). (b, q')) (push_index lp d i q)" by (rule push_push_index)
  show ?thesis
  proof (cases "length xs < n")
    case True
    then show ?thesis using mpmc.push_index_room [OF assms, where lp = lp and d = d and i = i] pp by auto
  next
    case False
    then have "length xs = n" using holds_bound [OF assms] by simp
    then show ?thesis using mpmc.push_index_full [OF assms, where lp = lp and d = d and i = i] pp by auto
  qed
qed

theorem push_contract_witness:
  "\<exists>q'. push False 5 demo_queue = Some (True, q') \<and> push_index False 5 9 demo_queue = Some (True, 0, q') \<and>
    holds q' 2 0 [5]"
  using push_contract [OF demo_holds, of False 5 9] by simp

text \<open>
  C10. \<open>pop\<close> always returns. On a queue that is not empty it returns true, with the head and its
  position, and removes the head; on an empty queue it returns false and leaves its arguments alone.
\<close>

theorem pop_contract:
  fixes q :: "('v::zero, 'l::len) queue"
  assumes "holds q n h xs"
  shows "\<exists>q'. (case xs of
      [] \<Rightarrow> pop lo d q = Some (False, d, q') \<and> pop_index lo d i q = Some (False, d, i, q') \<and> holds q' n h []
    | x # ys \<Rightarrow> pop lo d q = Some (True, x, q') \<and> pop_index lo d i q = Some (True, x, of_nat h, q') \<and>
        holds q' n (h + 1) ys)"
proof -
  have pp: "pop lo d q = map_option (\<lambda>(b, v, _, q'). (b, v, q')) (pop_index lo d i q)" by (rule pop_pop_index)
  show ?thesis
  proof (cases xs)
    case Nil
    with mpmc.pop_index_none [of q n h lo d i] assms pp show ?thesis by auto
  next
    case (Cons x ys)
    with mpmc.pop_index_some [of q n h x ys lo d i] assms pp show ?thesis by auto
  qed
qed

theorem pop_contract_witness:
  "\<exists>q'. pop True 1 (queue_at 4 9 6 6 [3, 4, 5] :: (u32, 32) queue) = Some (True, 3, q') \<and>
    pop_index True 1 0 (queue_at 4 9 6 6 [3, 4, 5] :: (u32, 32) queue) = Some (True, 3, 6, q') \<and> holds q' 4 7 [4, 5]"
proof -
  have "holds (queue_at 4 9 6 6 [3, 4, 5] :: (u32, 32) queue) 4 6 [3, 4, 5]"
    by (rule rep_holds, rule rep_queue_at [where k = 2]) (simp_all add: half_range_def)
  from pop_contract [OF this, of True 1 0] show ?thesis by simp
qed



text \<open>
  C12. \<open>consume\<close> hands the elements with their positions to the functor in order, stops after the first
  one it accepts or when the queue is empty, removes exactly what it handed over and returns their number.
\<close>

theorem consume_contract:
  fixes q :: "('v::zero, 'l::len) queue" and f :: "'v \<Rightarrow> 'l word \<Rightarrow> 's \<Rightarrow> bool \<times> 's"
  assumes "holds q n h xs"
  shows "\<exists>q'. consume lo f v i s q =
      Some (of_nat (fst (consume_list f of_nat h s xs)), snd (consume_list f of_nat h s xs), q') \<and>
    holds q' n (h + fst (consume_list f of_nat h s xs)) (drop (fst (consume_list f of_nat h s xs)) xs)"
  by (rule consume_holds [OF assms])

theorem consume_contract_witness:
  "\<exists>q'. consume False (\<lambda>x i s. (x = 4, s + i)) 0 0 0 (queue_at 4 9 6 6 [3, 4, 5] :: (u32, 32) queue) = Some (2, 13, q') \<and>
    holds q' 4 8 [5]"
proof -
  have "holds (queue_at 4 9 6 6 [3, 4, 5] :: (u32, 32) queue) 4 6 [3, 4, 5]"
    by (rule rep_holds, rule rep_queue_at [where k = 2]) (simp_all add: half_range_def)
  from consume_contract [OF this, of False "\<lambda>x i s. (x = 4, s + i)" 0 0 0] show ?thesis by simp
qed

text \<open>
  C13. \<open>exchange\<close> replaces the value of an element in place exactly when the index addresses an element
  that is in the queue and has the old value; otherwise it returns false and changes nothing. An index
  addresses a position when they agree up to half the index range.
\<close>

theorem exchange_contract:
  fixes q :: "('v::zero, 'l::len) queue"
  assumes "holds q n h xs"
  shows "\<exists>q'. (case find_addressed i old h xs of
      None \<Rightarrow> exchange i old new q = Some (False, q)
    | Some p \<Rightarrow> exchange i old new q = Some (True, q') \<and> holds q' n h (xs[p := new]))"
proof -
  obtain w r where rep: "rep q n w r h xs" using assms by (auto simp: holds_def)
  show ?thesis
  proof (cases "find_addressed i old h xs")
    case None
    with exchange_correct(2) [OF rep find_addressed_None [THEN iffD1, OF None]] show ?thesis by simp
  next
    case (Some p)
    with find_addressed_Some [OF Some] exchange_correct(1) [OF rep, of p i old new] show ?thesis
      by (auto dest: rep_holds)
  qed
qed

theorem exchange_contract_witness:
  "\<exists>q'. exchange 7 4 9 (queue_at 4 9 6 6 [3, 4, 5] :: (u32, 32) queue) = Some (True, q') \<and> holds q' 4 6 [3, 9, 5]"
proof -
  have "holds (queue_at 4 9 6 6 [3, 4, 5] :: (u32, 32) queue) 4 6 [3, 4, 5]"
    by (rule rep_holds, rule rep_queue_at [where k = 2]) (simp_all add: half_range_def)
  moreover have "find_addressed (7 :: 32 word) (4 :: u32) 6 [3, 4, 5] = Some 1"
    by (simp add: find_addressed_def addresses_def seq_full_def upt_rec)
  ultimately show ?thesis using exchange_contract [of _ 4 6 "[3, 4, 5]" 7 4 9] by fastforce
qed

text \<open>
  C14. \<open>peek\<close> returns the head without removing it, and false on an empty queue; when it finds the read
  index lagging it moves it first. It does so only if the lagging index is recognised
  (\<open>lag_visible\<close>): otherwise it never returns. The indexed overload reports the sequence word of the
  entry, twice the position plus one.
\<close>

theorem peek_contract:
  fixes q :: "('v::zero, 'l::len) queue"
  assumes "rep q n w r h xs"
  shows "if lag_visible TYPE('l) n r h
    then \<exists>q'. peek d q = Some (if xs = [] then (False, d, q') else (True, hd xs, q')) \<and>
      peek_index d i q = Some (if xs = [] then (False, d, i, q') else (True, hd xs, of_nat (2 * h + 1), q')) \<and>
      rep q' n w h h xs
    else peek d q = None \<and> peek_index d i q = None"
proof (cases "lag_visible TYPE('l) n r h")
  case True
  obtain q' where "peek_index d i q = Some (if xs = [] then (False, d, i, q') else (True, hd xs, of_nat (2 * h + 1), q'))"
    and "rep q' n w h h xs"
    using peek_index_correct [OF assms True] by blast
  moreover from this(1) have "peek d q = Some (if xs = [] then (False, d, q') else (True, hd xs, q'))"
    by (simp add: peek_peek_index [of d q i])
  ultimately have "\<exists>q'. peek d q = Some (if xs = [] then (False, d, q') else (True, hd xs, q')) \<and>
      peek_index d i q = Some (if xs = [] then (False, d, i, q') else (True, hd xs, of_nat (2 * h + 1), q')) \<and>
      rep q' n w h h xs" by blast
  with True show ?thesis by simp
next
  case False
  then show ?thesis using peek_spins [OF assms False] peek_index_spins [OF assms False] by simp
qed

theorem peek_contract_witness:
  "\<exists>q'. peek 0 (queue_at 4 9 6 6 [3, 4, 5] :: (u32, 32) queue) = Some (True, 3, q') \<and>
    peek_index 0 0 (queue_at 4 9 6 6 [3, 4, 5] :: (u32, 32) queue) = Some (True, 3, 13, q')"
proof -
  have "rep (queue_at 4 9 6 6 [3, 4, 5] :: (u32, 32) queue) 4 9 6 6 [3, 4, 5]"
    by (rule rep_queue_at [where k = 2]) (simp_all add: half_range_def)
  from peek_contract [OF this, of 0 0] show ?thesis by (auto simp: lag_visible_def)
qed

text \<open>
  C15. With a lazy pop such a state comes up in every queue's life: after half the index range of
  positions, less the capacity, a \<open>peek\<close> of the empty queue never returns.
\<close>

theorem lazy_peek_hangs:
  fixes q :: "('v::zero, 'l::len) queue"
  assumes "constructed N sz n q"
  shows "\<exists>q'. cycles lp True d (half_range TYPE('l) - n + 1) q = Some q' \<and>
    pop True d q' \<noteq> None \<and> peek d q' = None \<and> peek_index d i q' = None"
proof -
  note rep = constructed_rep [OF assms]
  let ?k = "half_range TYPE('l) - n + 1"
  obtain w q' where q': "cycles lp True d ?k q = Some q'" "rep q' n w (half_range TYPE('l) - n) ?k []"
    using cycles_lazy [OF rep, of lp d ?k] by auto
  have "n < half_range TYPE('l)" by (rule shape_bounds(3) [OF rep_shape [OF rep]])
  then have "\<not> lag_visible TYPE('l) n (half_range TYPE('l) - n) ?k" by (simp add: lag_visible_def)
  with q' peek_spins [OF q'(2)] peek_index_spins [OF q'(2)] pop_correct(2) [OF q'(2), of True d] show ?thesis by auto
qed

theorem lazy_peek_hangs_witness:
  "\<exists>q'. cycles False True 7 (2 ^ 31 - 1) demo_queue = Some q' \<and> pop True 7 q' \<noteq> None \<and> peek 7 q' = None"
  using lazy_peek_hangs [OF demo_constructed, of False 7 0] by (auto simp: half_range_def)

text \<open>
  C16. \<open>pop_if\<close> on a recognised read index: on an empty queue it returns false without calling the
  condition; otherwise it calls the condition once, with the head and its sequence word, removes the
  head if the condition holds, and leaves the queue alone if it does not.
\<close>

theorem pop_if_contract:
  fixes q :: "('v::zero, 'l::len) queue"
  assumes "rep q n w r h xs" and "lag_visible TYPE('l) n r h"
  shows "\<exists>q'. (case xs of
      [] \<Rightarrow> pop_if lo f d fs q = Some (False, d, fs, q') \<and> rep q' n w h h []
    | x # ys \<Rightarrow>
        (case f x (of_nat (2 * h + 1)) fs of (wanted, fs') \<Rightarrow>
          if wanted
          then pop_if lo f d fs q = Some (True, x, fs', q') \<and> rep q' n w (if lo then h else h + 1) (h + 1) ys
          else pop_if lo f d fs q = Some (False, d, fs', q') \<and> rep q' n w h h xs))"
proof (cases xs)
  case Nil
  with pop_if_correct(1) [OF assms, of lo f d fs] show ?thesis by simp
next
  case (Cons x ys)
  obtain wanted fs' where f: "f x (of_nat (2 * h + 1)) fs = (wanted, fs')" by fastforce
  show ?thesis
  proof (cases wanted)
    case True
    with pop_if_correct(3) [OF assms, where f = f and fs = fs and fs' = fs' and lo = lo and d = d] Cons f
    show ?thesis by simp
  next
    case False
    with pop_if_correct(2) [OF assms, where f = f and fs = fs and fs' = fs' and lo = lo and d = d] Cons f
    show ?thesis by simp
  qed
qed

theorem pop_if_contract_witness:
  "\<exists>q'. pop_if False (\<lambda>x i s. (x = 3, s + 1)) 0 (0 :: nat) (queue_at 4 9 6 6 [3, 4, 5] :: (u32, 32) queue) =
      Some (True, 3, 1, q') \<and> rep q' 4 9 7 7 [4, 5]"
proof -
  have "rep (queue_at 4 9 6 6 [3, 4, 5] :: (u32, 32) queue) 4 9 6 6 [3, 4, 5]"
    by (rule rep_queue_at [where k = 2]) (simp_all add: half_range_def)
  moreover have "lag_visible TYPE(32) 4 6 6" by (simp add: lag_visible_def)
  ultimately show ?thesis
    using pop_if_contract [of _ 4 9 6 6 "[3, 4, 5]" False "\<lambda>x i s. (x = 3, s + 1)" 0 "0 :: nat"] by fastforce
qed

text \<open>
  C17. \<open>empty\<close> returns true exactly when the queue is empty and the read index does not lag: after a lazy
  pop of the last element it returns false on an empty queue, and it does not move the read index. \<open>size\<close> is the distance of
  the two indexes; when the write index has wrapped around and the read index has not, it is off by the capacity minus the range of
  the index type.
\<close>

theorem observers_contract:
  fixes q :: "('v::zero, 'l::len) queue"
  assumes "rep q n w r h xs"
  shows "empty q = Some (xs = [] \<and> r = h) \<and>
    (r \<le> w \<and> w div 2 ^ LENGTH('l) = r div 2 ^ LENGTH('l) \<longrightarrow>
      size_of q = Some (if xs = [] \<and> r = h then 0 else of_nat (w - r))) \<and>
    (xs \<noteq> [] \<and> w mod 2 ^ LENGTH('l) < r mod 2 ^ LENGTH('l) \<and> w div 2 ^ LENGTH('l) = Suc (r div 2 ^ LENGTH('l)) \<longrightarrow>
      size_of q = Some (of_nat (w - r) + of_nat n - 2 ^ LENGTH('l)))"
proof (intro conjI impI)
  show "empty q = Some (xs = [] \<and> r = h)" by (rule empty_exact [OF assms])
  show "size_of q = Some (if xs = [] \<and> r = h then 0 else of_nat (w - r))"
    if "r \<le> w \<and> w div 2 ^ LENGTH('l) = r div 2 ^ LENGTH('l)"
    using size_exact [OF assms] that by (simp add: full_range)
  assume a: "xs \<noteq> [] \<and> w mod 2 ^ LENGTH('l) < r mod 2 ^ LENGTH('l) \<and> w div 2 ^ LENGTH('l) = Suc (r div 2 ^ LENGTH('l))"
  have "r \<le> w"
  proof (rule ccontr)
    assume "\<not> r \<le> w"
    then have "w div 2 ^ LENGTH('l) \<le> r div 2 ^ LENGTH('l)" by (intro div_le_mono) simp
    with a show False by simp
  qed
  with size_wrapped [OF assms] a show "size_of q = Some (of_nat (w - r) + of_nat n - 2 ^ LENGTH('l))" by (simp add: full_range)
qed

theorem observers_contract_witness:
  "empty (queue_at 4 6 5 6 [] :: (u32, 32) queue) = Some False \<and>
    size_of (queue_at 4 4294967297 4294967295 4294967295 [3, 4] :: (u32, 32) queue) = Some (2 + 4 - 2 ^ 32)"
proof
  show "empty (queue_at 4 6 5 6 [] :: (u32, 32) queue) = Some False"
    using observers_contract [of "queue_at 4 6 5 6 [] :: (u32, 32) queue" 4 6 5 6 "[]"]
      rep_queue_at [of 4 2 "[] :: u32 list" 6 6 5, where 'l = 32]
    by (simp add: half_range_def)
  have "rep (queue_at 4 4294967297 4294967295 4294967295 [3, 4] :: (u32, 32) queue) 4 4294967297 4294967295 4294967295 [3, 4]"
    by (rule rep_queue_at [where k = 2]) (simp_all add: half_range_def)
  from observers_contract [OF this]
  show "size_of (queue_at 4 4294967297 4294967295 4294967295 [3, 4] :: (u32, 32) queue) = Some (2 + 4 - 2 ^ 32)" by simp
qed

text \<open>
  C18. \<open>size\<close> while other threads push and pop, in any interleaving of its loads with their steps. As long as fewer elements have been removed
  at its end than had been pushed at its start, the answer differs from the number of elements by at most the numbers of pushes and
  pops during the call and one; alone it is what the sequential definition says. But it loads the indexes once more for the difference, and
  when both elements of a queue of capacity 2 are popped in between, the answer is \<open>2\<^sup>3\<^sup>2 - 1\<close>.
\<close>

theorem size_concurrent:
  fixes q :: "('v::zero, 'l::len) queue"
  shows "(constructed N sz n q \<longrightarrow> sys_run lp lo (initial q) tr0 s0 \<longrightarrow> size_run lp lo s0 tr s (Z_done v) \<longrightarrow>
      length (pushed (events (tr0 @ tr))) + n \<le> half_range TYPE('l) \<longrightarrow>
      length (popped (events (tr0 @ tr))) < length (pushed (events tr0)) \<longrightarrow>
      length (pushed (events tr0)) \<le> unat v + length (popped (events (tr0 @ tr))) + 1 \<and>
      unat v + length (popped (events tr0)) \<le> length (pushed (events (tr0 @ tr))) + 1 \<and>
      (tr = [] \<longrightarrow> size_of (mem s0) = Some v)) \<and>
    (\<exists>tr0 s0 tr s. sys_run False False (initial demo_queue) tr0 s0 \<and> size_run False False s0 tr s (Z_done (2 ^ 32 - 1)) \<and>
      pushed (events tr0) = [(0, 7)])"
proof
  have "length (pushed (events tr0)) \<le> unat v + length (popped (events (tr0 @ tr))) + 1 \<and>
      unat v + length (popped (events tr0)) \<le> length (pushed (events (tr0 @ tr))) + 1 \<and> (tr = [] \<longrightarrow> size_of (mem s0) = Some v)"
    if a: "constructed N sz n q" "sys_run lp lo (initial q) tr0 s0" "size_run lp lo s0 tr s (Z_done v)"
      "length (pushed (events (tr0 @ tr))) + n \<le> half_range TYPE('l)" "length (popped (events (tr0 @ tr))) < length (pushed (events tr0))"
    using size_bounds [OF a(3,2) constructed_rep [OF a(1)]] size_alone [OF a(3)] a(4,5)
      run_counts [OF a(2)] run_counts [OF size_sys_run [OF a(3,2)]] by simp
  then show "constructed N sz n q \<longrightarrow> sys_run lp lo (initial q) tr0 s0 \<longrightarrow> size_run lp lo s0 tr s (Z_done v) \<longrightarrow>
      length (pushed (events (tr0 @ tr))) + n \<le> half_range TYPE('l) \<longrightarrow>
      length (popped (events (tr0 @ tr))) < length (pushed (events tr0)) \<longrightarrow>
      length (pushed (events tr0)) \<le> unat v + length (popped (events (tr0 @ tr))) + 1 \<and>
      unat v + length (popped (events tr0)) \<le> length (pushed (events (tr0 @ tr))) + 1 \<and>
      (tr = [] \<longrightarrow> size_of (mem s0) = Some v)" by blast
  obtain tr0 s0 tr s where r: "sys_run False False (initial demo_queue) tr0 s0" "events tr0 = [Pushed 0 7]"
      "size_run False False s0 tr s (Z_done 4294967295)"
    by (rule demo_sizes)
  then show "\<exists>tr0 s0 tr s. sys_run False False (initial demo_queue) tr0 s0 \<and> size_run False False s0 tr s (Z_done (2 ^ 32 - 1)) \<and>
      pushed (events tr0) = [(0, 7)]"
    by (intro exI [of _ tr0] exI [of _ s0] exI [of _ tr] exI [of _ s]) simp
qed

theorem size_concurrent_witness:
  "\<exists>tr0 s0 tr s. sys_run False False (initial demo_queue) tr0 s0 \<and> size_run False False s0 tr s (Z_done 2) \<and>
    length (pushed (events tr0)) \<le> 2 + length (popped (events (tr0 @ tr))) + 1"
proof -
  obtain tr0 s0 tr s where r: "sys_run False False (initial demo_queue) tr0 s0" "events tr0 = [Pushed 0 7]"
      "size_run False False s0 tr s (Z_done 2)" "events tr = [Pushed 1 8]"
    by (rule demo_sizes)
  have "length (pushed (events tr0)) \<le> 2 + length (popped (events (tr0 @ tr))) + 1"
    using size_concurrent [of 0 2 2 demo_queue False False tr0 s0 tr s 2] demo_constructed r
    by (simp add: events_append half_range_def)
  with r(1,3) show ?thesis by blast
qed

text \<open>
  C19. \<open>dump_state\<close> of a queue whose size fits its counter ends and shows the queue as it is: the number of its
  elements, and one line for every position of the window, full with its element or empty. The difference of
  the two effective indexes is the distance of the indexes, but once only the write index has left its half of the index
  range it is off by the capacity minus that half.
\<close>

theorem dump_shows_queue:
  fixes q :: "('v::zero, 'l::len) queue"
  assumes "rep q n w r h xs" and "r \<le> w" and "n < 2 ^ 32" and "n + 1 < half_range TYPE('l)"
  shows "\<exists>d. dump_state q = Some d \<and> d_entries d = of_nat (length xs) \<and> length (d_lines d) = n \<and>
    (\<forall>x. h \<le> x \<longrightarrow> x < h + n \<longrightarrow> d_lines d ! (x mod n) = position_line TYPE('l) n h xs x) \<and>
    d_difference d = (if w div half_range TYPE('l) = r div half_range TYPE('l) then of_nat (w - r)
      else of_nat (w - r) + of_nat n - of_nat (half_range TYPE('l)))"
proof -
  have lt: "w - r < half_range TYPE('l)"
    using rep_indexes [OF assms(1)] rep_length [OF assms(1)] assms(4) by simp
  have len: "LENGTH('l) \<le> 64" by (rule shape_bounds(4) [OF rep_shape [OF assms(1)]])
  from dump_of_rep [OF assms(1,3)] show ?thesis unfolding effective_difference_eq [OF assms(2) lt len] .
qed

theorem dump_shows_queue_witness:
  "\<exists>d. dump_state (queue_at 4 2147483649 2147483647 2147483647 [3, 4] :: (u32, 32) queue) = Some d \<and> d_entries d = 2 \<and>
    d_lines d ! 3 = \<lparr>l_index = 3, l_position = 2147483647, l_round = 536870911, l_cell = 3, l_full = True, l_data = 3\<rparr> \<and>
    d_difference d = 2 + 4 - 2147483648"
proof -
  have "rep (queue_at 4 2147483649 2147483647 2147483647 [3, 4] :: (u32, 32) queue) 4 2147483649 2147483647 2147483647 [3, 4]"
    by (rule rep_queue_at [where k = 2]) (simp_all add: half_range_def)
  from dump_shows_queue [OF this] obtain d where
    d: "dump_state (queue_at 4 2147483649 2147483647 2147483647 [3, 4] :: (u32, 32) queue) = Some d" "d_entries d = 2"
    "\<forall>x. 2147483647 \<le> x \<longrightarrow> x < 2147483651 \<longrightarrow> d_lines d ! (x mod 4) = position_line TYPE(32) 4 2147483647 [3, 4] x"
    "d_difference d = 2 + 4 - 2147483648"
    by (auto simp: half_range_def)
  from d(3) [rule_format, of 2147483647] d(1,2,4) show ?thesis by (simp add: position_line_def half_range_def)
qed

section \<open>Construction and destruction\<close>







section \<open>Packs of queues\<close>

text \<open>
  C23. The pop of a pack's consumer takes the head of the first queue that is not empty, going round from
  the consumer's current queue; the consumer stays at that queue, except that it moves on after its
  \<open>K\<close>-th pop in a row from its current queue. If all queues are empty it returns false and the consumer
  stands one queue back.
\<close>

theorem pack_pop:
  fixes p :: "('v::zero, 'l::len) queue pack"
  assumes "pack_holds (\<lambda>q. holds q n) G p hs xss" and "at_queue G c i"
  shows "\<exists>c' p'. case first_nonempty (unat G) i xss of
      None \<Rightarrow> consumer_pop G K (pop lo) c d p = Some (False, c', d, p') \<and>
        at_queue G c' ((i + unat G - 1) mod unat G) \<and> pop_count c' = 0 \<and> pack_holds (\<lambda>q. holds q n) G p' hs xss
    | Some k \<Rightarrow> (let j = (i + k) mod unat G; turn = (k = 0 \<and> pop_count c + 1 \<ge> K)
        in consumer_pop G K (pop lo) c d p = Some (True, c', hd (xss ! j), p') \<and>
           at_queue G c' (if turn then (j + 1) mod unat G else j) \<and>
           pop_count c' = (if 0 < k \<or> turn then 0 else pop_count c + 1) \<and>
           pack_holds (\<lambda>q. holds q n) G p' (hs[j := hs ! j + 1]) (xss[j := tl (xss ! j)]))"
  by (rule mpmc.consumer_pop_holds [OF assms])

theorem pack_pop_witness:
  "\<exists>c' p'. consumer_pop 2 3 (pop False) \<lparr>read_queue_index = 0, pop_count = 0\<rparr> 0 (demo_pack [] [3, 4]) = Some (True, c', 3, p') \<and>
    at_queue 2 c' 1 \<and> pack_holds (\<lambda>q. holds q 4) 2 p' [0, 1] [[], [4]]"
proof -
  have "at_queue 2 \<lparr>read_queue_index = 0, pop_count = 0\<rparr> 0" by (simp add: at_queue_def)
  moreover have "first_nonempty 2 0 [[], [3 :: u32, 4]] = Some 1" by (simp add: first_nonempty_def upt_rec)
  ultimately show ?thesis
    using pack_pop [OF demo_pack_holds [of "[]" "[3, 4]", simplified], of "\<lparr>read_queue_index = 0, pop_count = 0\<rparr>" 0 3 False 0] by fastforce
qed

text \<open>
  C24. A pack under concurrency. However many threads push and pop through their accessors of a pack, on the lock-free
  queues and in any interleaving: when no operation is under way, every queue in memory has a history \<open>hist\<close>, of
  which it holds all but the first elements. Each producer has pushed to one queue only, its successful pushes in its
  order are a subsequence of the history, and what a consumer took from the queue, in its order, is a subsequence of the
  part that has been removed; all of them together make up the history and that part, with nothing lost, doubled or invented.
  In particular a consumer gets the elements of one producer in the order in which they were pushed.
\<close>

theorem pack_order:
  fixes q :: "('v::zero, 'l::len) queue"
  assumes "constructed N sz n q" and "0 < groups u"
    and "queues_run (use_program u) lp lo (\<lambda>j. initial q) (use_start P C) ms S g"
    and "fresh_queues lp lo n (\<lambda>j. initial q) ms S" and "\<forall>t. use_call g t = (None :: (nat \<times> ('v, 'l word) op) option)"
  shows "(\<forall>j. \<exists>k hist. holds (mem (S j)) n k (drop k hist) \<and>
      (\<forall>p \<in> set (pushers g). subseq (pushed_to j p) hist) \<and>
      mset hist = sum_list (map (\<lambda>p. mset (pushed_to j p)) (pushers g)) \<and>
      (\<forall>p \<in> set (poppers g). subseq (taken_from j p) (take k hist)) \<and>
      mset (take k hist) = sum_list (map (\<lambda>p. mset (taken_from j p)) (poppers g))) \<and>
    (\<forall>p \<in> set (pushers g). \<exists>j < unat (groups u). pu_log p = pushed_to j p) \<and>
    (\<forall>p \<in> set (poppers g). \<forall>x \<in> set (po_log p). fst x < unat (groups u))"
proof -
  note h = pack_histories [OF assms(3,4) constructed_rep [OF assms(1)] assms(2)] and quiet = assms(5) [rule_format]
  have "use_wf u g" by (rule h(1) [OF quiet])
  have "\<exists>j < unat (groups u). pu_log p = pushed_to j p" if "p \<in> set (pushers g)" for p
  proof (cases "pu_accessor p")
    case None
    have "0 < unat (groups u)" using assms(2) by (simp add: word_less_nat_alt)
    then show ?thesis using None that \<open>use_wf u g\<close> by (auto simp: use_wf_def pusher_wf_def pushed_to_def)
  next
    case (Some a)
    then show ?thesis using that \<open>use_wf u g\<close>
      by (intro exI [of _ "unat (queue_index a)"]) (auto simp: use_wf_def pusher_wf_def pushed_to_def)
  qed
  moreover have "\<forall>p \<in> set (poppers g). \<forall>x \<in> set (po_log p). fst x < unat (groups u)"
    using \<open>use_wf u g\<close> by (simp add: use_wf_def popper_wf_def)
  moreover have "\<exists>k hist. holds (mem (S j)) n k (drop k hist) \<and>
      (\<forall>p \<in> set (pushers g). subseq (pushed_to j p) hist) \<and>
      mset hist = sum_list (map (\<lambda>p. mset (pushed_to j p)) (pushers g)) \<and>
      (\<forall>p \<in> set (poppers g). subseq (taken_from j p) (take k hist)) \<and>
      mset (take k hist) = sum_list (map (\<lambda>p. mset (taken_from j p)) (poppers g))" for j
    using h(2) [OF quiet, of j] by (auto simp: history_def o_def)
  ultimately show ?thesis by blast
qed

theorem pack_order_witness:
  "\<exists>ms S g. queues_run (use_program (Queue_pack 2 2)) False False (\<lambda>j. initial demo_queue) (use_start 2 1) ms S g \<and>
    map pu_log (pushers g) = [[7, 9], [8]] \<and> map po_log (poppers g) = [[(0, 7), (0, 9), (1, 8)]] \<and>
    (\<exists>k hist. holds (mem (S 0)) 2 k (drop k hist) \<and> mset (take k hist) = {#7, 9#})"
proof -
  let ?K = "use_program (Queue_pack 2 2) :: (u32 use_act, u32 pack_use, u32, 32 word) queues_program"
  obtain ms S g where e: "queues_exec ?K False False demo_sharing ([], \<lambda>j. initial demo_queue, use_start 2 1) = Some (ms, S, g)"
      "map pu_log (pushers g) = [[7, 9], [8]]" "map po_log (poppers g) = [[(0, 7), (0, 9), (1, 8)]]" "length ms \<le> 100"
      "\<forall>p \<in> set (pushers g). pu_pending p = None" "\<forall>p \<in> set (poppers g). po_stage p = None"
    using demo_sharing_exec by (auto simp: list_all_iff split: option.splits)
  have few: "length ms + 2 \<le> 1000" using e(4) by simp
  note r = queues_exec_fresh [OF e(1) demo_constructed few]
  have quiet: "\<forall>t. use_call g t = (None :: (nat \<times> (u32, 32 word) op) option)"
    using e(5,6) by (auto simp: use_call_def split: role.split option.split)
  have "0 < groups (Queue_pack 2 2)" by simp
  from pack_order [OF demo_constructed this r quiet] obtain k hist where h: "holds (mem (S 0)) 2 k (drop k hist)"
      "mset (take k hist) = sum_list (map (\<lambda>p. mset (taken_from 0 p)) (poppers g))"
    by blast
  from e(3) have "map (taken_from 0) (poppers g) = [[7, 9]]" by (auto simp: taken_from_def)
  then have "map (\<lambda>p. mset (taken_from 0 p)) (poppers g) = [{#7, 9#}]" by auto
  then have "mset (take k hist) = {#7, 9#}" using h(2) by simp
  then show ?thesis
    by (intro exI [of _ ms] exI [of _ S] exI [of _ g] conjI r(1) e(2,3) exI [of _ k] exI [of _ hist] h(1))
qed

section \<open>Queues of unique pointers\<close>

text \<open>
  C25. Ownership. Whatever a client does with an array of unique pointers - making objects, pushing the
  pointer of a slot, popping into a slot - every object that was made is afterwards in exactly one place:
  owned by one slot, in the queue once, or deleted once. So nothing leaks, nothing is deleted twice and
  nothing that is deleted is still reachable.
\<close>

theorem pointers_conserved:
  fixes s :: "(('p::zero, 'l::len) queue, 'p) pointer_queue"
  assumes "holds (inner s) n h xs" and "\<forall>x \<in> set ops. slot x < length vs"
    and "distinct (filter (\<lambda>v. v \<noteq> 0) (vs @ xs @ deleted s @ made ops))" and "0 \<notin> set (deleted s)"
  shows "\<exists>vs' s' h' xs'. client_run (push lp) (pop lo) ops (vs, s) = Some (vs', s') \<and> holds (inner s') n h' xs' \<and>
    owned vs' + owned xs' + mset (deleted s') = owned (vs @ xs @ made ops) + mset (deleted s) \<and>
    distinct (filter (\<lambda>v. v \<noteq> 0) (vs' @ xs') @ deleted s')"
proof -
  from pointers.client_run_conserves [OF assms(1,2), of lp lo] obtain vs' s' h' xs' where
    st: "client_run (push lp) (pop lo) ops (vs, s) = Some (vs', s')" "holds (inner s') n h' xs'"
    and cons: "owned vs' + owned xs' + mset (deleted s') = owned vs + owned xs + mset (deleted s) + owned (made ops)"
    by blast
  moreover have "distinct (filter (\<lambda>v. v \<noteq> 0) (vs' @ xs') @ deleted s')"
    by (rule conserved_distinct [OF cons assms(3,4)])
  moreover have "owned vs' + owned xs' + mset (deleted s') = owned (vs @ xs @ made ops) + mset (deleted s)"
    using cons by (simp add: ac_simps)
  ultimately show ?thesis by blast
qed

theorem pointers_conserved_witness:
  "\<exists>vs' s' h' xs'. client_run (push False) (pop False) [Make 0 10, Push_from 0, Make 0 20, Push_from 0, Make 0 30, Push_from 0, Pop_into 0]
      ([0], \<lparr>inner = demo_queue, deleted = []\<rparr>) = Some (vs', s') \<and> holds (inner s') 2 h' xs' \<and>
    owned vs' + owned xs' + mset (deleted s') = {#10, 20, 30#}"
  using pointers_conserved [of "\<lparr>inner = demo_queue, deleted = []\<rparr>" 2 0 "[]"
      "[Make 0 10, Push_from 0, Make 0 20, Push_from 0, Make 0 30, Push_from 0, Pop_into 0]" "[0]" False False] demo_holds
  by (fastforce simp: uptr_destroy_def)

section \<open>Queues shared between processes\<close>





text \<open>
  C28. The program with the shared queue: after \<open>m\<close> producers, up to as many as the queue has room for, have run on a
  new file, a consumer ends and prints all their values in order, and the next consumer ends and prints nothing.
\<close>

theorem shared_processes:
  assumes "head_bytes f = []" and "header_wf junk" and "0 < m" and "m \<le> 42"
  shows "\<exists>f'. run_processes bytes junk (replicate m [''-p''] @ [[''-c''], [''-c'']]) f =
    Some (replicate m (Mapped (Values [])) @ [Mapped (Values (concat (replicate m [123, 234, 345]))), Mapped (Values [])], f')"
  by (rule processes_in_turn [OF assms])

theorem shared_processes_witness:
  "\<exists>f'. run_processes 4096 demo_junk [[''-p''], [''-p''], [''-c''], [''-c'']] \<lparr>head_bytes = [], queue_pages = None\<rparr> =
    Some ([Mapped (Values []), Mapped (Values []), Mapped (Values [123, 234, 345, 123, 234, 345]), Mapped (Values [])], f')"
  using shared_processes [of "\<lparr>head_bytes = [], queue_pages = None\<rparr>" demo_junk 2 4096] demo_junk_wf
  by (simp add: numeral_2_eq_2)

section \<open>The benchmarks\<close>

text \<open>
  C29. The bandwidth measurement on the lock-free queue is right: in every run with at least one consumer, in which the
  steps of all pushes, pops and tests interleave in any order, the total of the pops is the total of the pushes (modulo the
  width of the counters) at the report, which prints no error and no difference, and nothing is left in the queue.
\<close>

theorem bandwidth_on_queue:
  fixes q :: "('v::zero, 'l::len) queue"
  assumes "constructed N sz n q" and "program_run (bench_program conv) lp lo (initial q) (bench_start P C) ms s g"
    and "fresh_run lp lo n (initial q) (queue_labels ms) s" and "main_thread g = M_report" and "0 < C"
  shows "total_push g = total_pop g \<and> (\<exists>h. holds (mem s) n h []) \<and>
    (\<forall>r. printed_line per_milli t0 t1 g = Some r \<longrightarrow> \<not> line_error r \<and> line_difference r = None)"
  using bandwidth_report [OF assms(2,3) constructed_rep [OF assms(1)] assms(4,5)] printed_right [of g per_milli t0 t1] by blast

theorem bandwidth_on_queue_witness:
  "\<exists>ms s g. program_run (bench_program (ucast :: u64 \<Rightarrow> u32)) False False (initial demo_queue) (bench_start 1 1) ms s g \<and>
    total_push g = 1 \<and> total_push g = total_pop g \<and> (\<exists>h. holds (mem s) 2 h [])"
proof -
  obtain ms s g where r: "program_run (bench_program (ucast :: u64 \<Rightarrow> u32)) False False (initial demo_queue) (bench_start 1 1) ms s g"
      "fresh_run False False 2 (initial demo_queue) (queue_labels ms) s" "main_thread g = M_report" "total_push g = 1"
    using demo_measure_run by blast
  from bandwidth_on_queue [OF demo_constructed r(1-3)] r(1,4) show ?thesis
    by (intro exI [of _ ms] exI [of _ s] exI [of _ g]) simp
qed

text \<open>
  C30. The pack benchmark on the lock-free queues, for a single queue and for a pack, any numbers of threads and any interleaving: when it
  reports, the sum of the producers is the sum of the consumers and of the
  values that are still in the queues, and the number of pops and of those values is the number of pushes
  asked for: it prints \<open>OK\<close> only for sums that differ by nothing.
\<close>

theorem pack_bench_sums:
  fixes q :: "('v::zero, 'l::len) queue"
  assumes "constructed M sz n q" and "0 < groups u"
    and "queues_run (pk_program u conv num N P C) lp lo (\<lambda>j. initial q) (pack_bench_start u P C) ms S g"
    and "fresh_queues lp lo n (\<lambda>j. initial q) ms S" and "pk_main g = W_report"
  shows "\<exists>hs xss. length xss = unat (groups u) \<and> (\<forall>j < unat (groups u). holds (mem (S j)) n (hs j) (xss ! j)) \<and>
    prod_sum g = cons_sum g + sum_list (map num (concat xss)) \<and>
    pk_total_pops g + of_nat (length (concat xss)) = ucast P * ucast N \<and> (pk_ok g \<longrightarrow> sum_list (map num (concat xss)) = 0)"
proof -
  obtain Q where Q: "\<forall>j. holds (mem (S j)) n (fst (Q j)) (snd (Q j))"
      "prod_sum g = cons_sum g + sum_list (map num (concat (map (\<lambda>j. snd (Q j)) [0..<unat (groups u)])))"
      "pk_total_pops g + of_nat (length (concat (map (\<lambda>j. snd (Q j)) [0..<unat (groups u)]))) = ucast P * ucast N"
    using pack_queues_report [OF assms(3,4) constructed_rep [OF assms(1)] assms(5,2)] by blast
  then show ?thesis
    by (intro exI [of _ "\<lambda>j. fst (Q j)"] exI [of _ "map (\<lambda>j. snd (Q j)) [0..<unat (groups u)]"]) (auto simp: pk_ok_def)
qed

theorem pack_bench_sums_witness:
  "\<exists>ms S g. queues_run (pk_program (Queue_pack 2 1) (\<lambda>x. x) ucast 2 1 1) False False (\<lambda>j. initial demo_queue)
      (pack_bench_start (Queue_pack 2 1) 1 1) ms S g \<and> pk_ok g \<and> prod_sum g = cons_sum g \<and>
    (\<exists>h h' xs xs'. holds (mem (S 0)) 2 h xs \<and> holds (mem (S 1)) 2 h' xs' \<and> sum_list (map ucast (xs @ xs')) = (0 :: u64))"
proof -
  let ?K = "pk_program (Queue_pack 2 1) (\<lambda>x. x) ucast 2 1 1 :: (unit, u32 pack_bench, u32, 32 word) queues_program"
  obtain ms S g where e: "queues_exec ?K False False demo_packed ([], \<lambda>j. initial demo_queue, pack_bench_start (Queue_pack 2 1) 1 1) = Some (ms, S, g)"
      "pk_main g = W_report" "pk_total_pops g = 2" "pk_ok g" "length ms \<le> 100"
    using demo_packed_exec by (auto split: option.splits)
  have few: "length ms + 2 \<le> 1000" using e(5) by simp
  note r = queues_exec_fresh [OF e(1) demo_constructed few]
  have "0 < groups (Queue_pack 2 1)" by simp
  from pack_bench_sums [OF demo_constructed this r e(2)] obtain hs xss
    where h: "length xss = 2" "\<forall>j < 2. holds (mem (S j)) 2 (hs j) (xss ! j)"
      "prod_sum g = cons_sum g + sum_list (map ucast (concat xss))" "sum_list (map ucast (concat xss)) = (0 :: u64)"
    using e(4) by auto
  obtain xs xs' where xs: "xss = [xs, xs']" using h(1) by (auto simp: length_Suc_conv numeral_2_eq_2)
  have "holds (mem (S 0)) 2 (hs 0) xs \<and> holds (mem (S 1)) 2 (hs 1) xs'"
    using h(2) [rule_format, of 0] h(2) [rule_format, of 1] by (simp add: xs)
  moreover have "sum_list (map ucast (xs @ xs')) = (0 :: u64)" using h(4) by (simp add: xs)
  moreover have "prod_sum g = cons_sum g" using h(3,4) by simp
  ultimately show ?thesis using r(1) e(4) by blast
qed

text \<open>
  C31. The pack benchmark need not end: a producer that reads the benchmark state only after the main
  thread has set it waits for ever, whatever the other threads do, and the report is never reached.
\<close>

theorem pack_bench_hangs:
  fixes s :: "'v::zero pack_bench"
  assumes "i < length (pk_producers s)" and "a_pc (pk_producers s ! i) = A_wait" and "benchmark_state s \<noteq> 0"
    and "pk_main s \<noteq> W_report" and "pk_run u n conv num N P C as s = Some s'"
  shows "a_pc (pk_producers s' ! i) = A_wait \<and> pk_main s' \<noteq> W_report"
  using waits_forever_run [of i s] assms by (auto simp: waits_forever_def)

theorem pack_bench_hangs_witness:
  "\<exists>s. pk_run Single_queue 2 (\<lambda>x. x) ucast 2 1 1 demo_late (pack_bench_start Single_queue 1 1 :: u32 pack_bench) = Some s \<and>
    (\<forall>as s'. pk_run Single_queue 2 (\<lambda>x. x) ucast 2 1 1 as s = Some s' \<longrightarrow> pk_main s' \<noteq> W_report)"
proof -
  obtain s where s: "pk_run Single_queue 2 (\<lambda>x. x) ucast 2 1 1 demo_late (pack_bench_start Single_queue 1 1 :: u32 pack_bench) = Some s"
      "map a_pc (pk_producers s) = [A_wait]" "benchmark_state s \<noteq> 0" "pk_main s = W_wait"
    using demo_late_run by auto
  then have "0 < length (pk_producers s)" "a_pc (pk_producers s ! 0) = A_wait" by (cases "pk_producers s"; simp)+
  from pack_bench_hangs [OF this s(3)] s(1,4) show ?thesis by auto
qed

text \<open>
  C32. \<open>QTiming\<close> on the lock-free queue, with its rounds and its threads in any interleaving: it stays within its array and prints only
  what it has recorded, for every depth below the largest, as long as the time stamp counter is never read as 0, the mark of
  the end; when the reader and the writer are done, the queue in memory is empty.
\<close>

theorem timing_safe:
  fixes q :: "(u64, 'l::len) queue"
  assumes "constructed N sz n q" and "program_run (timed_program timer depth) lp lo (initial q) (timed_start depth) ms s g"
    and "fresh_run lp lo n (initial q) (queue_labels ms) s" and "depth \<noteq> - 1" and "\<not> timer 0"
  shows "\<not> faulted g \<and> (main_at g = T_join \<and> reader_pc (both g) = R_done \<longrightarrow>
    (\<forall>i \<le> unat depth. diffs (both g) ! i \<noteq> None) \<and> (writer_pc (both g) = W_done \<longrightarrow> (\<exists>h. holds (mem s) n h [])))"
  by (rule timed_report [OF assms(2,3) constructed_rep [OF assms(1)] assms(4,5)])

theorem timing_safe_witness:
  "\<exists>ms s g. program_run (timed_program (\<lambda>x. x \<noteq> 0) 1) False False (initial (demo_four :: (u64, 32) queue)) (timed_start 1) ms s g \<and>
    \<not> faulted g \<and> diffs (both g) ! 0 = Some 20 \<and> diffs (both g) ! 1 \<noteq> None \<and> (\<exists>h. holds (mem s) 4 h [])"
proof -
  let ?K = "timed_program (\<lambda>x. x \<noteq> 0) 1 :: (u64, timed, u64, u32) queue_program"
  obtain ms s g where e: "program_exec ?K False False demo_timed ([], initial demo_four, timed_start 1) = Some (ms, s, g)"
      "main_at g = T_join" "reader_pc (both g) = R_done" "writer_pc (both g) = W_done" "diffs (both g) ! 0 = Some 20" "pushes s = 6"
    using demo_timed_exec by (auto split: option.splits)
  have few: "pushes s + 4 \<le> 100" using e(6) by simp
  note r = exec_fresh [OF e(1) demo_four_constructed(3) few]
  from timing_safe [OF demo_four_constructed(3) r] e(2-4)
  have t: "\<not> faulted g" "\<forall>i \<le> 1. diffs (both g) ! i \<noteq> None" "\<exists>h. holds (mem s) 4 h []" by simp_all
  from t(2) have "diffs (both g) ! 1 \<noteq> None" by (rule allE [of _ 1]) simp
  with t(1,3) e(5) r(1) show ?thesis by blast
qed



section \<open>The tests of the repository\<close>





text \<open>
  C36. In \<open>hash3\<close> the consumers do not wait for each other in a circle: as long as one of them holds an
  element of some producer, one of them holds the element of that producer whose turn it is, and no two
  of them are in the critical section of one signature.
\<close>

theorem hash3_turns:
  assumes "hash_run_acts hash3 n loops C as (hash_start P) = Some s" and "P \<le> 256"
  shows "(\<forall>c \<in> set (hconsumers s). \<forall>d. held c = Some d \<longrightarrow>
      (\<exists>c' \<in> set (hconsumers s). \<exists>d'. held c' = Some d' \<and> d3_hindex d' = d3_hindex d \<and>
        ucast (d3_seq_num d') = hs_count (hout s ! unat (d3_hindex d)))) \<and>
    (\<forall>j < length (hconsumers s). \<forall>k < length (hconsumers s). \<forall>x. critical hash3 (hconsumers s ! j) = Some x \<longrightarrow>
      critical hash3 (hconsumers s ! k) = Some x \<longrightarrow> unat x < P \<longrightarrow> j = k)"
proof -
  note ok = hash_run_ok [OF hash3_orderly assms(2) hash_start_ok assms(1)]
  have "\<exists>c' \<in> set (hconsumers s). \<exists>d'. held c' = Some d' \<and> d3_hindex d' = d3_hindex d \<and>
      ucast (d3_seq_num d') = hs_count (hout s ! unat (d3_hindex d))"
    if "c \<in> set (hconsumers s)" "held c = Some d" for c d
  proof -
    have "\<exists>c' d'. c' \<in> set (hconsumers s) \<and> held c' = Some d' \<and> hindex hash3 d' = hindex hash3 d \<and>
        ready hash3 d' (hout s ! unat (hindex hash3 d))"
      by (rule hash_turn [OF hash3_orderly assms(2) ok that]) blast
    then show ?thesis by (auto simp: hash3_def)
  qed
  with hash_exclusion [OF ok] show ?thesis by blast
qed

theorem hash3_turns_witness:
  "\<exists>s. hash_run_acts hash3 4 2 2 demo_turns (hash_start 1) = Some s \<and>
    (\<exists>c' \<in> set (hconsumers s). \<exists>d'. held c' = Some d' \<and> d3_hindex d' = 0 \<and> ucast (d3_seq_num d') = hs_count (hout s ! 0))"
proof -
  obtain s where s: "hash_run_acts hash3 4 2 2 demo_turns (hash_start 1) = Some s"
      "hconsumers s = [HC_lock (Data3 0 0 0), HC_lock (Data3 1 1 0)]"
    using demo_turns_run(1) by auto
  have "\<forall>c \<in> set (hconsumers s). \<forall>d. held c = Some d \<longrightarrow>
      (\<exists>c' \<in> set (hconsumers s). \<exists>d'. held c' = Some d' \<and> d3_hindex d' = d3_hindex d \<and>
        ucast (d3_seq_num d') = hs_count (hout s ! unat (d3_hindex d)))"
    using hash3_turns [OF s(1)] by simp
  moreover have "HC_lock (Data3 1 1 0) \<in> set (hconsumers s)" "held (HC_lock (Data3 1 1 0)) = Some (Data3 1 1 0)"
    by (simp_all add: s(2))
  ultimately have "\<exists>c' \<in> set (hconsumers s). \<exists>d'. held c' = Some d' \<and> d3_hindex d' = 0 \<and> ucast (d3_seq_num d') = hs_count (hout s ! 0)"
    by fastforce
  with s(1) show ?thesis by blast
qed

text \<open>
  C37. The test \<open>hash2\<close> has the same guarantee on the lock-free queue with one consumer, and only then: two consumers can
  sign the elements of a producer in the wrong order, so that the signatures differ although the queue is empty.
\<close>

theorem hash2_on_queue:
  fixes q :: "(data2, 'l::len) queue"
  shows "(constructed N sz n q \<longrightarrow> program_run (hash_program hash2 loops 1) lp lo (initial q) (hash_start P) ms s g \<longrightarrow>
      fresh_run lp lo n (initial q) (queue_labels ms) s \<longrightarrow> P \<le> 256 \<longrightarrow> hmain g = HM_report \<longrightarrow>
      (\<exists>h xs. holds (mem s) n h xs \<and> (hash_same g \<longleftrightarrow> xs = []))) \<and>
    (\<exists>ms s g. program_run (hash_program hash2 2 2) False False (initial (demo_four :: (data2, 32) queue)) (hash_start 1) ms s g \<and>
      fresh_run False False 4 (initial demo_four) (queue_labels ms) s \<and> hmain g = HM_report \<and>
      \<not> hash_same g \<and> empty (mem s) = Some True)"
proof
  have "\<exists>h xs. holds (mem s) n h xs \<and> (hash_same g \<longleftrightarrow> xs = [])"
    if "constructed N sz n q" "program_run (hash_program hash2 loops 1) lp lo (initial q) (hash_start P) ms s g"
      "fresh_run lp lo n (initial q) (queue_labels ms) s" "P \<le> 256" "hmain g = HM_report"
    by (rule hash_queue_report [OF that(2,3) constructed_rep [OF that(1)] that(5) hash2_orderly that(4)]) simp
  then show "constructed N sz n q \<longrightarrow> program_run (hash_program hash2 loops 1) lp lo (initial q) (hash_start P) ms s g \<longrightarrow>
      fresh_run lp lo n (initial q) (queue_labels ms) s \<longrightarrow> P \<le> 256 \<longrightarrow> hmain g = HM_report \<longrightarrow>
      (\<exists>h xs. holds (mem s) n h xs \<and> (hash_same g \<longleftrightarrow> xs = []))" by blast
  let ?K = "hash_program hash2 2 2 :: (bool, (u64, data2) hash_run, data2, u32) queue_program"
  obtain ms s g where e: "program_exec ?K False False (demo_overtaking (own_turns False 4 4 @ own_turns False 2 4))
      ([], initial demo_four, hash_start 1) = Some (ms, s, g)" "hmain g = HM_report" "\<not> hash_same g" "pushes s = 2" "empty (mem s) = Some True"
    using demo_overtaking_exec(1) by (auto split: option.splits)
  from exec_fresh [OF e(1) demo_four_constructed(1)] e
  show "\<exists>ms s g. program_run ?K False False (initial (demo_four :: (data2, 32) queue)) (hash_start 1) ms s g \<and>
      fresh_run False False 4 (initial demo_four) (queue_labels ms) s \<and> hmain g = HM_report \<and>
      \<not> hash_same g \<and> empty (mem s) = Some True" by auto
qed

theorem hash2_on_queue_witness:
  "\<exists>ms s g. program_run (hash_program hash2 1 1) False False (initial (demo_four :: (data2, 32) queue)) (hash_start 2) ms s g \<and>
    hash_same g \<and> (\<exists>h. holds (mem s) 4 h [])"
proof -
  let ?K = "hash_program hash2 1 1 :: (bool, (u64, data2) hash_run, data2, u32) queue_program"
  obtain ms s g where e: "program_exec ?K False False demo_alone ([], initial demo_four, hash_start 2) = Some (ms, s, g)"
      "hmain g = HM_report" "hash_same g" "pushes s = 2"
    using demo_alone_exec by (auto split: option.splits)
  note r = exec_fresh [OF e(1) demo_four_constructed(1)]
  have "\<exists>h xs. holds (mem s) 4 h xs \<and> (hash_same g \<longleftrightarrow> xs = [])"
    using hash2_on_queue [of 4 4 4 demo_four 1 False False 2 ms s g] demo_four_constructed(1) r e(2,4) by simp
  with r(1) e(3,4) show ?thesis by auto
qed

text \<open>
  C38. The test \<open>HashInputOutput\<close> passes on the lock-free queue for every number of loops and every interleaving: when both threads have
  returned, the signatures of what was pushed and of what was popped are the same, and the queue in memory is empty.
\<close>

theorem hash_io_on_queue:
  fixes q :: "(u64, 'l::len) queue"
  assumes "constructed N sz n q" and "program_run (io_program loops) lp lo (initial q) io_start ms s g"
    and "fresh_run lp lo n (initial q) (queue_labels ms) s" and "io_joined loops g"
  shows "same_signature (h_in g) (h_out g) \<and> (\<exists>h. holds (mem s) n h [])"
  by (rule io_queue_report [OF assms(2,3) constructed_rep [OF assms(1)] assms(4)])

theorem hash_io_on_queue_witness:
  "\<exists>ms s g. program_run (io_program 2) False False (initial (demo_four :: (u64, 32) queue)) io_start ms s g \<and>
    hs_state (h_out g) \<noteq> 1 \<and> same_signature (h_in g) (h_out g) \<and> (\<exists>h. holds (mem s) 4 h [])"
proof -
  let ?K = "io_program 2 :: (unit, hash_io, u64, u32) queue_program"
  obtain ms s g where e: "program_exec ?K False False demo_in_out ([], initial demo_four, io_start) = Some (ms, s, g)"
      "io_joined 2 g" "hs_state (h_out g) \<noteq> 1" "pushes s = 2"
    using demo_in_out_exec by (auto split: option.splits)
  have few: "pushes s + 4 \<le> 100" using e(4) by simp
  note r = exec_fresh [OF e(1) demo_four_constructed(3) few]
  from hash_io_on_queue [OF demo_four_constructed(3) r e(2)] e(3) r(1) show ?thesis by blast
qed

section \<open>The example programs\<close>



section \<open>Signatures\<close>

text \<open>
  C40. No update of a signature loses information: adding the same value or the same string to two
  different signatures leaves them different, and adding to one signature two values that differ after
  the adjustment of sparse values gives different signatures.
\<close>

theorem signature_updates_injective:
  "(add_value v s = add_value v t \<longleftrightarrow> s = t) \<and> (add_string sv s = add_string sv t \<longleftrightarrow> s = t) \<and>
   (add_value v s = add_value w s \<longleftrightarrow> adjust v = adjust w)"
proof (intro conjI iffI)
  show "s = t" if "add_string sv s = add_string sv t"
    using that by (auto simp: add_string_def dest: add_value_injective_state add_string_loop_injective split: if_splits)
  show "add_value v s = add_value w s" if "adjust v = adjust w"
    using that by (simp add: add_value_def)
qed (auto dest: add_value_injective_state add_value_injective_value)

end
